(* ===== verification/Frr_Prelude.thy ===== *)
theory Frr_Prelude
  imports Main "HOL-Library.Word" "HOL-Library.Sublist" "HOL-Library.Monad_Syntax"
begin

text \<open>
  Shared vocabulary of the development: names for C's fixed-width integers, bytes as
  bit strings, the bit masks of a byte, and generic facts on lists.
  A C function that can fail an \<^verbatim>\<open>assert\<close>, dereference a null pointer or
  access memory outside an object returns an \<^typ>\<open>'a option\<close>: \<^term>\<open>None\<close> is
  the abort, \<^term>\<open>Some v\<close> the normal return.
\<close>

unbundle bit_operations_syntax

type_synonym u8 = "8 word"
type_synonym u16 = "16 word"
type_synonym u32 = "32 word"
type_synonym u64 = "64 word"

named_theorems frr_defs "definitions of leaf operations, to be unfolded by the component proofs"
named_theorems frr_bits "the bit view of byte and word operations"

subsection \<open>Guards of fallible code\<close>

text \<open>\<^verbatim>\<open>assert(b)\<close>: abort when the condition is false.\<close>

definition cassert :: "bool \<Rightarrow> unit option" where
  "cassert b = (if b then Some () else None)"

lemma cassert_simps [simp]:
  "cassert True = Some ()" "cassert False = None"
  "(cassert b = Some v) = b"
  by (auto simp: cassert_def)

lemma bind_cassert [simp]:
  "Option.bind (cassert b) f = (if b then f () else None)"
  by (simp add: cassert_def)

subsection \<open>Three-way comparison (lib/compiler.h)\<close>

definition numcmp :: "'a::linorder \<Rightarrow> 'a \<Rightarrow> int" where
  "numcmp a b = (if a < b then -1 else if a > b then 1 else 0)"

lemma numcmp_0 [simp]: "numcmp a b = 0 \<longleftrightarrow> a = b"
  by (auto simp: numcmp_def)

lemma numcmp_neg: "numcmp a b < 0 \<longleftrightarrow> a < b"
  by (auto simp: numcmp_def)

lemma numcmp_pos: "0 < numcmp a b \<longleftrightarrow> b < a"
  by (auto simp: numcmp_def)

lemma numcmp_sym: "numcmp a b = - numcmp b a"
  by (auto simp: numcmp_def)

lemma numcmp_self [simp]: "numcmp a a = 0"
  by simp

subsection \<open>Bytes as bit strings, most significant bit first\<close>

definition bits_of :: "u8 list \<Rightarrow> bool list" where
  "bits_of bs = map (\<lambda>i. bit (bs ! (i div 8)) (7 - i mod 8)) [0..<8 * length bs]"

lemma length_bits_of [simp]: "length (bits_of bs) = 8 * length bs"
  by (simp add: bits_of_def)

lemma nth_bits_of:
  "i < 8 * length bs \<Longrightarrow> bits_of bs ! i = bit (bs ! (i div 8)) (7 - i mod 8)"
  by (simp add: bits_of_def)

lemma byte_eqI:
  assumes "\<And>i. i < 8 \<Longrightarrow> bit a (7 - i) = bit (b :: u8) (7 - i)"
  shows "a = b"
proof (rule bit_word_eqI)
  fix n assume "n < LENGTH(8)"
  then have n: "n < 8" by simp
  then have "bit a (7 - (7 - n)) = bit b (7 - (7 - n))"
    by (intro assms) simp
  with n show "bit a n = bit b n" by simp
qed

lemma byte_eq_iff: "(a :: u8) = b \<longleftrightarrow> (\<forall>i<8. bit a (7 - i) = bit b (7 - i))"
  using byte_eqI by blast

lemma bits_of_inject:
  assumes "length bs = length cs" "bits_of bs = bits_of cs"
  shows "bs = cs"
proof (rule nth_equalityI)
  fix k assume k: "k < length bs"
  show "bs ! k = cs ! k"
  proof (rule byte_eqI)
    fix i :: nat assume i: "i < 8"
    have "8 * k + i < 8 * length bs" using k i by linarith
    then have "bits_of bs ! (8 * k + i) = bit (bs ! k) (7 - i)"
      "bits_of cs ! (8 * k + i) = bit (cs ! k) (7 - i)"
      using assms(1) i by (simp_all add: nth_bits_of)
    then show "bit (bs ! k) (7 - i) = bit (cs ! k) (7 - i)"
      using assms(2) by simp
  qed
qed (fact assms(1))

subsection \<open>The mask table of the prefix and table code\<close>

text \<open>\<^verbatim>\<open>maskbit[]\<close> of lib/prefix.c and lib/table.c: entry k keeps the k leading bits.\<close>

definition maskbit :: "u8 list" where
  "maskbit = [0x00, 0x80, 0xc0, 0xe0, 0xf0, 0xf8, 0xfc, 0xfe, 0xff]"

lemma all_nat_less_9:
  "(\<forall>k<9. P (k :: nat)) \<longleftrightarrow> P 8 \<and> P 7 \<and> P 6 \<and> P 5 \<and> P 4 \<and> P 3 \<and> P 2 \<and> P 1 \<and> P 0"
  by (simp add: eval_nat_numeral All_less_Suc)

lemma all_nat_less_8:
  "(\<forall>k<8. P (k :: nat)) \<longleftrightarrow> P 7 \<and> P 6 \<and> P 5 \<and> P 4 \<and> P 3 \<and> P 2 \<and> P 1 \<and> P 0"
  by (simp add: eval_nat_numeral All_less_Suc)

lemma bit_maskbit_all: "\<forall>k<9. \<forall>i<8. bit (maskbit ! k) (7 - i) = (i < k)"
  by (simp only: all_nat_less_9 all_nat_less_8) (simp add: maskbit_def)

lemma bit_maskbit [frr_bits]: "k < 9 \<Longrightarrow> i < 8 \<Longrightarrow> bit (maskbit ! k) (7 - i) = (i < k)"
  using bit_maskbit_all by blast

lemma bits_of_append: "bits_of (xs @ ys) = bits_of xs @ bits_of ys"
proof (rule nth_equalityI)
  fix i assume i: "i < length (bits_of (xs @ ys))"
  show "bits_of (xs @ ys) ! i = (bits_of xs @ bits_of ys) ! i"
  proof (cases "i < 8 * length xs")
    case True
    then have "i div 8 < length xs" by (simp add: less_mult_imp_div_less mult.commute)
    with True i show ?thesis by (simp add: nth_bits_of nth_append)
  next
    case False
    then obtain j where j: "i = 8 * length xs + j" by (metis le_Suc_ex not_less)
    with i show ?thesis by (simp add: nth_bits_of nth_append)
  qed
qed simp

subsection \<open>Big-endian integers\<close>

definition be_dec :: "u8 list \<Rightarrow> 'a::len word" where
  "be_dec bs = foldl (\<lambda>w b. push_bit 8 w OR ucast b) 0 bs"

definition be_enc :: "nat \<Rightarrow> 'a::len word \<Rightarrow> u8 list" where
  "be_enc n w = map (\<lambda>i. ucast (drop_bit (8 * i) w)) (rev [0..<n])"

lemma be_dec_simps [simp]:
  "be_dec [] = 0"
  "be_dec (bs @ [b]) = push_bit 8 (be_dec bs) OR ucast b"
  by (simp_all add: be_dec_def)

lemma length_be_enc [simp]: "length (be_enc n w) = n"
  by (simp add: be_enc_def)

lemma not_bit_word: "LENGTH('a::len) \<le> n \<Longrightarrow> \<not> bit (x :: 'a word) n"
  using bit_imp_le_length by (metis not_le)

lemma not_bit_u8 [simp]: "8 \<le> n \<Longrightarrow> \<not> bit (x :: u8) n"
  by (rule not_bit_word) simp

lemma bit_be_dec:
  "bit (be_dec bs :: 'a::len word) n \<longleftrightarrow>
     n < LENGTH('a) \<and> n < 8 * length bs \<and> bit (rev bs ! (n div 8)) (n mod 8)"
proof (induction bs arbitrary: n rule: rev_induct)
  case Nil
  then show ?case by simp
next
  case (snoc b bs)
  show ?case
  proof (cases "n < 8")
    case True
    then show ?thesis
      by (auto simp: bit_or_iff bit_push_bit_iff bit_unsigned_iff)
  next
    case False
    then obtain m where m: "n = m + 8" by (metis add.commute le_Suc_ex not_less)
    have "(m + 8) div 8 - Suc 0 = m div 8" by simp
    then show ?thesis
      by (auto simp: m bit_or_iff bit_push_bit_iff bit_unsigned_iff snoc.IH)
  qed
qed

lemma rev_be_enc: "rev (be_enc n w) = map (\<lambda>i. ucast (drop_bit (8 * i) w)) [0..<n]"
  by (simp add: be_enc_def rev_map)

lemma be_dec_enc:
  fixes w :: "'a::len word"
  assumes "LENGTH('a) \<le> 8 * n"
  shows "be_dec (be_enc n w) = w"
proof (rule bit_word_eqI)
  fix i assume "i < LENGTH('a)"
  with assms have "i < LENGTH('a)" "i < 8 * n" by simp_all
  moreover have "i div 8 < n" using \<open>i < 8 * n\<close> by (simp add: less_mult_imp_div_less mult.commute)
  ultimately show "bit (be_dec (be_enc n w) :: 'a word) i = bit w i"
    by (simp add: bit_be_dec rev_be_enc bit_unsigned_iff bit_drop_bit_eq)
qed

lemma be_enc_dec:
  assumes "8 * length bs \<le> LENGTH('a::len)"
  shows "be_enc (length bs) (be_dec bs :: 'a word) = bs"
proof (rule rev_is_rev_conv [THEN iffD1], rule nth_equalityI)
  fix k assume "k < length (rev (be_enc (length bs) (be_dec bs :: 'a word)))"
  then have k: "k < length bs" by simp
  show "rev (be_enc (length bs) (be_dec bs :: 'a word)) ! k = rev bs ! k"
  proof (rule bit_word_eqI)
    fix i assume "i < LENGTH(8)"
    then have i: "i < 8" by simp
    with k assms have "8 * k + i < LENGTH('a)" "8 * k + i < 8 * length bs" by linarith+
    with i k show "bit (rev (be_enc (length bs) (be_dec bs :: 'a word)) ! k) i = bit (rev bs ! k) i"
      by (simp add: rev_be_enc bit_unsigned_iff bit_drop_bit_eq bit_be_dec)
  qed
qed simp

lemma nth_bits_of_be_dec:
  assumes "i < 8 * length bs" "8 * length bs \<le> LENGTH('a::len)"
  shows "bits_of bs ! i = bit (be_dec bs :: 'a word) (8 * length bs - 1 - i)"
proof -
  define q r where "q = i div 8" and "r = i mod 8"
  have i: "i = 8 * q + r" "r < 8" by (simp_all add: q_def r_def)
  with assms(1) have q: "q < length bs" by linarith
  have n: "8 * length bs - 1 - i = 8 * (length bs - 1 - q) + (7 - r)"
    using i q by (simp add: diff_mult_distrib2)
  have "rev bs ! (length bs - 1 - q) = bs ! q"
    using q by (simp add: rev_nth)
  moreover have "(8 * (length bs - 1 - q) + (7 - r)) div 8 = length bs - 1 - q"
    "(8 * (length bs - 1 - q) + (7 - r)) mod 8 = 7 - r"
    by simp_all
  moreover have "8 * (length bs - 1 - q) + (7 - r) < 8 * length bs"
    using q by linarith
  ultimately show ?thesis
    unfolding n bit_be_dec using assms(2) nth_bits_of [OF assms(1)]
    by (simp flip: q_def r_def)
qed

lemma be_dec_4: "be_dec [a, b, c, d] =
    push_bit 24 (ucast a) OR push_bit 16 (ucast b) OR push_bit 8 (ucast c) OR ucast d"
  by (simp add: be_dec_def push_bit_or or.assoc)

subsection \<open>Lists sorted by a key; division\<close>

lemma bit_unat_iff: "bit (w :: 'a :: len word) i \<longleftrightarrow> odd (unat w div 2 ^ i)"
proof -
  have "bit w i = bit (unat w) i" by (auto simp: bit_unsigned_iff dest: bit_imp_le_length)
  then show ?thesis by (simp add: bit_iff_odd)
qed

lemma unat_drop_bit: "unat (drop_bit k (w :: u32)) = unat w div 2 ^ k"
proof -
  have "unat w < 4294967296" using unsigned_less[of w] by simp
  then show ?thesis unfolding unsigned_drop_bit_eq by (simp add: drop_bit_eq_div take_bit_eq_mod)
qed

lemma unat_minus_1: "unat w = Suc n \<Longrightarrow> unat (w - 1 :: u32) = n"
  by (metis Suc_neq_Zero diff_Suc_1 unat_0 unat_minus_one)

lemma power_bracket: "0 < n \<Longrightarrow> \<exists>b. 2 ^ b \<le> n \<and> n < (2 :: nat) ^ Suc b"
  using ex_power_ivl1[of 2 n] by simp

lemma sorted_takeWhile:
  assumes "sorted (map f xs)" "\<And>x y. f x \<le> f y \<Longrightarrow> P y \<Longrightarrow> P x"
  shows "takeWhile P xs = filter P xs" "dropWhile P xs = filter (\<lambda>x. \<not> P x) xs"
proof -
  have none: "filter P xs = []" if "\<not> P a" "\<forall>y\<in>set xs. f a \<le> f y" for a xs
    using that assms(2) by (auto simp: filter_empty_conv)
  have all: "filter (\<lambda>x. \<not> P x) xs = xs" if "\<not> P a" "\<forall>y\<in>set xs. f a \<le> f y" for a xs
    using that assms(2) by (auto simp: filter_id_conv)
  show "takeWhile P xs = filter P xs"
    using assms(1) by (induction xs) (simp_all add: none)
  show "dropWhile P xs = filter (\<lambda>x. \<not> P x) xs"
    using assms(1) by (induction xs) (simp_all add: all)
qed

lemma filter_append_sorted:
  assumes "sorted (map f xs)" "\<And>x y. P x \<Longrightarrow> Q y \<Longrightarrow> f x < f y"
  shows "filter P xs @ filter Q xs = filter (\<lambda>x. P x \<or> Q x) xs"
  using assms(1)
proof (induction xs)
  case (Cons a xs)
  show ?case
  proof (cases "Q a")
    case True
    then have "\<forall>x\<in>set (a # xs). \<not> P x" using Cons.prems assms(2) by fastforce
    then have "filter P (a # xs) = []" "filter Q (a # xs) = filter (\<lambda>x. P x \<or> Q x) (a # xs)"
      by (auto simp only: filter_empty_conv intro!: filter_cong)
    then show ?thesis by simp
  qed (use Cons in simp)
qed simp

lemma div_eq_iff_range: "0 < q \<Longrightarrow> k * q \<le> x \<and> x < k * q + q \<longleftrightarrow> x div q = (k :: nat)"
  by (auto intro: div_nat_eqI simp: mult.commute add.commute dividend_less_times_div)

lemma half_less: "0 < p \<Longrightarrow> n \<le> (2 * p - Suc 0) div 2 \<Longrightarrow> n < (p :: nat)"
  by linarith

lemma length_filter_neq:
  "distinct (map fst L) \<Longrightarrow> x \<in> fst ` set L \<Longrightarrow> length L = Suc (length (filter (\<lambda>e. fst e \<noteq> x) L))"
proof (induction L)
  case (Cons e L)
  show ?case
  proof (cases "fst e = x")
    case True
    then have "filter (\<lambda>e. fst e \<noteq> x) L = L" using Cons.prems(1) by (auto simp: filter_id_conv image_iff)
    then show ?thesis using True by simp
  qed (use Cons in auto)
qed simp

end
