(* ===== verification/Jhash.thy ===== *)
theory Jhash
  imports Frr_Prelude
begin

text \<open>
  Bob Jenkins' hash as FRR uses it, lib/jhash.c. A key is its list of bytes; all
  arithmetic is on 32-bit words. The word-based variant \<open>jhash2\<close> is shown to
  compute the same value as the byte-based \<open>jhash\<close> on the little-endian layout of its words.
\<close>

definition JHASH_GOLDEN_RATIO :: u32 where
  "JHASH_GOLDEN_RATIO = 0x9e3779b9"

text \<open>The macro \<^verbatim>\<open>__jhash_mix\<close>: nine rounds of two subtractions and a shifted xor.\<close>

definition jhash_mix :: "u32 \<Rightarrow> u32 \<Rightarrow> u32 \<Rightarrow> u32 \<times> u32 \<times> u32" where
  "jhash_mix a b c =
     (let a = a - b; a = a - c; a = a XOR drop_bit 13 c;
          b = b - c; b = b - a; b = b XOR push_bit 8 a;
          c = c - a; c = c - b; c = c XOR drop_bit 13 b;
          a = a - b; a = a - c; a = a XOR drop_bit 12 c;
          b = b - c; b = b - a; b = b XOR push_bit 16 a;
          c = c - a; c = c - b; c = c XOR drop_bit 5 b;
          a = a - b; a = a - c; a = a XOR drop_bit 3 c;
          b = b - c; b = b - a; b = b XOR push_bit 10 a;
          c = c - a; c = c - b; c = c XOR drop_bit 15 b
      in (a, b, c))"

text \<open>\<^verbatim>\<open>k[i] + ((uint32_t)k[i+1] << 8) + ((uint32_t)k[i+2] << 16) + ((uint32_t)k[i+3] << 24)\<close>\<close>

definition word_at :: "u8 list \<Rightarrow> nat \<Rightarrow> u32" where
  "word_at k i = ucast (k ! i) + push_bit 8 (ucast (k ! (i + 1)))
                 + push_bit 16 (ucast (k ! (i + 2))) + push_bit 24 (ucast (k ! (i + 3)))"

text \<open>The loop over whole twelve-byte blocks returns the bytes left and the three registers.\<close>

fun jhash_blocks :: "u8 list \<Rightarrow> u32 \<Rightarrow> u32 \<Rightarrow> u32 \<Rightarrow> u8 list \<times> u32 \<times> u32 \<times> u32" where
  "jhash_blocks k a b c =
     (if length k \<ge> 12 then
        (let a = a + word_at k 0; b = b + word_at k 4; c = c + word_at k 8;
             (a, b, c) = jhash_mix a b c
         in jhash_blocks (drop 12 k) a b c)
      else (k, a, b, c))"

declare jhash_blocks.simps [simp del]

definition jhash :: "u8 list \<Rightarrow> u32 \<Rightarrow> u32" where
  "jhash key initval =
     (let (k, a, b, c) = jhash_blocks key JHASH_GOLDEN_RATIO JHASH_GOLDEN_RATIO initval;
          len = length k;
          c = c + of_nat (length key);
          c = (if len \<ge> 11 then c + push_bit 24 (ucast (k ! 10)) else c);
          c = (if len \<ge> 10 then c + push_bit 16 (ucast (k ! 9)) else c);
          c = (if len \<ge> 9 then c + push_bit 8 (ucast (k ! 8)) else c);
          b = (if len \<ge> 8 then b + push_bit 24 (ucast (k ! 7)) else b);
          b = (if len \<ge> 7 then b + push_bit 16 (ucast (k ! 6)) else b);
          b = (if len \<ge> 6 then b + push_bit 8 (ucast (k ! 5)) else b);
          b = (if len \<ge> 5 then b + ucast (k ! 4) else b);
          a = (if len \<ge> 4 then a + push_bit 24 (ucast (k ! 3)) else a);
          a = (if len \<ge> 3 then a + push_bit 16 (ucast (k ! 2)) else a);
          a = (if len \<ge> 2 then a + push_bit 8 (ucast (k ! 1)) else a);
          a = (if len \<ge> 1 then a + ucast (k ! 0) else a);
          (a, b, c) = jhash_mix a b c
      in c)"

fun jhash2_blocks :: "u32 list \<Rightarrow> u32 \<Rightarrow> u32 \<Rightarrow> u32 \<Rightarrow> u32 list \<times> u32 \<times> u32 \<times> u32" where
  "jhash2_blocks (k0 # k1 # k2 # k) a b c =
     (let (a, b, c) = jhash_mix (a + k0) (b + k1) (c + k2) in jhash2_blocks k a b c)"
| "jhash2_blocks k a b c = (k, a, b, c)"

definition jhash2 :: "u32 list \<Rightarrow> u32 \<Rightarrow> u32" where
  "jhash2 key initval =
     (let (k, a, b, c) = jhash2_blocks key JHASH_GOLDEN_RATIO JHASH_GOLDEN_RATIO initval;
          len = length k;
          c = c + of_nat (length key) * 4;
          b = (if len \<ge> 2 then b + k ! 1 else b);
          a = (if len \<ge> 1 then a + k ! 0 else a);
          (a, b, c) = jhash_mix a b c
      in c)"

definition jhash_3words :: "u32 \<Rightarrow> u32 \<Rightarrow> u32 \<Rightarrow> u32 \<Rightarrow> u32" where
  "jhash_3words a b c initval =
     (let (a, b, c) = jhash_mix (a + JHASH_GOLDEN_RATIO) (b + JHASH_GOLDEN_RATIO) (c + initval)
      in c)"

definition jhash_2words :: "u32 \<Rightarrow> u32 \<Rightarrow> u32 \<Rightarrow> u32" where
  "jhash_2words a b initval = jhash_3words a b 0 initval"

definition jhash_1word :: "u32 \<Rightarrow> u32 \<Rightarrow> u32" where
  "jhash_1word a initval = jhash_3words a 0 0 initval"

subsection \<open>The word variant agrees with the byte variant\<close>

definition le_bytes :: "u32 list \<Rightarrow> u8 list" where
  "le_bytes ws = concat (map (\<lambda>w. rev (be_enc 4 w)) ws)"

lemma le_bytes_simps [simp]:
  "le_bytes [] = []"
  "le_bytes (w # ws) = ucast w # ucast (drop_bit 8 w) # ucast (drop_bit 16 w) # ucast (drop_bit 24 w) # le_bytes ws"
  by (simp_all add: le_bytes_def rev_be_enc upt_rec)

lemma length_le_bytes [simp]: "length (le_bytes ws) = 4 * length ws"
  by (induction ws) simp_all


lemma sum_of_bytes:
  "ucast (ucast w :: u8) + push_bit 8 (ucast (ucast (drop_bit 8 w) :: u8))
   + push_bit 16 (ucast (ucast (drop_bit 16 w) :: u8)) + push_bit 24 (ucast (ucast (drop_bit 24 w) :: u8)) = (w :: u32)"
proof -
  let ?a = "ucast (ucast w :: u8) :: u32" and ?b = "push_bit 8 (ucast (ucast (drop_bit 8 w) :: u8)) :: u32"
    and ?c = "push_bit 16 (ucast (ucast (drop_bit 16 w) :: u8)) :: u32"
    and ?d = "push_bit 24 (ucast (ucast (drop_bit 24 w) :: u8)) :: u32"
  have bits: "bit ?a n \<longleftrightarrow> n < 8 \<and> bit w n" "bit ?b n \<longleftrightarrow> 8 \<le> n \<and> n < 16 \<and> bit w n"
    "bit ?c n \<longleftrightarrow> 16 \<le> n \<and> n < 24 \<and> bit w n" "bit ?d n \<longleftrightarrow> 24 \<le> n \<and> bit w n" for n
    using bit_imp_le_length [of w n]
    by (auto simp: bit_unsigned_iff bit_push_bit_iff bit_drop_bit_eq)
  have "?a + ?b = ?a OR ?b"
    by (rule disjunctive_add) (auto simp: bits)
  moreover have "(?a OR ?b) + ?c = ?a OR ?b OR ?c"
    by (subst disjunctive_add) (auto simp: bits bit_or_iff or.assoc)
  moreover have "(?a OR ?b OR ?c) + ?d = ?a OR ?b OR ?c OR ?d"
    by (subst disjunctive_add) (auto simp: bits bit_or_iff or.assoc)
  moreover have "?a OR ?b OR ?c OR ?d = w"
    by (rule bit_eqI) (auto simp: bits bit_or_iff)
  ultimately show ?thesis by simp
qed

lemma word_at_le_bytes [simp]:
  "word_at (le_bytes (x # xs)) 0 = x"
  "word_at (le_bytes (x # y # xs)) 4 = y"
  "word_at (le_bytes (x # y # z # xs)) 8 = z"
  by (simp_all add: word_at_def sum_of_bytes)

lemma jhash_blocks_le_bytes:
  "jhash_blocks (le_bytes ws) a b c = (let (k, a, b, c) = jhash2_blocks ws a b c in (le_bytes k, a, b, c))"
proof (induction ws a b c rule: jhash2_blocks.induct)
  case (1 k0 k1 k2 k a b c)
  obtain a' b' c' where m: "jhash_mix (a + k0) (b + k1) (c + k2) = (a', b', c')"
    by (cases "jhash_mix (a + k0) (b + k1) (c + k2)")
  have "jhash_blocks (le_bytes (k0 # k1 # k2 # k)) a b c = jhash_blocks (le_bytes k) a' b' c'"
    by (subst jhash_blocks.simps) (simp add: m del: le_bytes_simps, simp)
  with 1 [OF m [symmetric] refl] m show ?case by simp
qed (simp_all add: jhash_blocks.simps)

lemma jhash2_rest_small: "jhash2_blocks ws a b c = (k, r) \<Longrightarrow> length k < 3"
  by (induction ws a b c rule: jhash2_blocks.induct) (auto split: prod.splits)

theorem jhash2_eq_jhash: "jhash2 ws initval = jhash (le_bytes ws) initval"
proof -
  obtain k a b c where r: "jhash2_blocks ws JHASH_GOLDEN_RATIO JHASH_GOLDEN_RATIO initval = (k, a, b, c)"
    by (metis prod.exhaust)
  have s: "a + push_bit 24 (ucast (ucast (drop_bit 24 w) :: u8)) + push_bit 16 (ucast (ucast (drop_bit 16 w) :: u8))
      + push_bit 8 (ucast (ucast (drop_bit 8 w) :: u8)) + ucast (ucast w :: u8) = a + w" for a w :: u32
    using sum_of_bytes [of w] by (simp add: algebra_simps)
  consider "k = []" | x where "k = [x]" | x y where "k = [x, y]"
    using jhash2_rest_small [OF r] by (auto simp: numeral_eq_Suc less_Suc_eq length_Suc_conv)
  then show ?thesis
    by cases (simp_all add: jhash2_def jhash_def jhash_blocks_le_bytes r s Let_def mult.commute)
qed
end
