(* ===== verification/Prefix.thy ===== *)
theory Prefix
  imports Frr_Prelude Jhash "HOL-Library.List_Lexorder" "HOL-Library.Product_Lexorder"
begin

text \<open>
  Network prefixes, lib/prefix.c and lib/prefix.h. A prefix is an address family, a length
  in bits and the bytes \<^verbatim>\<open>u.val[16]\<close> of its address in network order.
  The families whose key lies in those bytes are modelled: \<^verbatim>\<open>AF_INET\<close>,
  \<^verbatim>\<open>AF_INET6\<close>, \<^verbatim>\<open>AF_ETHERNET\<close> and the link-state pair of
  \<^verbatim>\<open>AF_UNSPEC\<close>. \<^verbatim>\<open>AF_EVPN\<close> (a struct of its own) and
  \<^verbatim>\<open>AF_FLOWSPEC\<close> / \<^verbatim>\<open>AF_LINKSTATE\<close> (a pointer to a heap block) are not.
  The lemmas relate every operation to the bit string a prefix denotes, \<open>key p\<close>.
\<close>

subsection \<open>Data\<close>

datatype family = AF_UNSPEC | AF_INET | AF_INET6 | AF_ETHERNET

text \<open>The numeric values of the constants, which \<^verbatim>\<open>prefix_cmp\<close> orders families by.\<close>

fun family_code :: "family \<Rightarrow> nat" where
  "family_code AF_UNSPEC = 0"
| "family_code AF_INET = 2"
| "family_code AF_INET6 = 10"
| "family_code AF_ETHERNET = 17"

lemma family_code_inject [simp]: "family_code a = family_code b \<longleftrightarrow> a = b"
  by (cases a; cases b) simp_all

instantiation family :: linorder
begin

definition less_eq_family :: "family \<Rightarrow> family \<Rightarrow> bool" where
  "less_eq_family a b \<longleftrightarrow> family_code a \<le> family_code b"

definition less_family :: "family \<Rightarrow> family \<Rightarrow> bool" where
  "less_family a b \<longleftrightarrow> family_code a < family_code b"

instance
  by standard (auto simp: less_eq_family_def less_family_def)

end

text \<open>\<^verbatim>\<open>struct prefix\<close>: \<open>u_val\<close> is \<^verbatim>\<open>u.val\<close>, sixteen bytes.\<close>

record prefix =
  family :: family
  prefixlen :: nat
  u_val :: "u8 list"

text \<open>How many bytes of \<open>u_val\<close> a family's address occupies.\<close>

fun fam_bytes :: "family \<Rightarrow> nat" where
  "fam_bytes AF_UNSPEC = 8"
| "fam_bytes AF_INET = 4"
| "fam_bytes AF_INET6 = 16"
| "fam_bytes AF_ETHERNET = 6"

definition prefix_ok :: "prefix \<Rightarrow> bool" where
  "prefix_ok p \<longleftrightarrow> length (u_val p) = 16 \<and> prefixlen p \<le> 8 * fam_bytes (family p)"

text \<open>The bit string a prefix denotes.\<close>

definition key :: "prefix \<Rightarrow> bool list" where
  "key p = take (prefixlen p) (bits_of (u_val p))"

text \<open>No bit of the address is set beyond the prefix length.\<close>

definition masked :: "prefix \<Rightarrow> bool" where
  "masked p \<longleftrightarrow> (\<forall>i < 8 * fam_bytes (family p). prefixlen p \<le> i \<longrightarrow> \<not> bits_of (u_val p) ! i)"

definition prefix_zero :: prefix where
  "prefix_zero = \<lparr>family = AF_UNSPEC, prefixlen = 0, u_val = replicate 16 0\<rparr>"

subsection \<open>Operations\<close>

definition PSIZE :: "nat \<Rightarrow> nat" where
  "PSIZE a = (a + 7) div 8"

definition prefix_bit :: "u8 list \<Rightarrow> nat \<Rightarrow> bool" where
  "prefix_bit bytes bit_index =
     (let offset = bit_index div 8; shift = 7 - bit_index mod 8
      in drop_bit shift (bytes ! offset) AND 1 = 1)"

text \<open>The loop \<^verbatim>\<open>while (offset--) if (np[offset] != pp[offset]) return 0; return 1;\<close>\<close>

fun bytes_match :: "nat \<Rightarrow> u8 list \<Rightarrow> u8 list \<Rightarrow> bool" where
  "bytes_match 0 np pp = True"
| "bytes_match (Suc offset) np pp =
     (if np ! offset \<noteq> pp ! offset then False else bytes_match offset np pp)"

definition prefix_match_network_statement :: "prefix \<Rightarrow> prefix \<Rightarrow> bool" where
  "prefix_match_network_statement n p =
     (let np = u_val n; pp = u_val p;
          offset = prefixlen n div 8; shift = prefixlen n mod 8
      in if shift \<noteq> 0 \<and> maskbit ! shift AND (np ! offset XOR pp ! offset) \<noteq> 0 then False
         else bytes_match offset np pp)"

definition prefix_match :: "prefix \<Rightarrow> prefix \<Rightarrow> bool" where
  "prefix_match n p =
     (if prefixlen n > prefixlen p then False
      else (let np = u_val n; pp = u_val p;
                offset = prefixlen n div 8; shift = prefixlen n mod 8
            in if shift \<noteq> 0 \<and> maskbit ! shift AND (np ! offset XOR pp ! offset) \<noteq> 0 then False
               else bytes_match offset np pp))"

definition prefix_copy :: "prefix \<Rightarrow> prefix \<Rightarrow> prefix" where
  "prefix_copy dest src =
     (let n = fam_bytes (family src)
      in dest\<lparr>family := family src, prefixlen := prefixlen src,
              u_val := take n (u_val src) @ drop n (u_val dest)\<rparr>)"

definition prefix_same :: "prefix option \<Rightarrow> prefix option \<Rightarrow> bool" where
  "prefix_same up1 up2 =
     (case (up1, up2) of
        (None, None) \<Rightarrow> True
      | (Some p1, Some p2) \<Rightarrow>
          family p1 = family p2 \<and> prefixlen p1 = prefixlen p2 \<and>
          (case family p1 of
             AF_INET \<Rightarrow> take 4 (u_val p1) = take 4 (u_val p2)
           | AF_INET6 \<Rightarrow> take 16 (u_val p1) = take 16 (u_val p2)
           | AF_ETHERNET \<Rightarrow> take 6 (u_val p1) = take 6 (u_val p2)
           | AF_UNSPEC \<Rightarrow> False)
      | _ \<Rightarrow> False)"

text \<open>libc's \<^verbatim>\<open>memcmp\<close>; only the sign of its result is specified.\<close>

fun memcmp :: "u8 list \<Rightarrow> u8 list \<Rightarrow> int" where
  "memcmp (x # xs) (y # ys) = (if x = y then memcmp xs ys else numcmp x y)"
| "memcmp _ _ = 0"

definition prefix_cmp :: "prefix \<Rightarrow> prefix \<Rightarrow> int" where
  "prefix_cmp p1 p2 =
     (if family p1 \<noteq> family p2 then numcmp (family p1) (family p2)
      else if prefixlen p1 \<noteq> prefixlen p2 then numcmp (prefixlen p1) (prefixlen p2)
      else (let pp1 = u_val p1; pp2 = u_val p2;
                offset = prefixlen p1 div 8; shift = prefixlen p1 mod 8;
                i = memcmp (take offset pp1) (take offset pp2)
            in if i \<noteq> 0 then i
               else if shift \<noteq> 0 then
                 numcmp (pp1 ! offset AND maskbit ! shift) (pp2 ! offset AND maskbit ! shift)
               else 0))"

text \<open>The two counting loops of \<^verbatim>\<open>prefix_common_bits\<close>.\<close>

fun common_bytes :: "nat \<Rightarrow> nat \<Rightarrow> u8 list \<Rightarrow> u8 list \<Rightarrow> nat" where
  "common_bytes 0 pos pp1 pp2 = pos"
| "common_bytes (Suc n) pos pp1 pp2 =
     (if pp1 ! pos \<noteq> pp2 ! pos then pos else common_bytes n (Suc pos) pp1 pp2)"

fun common_high_bits :: "nat \<Rightarrow> nat \<Rightarrow> u8 \<Rightarrow> nat" where
  "common_high_bits 0 b x = b"
| "common_high_bits (Suc n) b x =
     (if x AND push_bit (7 - b) 1 \<noteq> 0 then b else common_high_bits n (Suc b) x)"

definition prefix_common_bits :: "prefix \<Rightarrow> prefix \<Rightarrow> int" where
  "prefix_common_bits p1 p2 =
     (let pp1 = u_val p1; pp2 = u_val p2;
          length = (case family p1 of AF_INET \<Rightarrow> 4 | AF_INET6 \<Rightarrow> 16 | AF_ETHERNET \<Rightarrow> 6 | AF_UNSPEC \<Rightarrow> 0)
      in if family p1 \<noteq> family p2 \<or> length = 0 then -1
         else (let pos = common_bytes length 0 pp1 pp2
               in if pos = length then int (pos * 8)
                  else int (pos * 8 + common_high_bits 8 0 (pp1 ! pos XOR pp2 ! pos))))"

definition prefix_blen :: "prefix \<Rightarrow> nat" where
  "prefix_blen p = (case family p of AF_INET \<Rightarrow> 4 | AF_INET6 \<Rightarrow> 16 | AF_ETHERNET \<Rightarrow> 6 | AF_UNSPEC \<Rightarrow> 0)"

subsection \<open>Masks\<close>

text \<open>
  An \<^verbatim>\<open>in_addr\<close> is represented by its host-order value, \<^verbatim>\<open>ntohl(s_addr)\<close>: the
  code applies to \<^verbatim>\<open>s_addr\<close> only \<^verbatim>\<open>ntohl\<close>, \<^verbatim>\<open>htonl\<close>, comparisons with 0 and
  bitwise operations, so the model does not depend on the byte order of the host.
\<close>

text \<open>\<^verbatim>\<open>__builtin_clz\<close>, defined for arguments other than 0.\<close>

definition clz32 :: "u32 \<Rightarrow> nat" where
  "clz32 w = length (takeWhile (\<lambda>i. \<not> bit w (31 - i)) [0..<32])"

definition masklen2ip :: "int \<Rightarrow> u32 option" where
  "masklen2ip masklen =
     do { cassert (masklen \<ge> 0 \<and> masklen \<le> 32);
          Some (ucast (push_bit (nat (32 - masklen)) (0xffffffff :: u64))) }"

definition ip_masklen :: "u32 \<Rightarrow> nat" where
  "ip_masklen netmask = (let tmp = NOT netmask in if tmp \<noteq> 0 then clz32 tmp else 32)"

definition apply_mask_ipv4 :: "prefix \<Rightarrow> prefix option" where
  "apply_mask_ipv4 p =
     do { mask \<leftarrow> masklen2ip (int (prefixlen p));
          Some (p\<lparr>u_val := be_enc 4 (be_dec (take 4 (u_val p)) AND mask :: u32) @ drop 4 (u_val p)\<rparr>) }"

definition ip6_masklen :: "u32 list \<Rightarrow> nat" where
  "ip6_masklen s6_addr32 =
     (if s6_addr32 ! 0 \<noteq> 0xffffffff then clz32 (NOT (s6_addr32 ! 0))
      else if s6_addr32 ! 1 \<noteq> 0xffffffff then clz32 (NOT (s6_addr32 ! 1)) + 32
      else if s6_addr32 ! 2 \<noteq> 0xffffffff then clz32 (NOT (s6_addr32 ! 2)) + 64
      else if s6_addr32 ! 3 \<noteq> 0xffffffff then clz32 (NOT (s6_addr32 ! 3)) + 96
      else 128)"

definition masklen2ip6 :: "int \<Rightarrow> u32 list option" where
  "masklen2ip6 masklen =
     do { cassert (masklen \<ge> 0 \<and> masklen \<le> 128);
          Some (if masklen = 0 then [0, 0, 0, 0]
                else if masklen \<le> 32 then [push_bit (nat (32 - masklen)) 0xffffffff, 0, 0, 0]
                else if masklen \<le> 64 then
                  [0xffffffff, push_bit (nat (64 - masklen)) 0xffffffff, 0, 0]
                else if masklen \<le> 96 then
                  [0xffffffff, 0xffffffff, push_bit (nat (96 - masklen)) 0xffffffff, 0]
                else [0xffffffff, 0xffffffff, 0xffffffff,
                      push_bit (nat (128 - masklen)) 0xffffffff]) }"

text \<open>The loop \<^verbatim>\<open>while (index < 16) pnt[index++] = 0;\<close> with \<open>n = 16 - index\<close> turns left.\<close>

fun zero_bytes :: "nat \<Rightarrow> nat \<Rightarrow> u8 list \<Rightarrow> u8 list" where
  "zero_bytes 0 index pnt = pnt"
| "zero_bytes (Suc n) index pnt = zero_bytes n (Suc index) (pnt[index := 0])"

definition apply_mask_ipv6 :: "prefix \<Rightarrow> prefix" where
  "apply_mask_ipv6 p =
     (let index = prefixlen p div 8
      in if index < 16 then
           (let offset = prefixlen p mod 8;
                pnt = (u_val p)[index := u_val p ! index AND maskbit ! offset]
            in p\<lparr>u_val := zero_bytes (16 - Suc index) (Suc index) pnt\<rparr>)
         else p)"

definition apply_mask :: "prefix \<Rightarrow> prefix option" where
  "apply_mask p =
     (case family p of
        AF_INET \<Rightarrow> apply_mask_ipv4 p
      | AF_INET6 \<Rightarrow> Some (apply_mask_ipv6 p)
      | _ \<Rightarrow> Some p)"

text \<open>The class tests of \<^verbatim>\<open><netinet/in.h>\<close> on a host-order address.\<close>

definition IN_CLASSB :: "u32 \<Rightarrow> bool" where
  "IN_CLASSB a \<longleftrightarrow> a AND 0xc0000000 = 0x80000000"

definition IN_CLASSC :: "u32 \<Rightarrow> bool" where
  "IN_CLASSC a \<longleftrightarrow> a AND 0xe0000000 = 0xc0000000"

definition apply_classful_mask_ipv4 :: "prefix \<Rightarrow> prefix option" where
  "apply_classful_mask_ipv4 p =
     (let destination = be_dec (take 4 (u_val p)) :: u32
      in if prefixlen p = 32 then Some p
         else if IN_CLASSC destination then apply_mask_ipv4 (p\<lparr>prefixlen := 24\<rparr>)
         else if IN_CLASSB destination then apply_mask_ipv4 (p\<lparr>prefixlen := 16\<rparr>)
         else apply_mask_ipv4 (p\<lparr>prefixlen := 8\<rparr>))"

definition ipv4_broadcast_addr :: "u32 \<Rightarrow> int \<Rightarrow> u32 option" where
  "ipv4_broadcast_addr hostaddr masklen =
     do { mask \<leftarrow> masklen2ip masklen;
          Some (if masklen \<noteq> 31 then hostaddr OR NOT mask else 0xFFFFFFFF) }"

subsection \<open>The bit view of the operations\<close>

lemma length_key [simp]: "prefix_ok p \<Longrightarrow> length (key p) = prefixlen p"
  by (cases "family p") (auto simp: key_def prefix_ok_def)

lemma prefix_ok_len: "prefix_ok p \<Longrightarrow> prefixlen p \<le> 128"
  by (cases "family p") (auto simp: prefix_ok_def)

lemma nth_key: "prefix_ok p \<Longrightarrow> i < prefixlen p \<Longrightarrow> key p ! i = bits_of (u_val p) ! i"
  by (simp add: key_def)

lemma prefix_bit_bits_of: "i < 8 * length bs \<Longrightarrow> prefix_bit bs i = bits_of bs ! i"
  by (simp add: prefix_bit_def nth_bits_of Let_def and_one_eq bit_iff_odd_drop_bit odd_iff_mod_2_eq_one)

lemma bytes_match_iff: "bytes_match n np pp \<longleftrightarrow> (\<forall>i<n. np ! i = pp ! i)"
  by (induction n) (auto simp: less_Suc_eq)

lemma mask_byte_eq:
  assumes "k < 8"
  shows "maskbit ! k AND (a XOR b) = 0 \<longleftrightarrow> (\<forall>i<k. bit a (7 - i) = bit b (7 - i))"
proof -
  have "maskbit ! k AND (a XOR b) = 0 \<longleftrightarrow> (\<forall>i<8. i < k \<longrightarrow> bit a (7 - i) = bit b (7 - i))"
    unfolding byte_eq_iff using assms by (auto simp: bit_and_iff bit_xor_iff bit_maskbit)
  also have "\<dots> \<longleftrightarrow> (\<forall>i<k. bit a (7 - i) = bit b (7 - i))"
    using assms by auto
  finally show ?thesis .
qed

text \<open>Agreement of two byte strings on the first \<open>n\<close> bits, byte by byte.\<close>

lemma bits_agree_iff:
  assumes "n \<le> 8 * length np" "n \<le> 8 * length pp"
  shows "(\<forall>i<n. bits_of np ! i = bits_of pp ! i) \<longleftrightarrow>
    (\<forall>i<n div 8. np ! i = pp ! i) \<and>
    (\<forall>i<n mod 8. bit (np ! (n div 8)) (7 - i) = bit (pp ! (n div 8)) (7 - i))"
    (is "?L \<longleftrightarrow> ?A \<and> ?B")
proof
  assume L: ?L
  have nth: "bit (np ! q) (7 - r) = bit (pp ! q) (7 - r)" if "8 * q + r < n" "r < 8" for q r
  proof -
    have "bits_of np ! (8 * q + r) = bits_of pp ! (8 * q + r)" using L that by blast
    with that assms show ?thesis by (simp add: nth_bits_of)
  qed
  have ?A
  proof (intro allI impI byte_eqI)
    fix q r assume "q < n div 8" "r < (8::nat)"
    then show "bit (np ! q) (7 - r) = bit (pp ! q) (7 - r)" by (intro nth) linarith+
  qed
  moreover have ?B
  proof (intro allI impI nth)
    fix i assume "i < n mod 8"
    then show "8 * (n div 8) + i < n" "i < 8" by presburger+
  qed
  ultimately show "?A \<and> ?B" ..
next
  assume AB: "?A \<and> ?B"
  show ?L
  proof (intro allI impI)
    fix i assume i: "i < n"
    have "bit (np ! (i div 8)) (7 - i mod 8) = bit (pp ! (i div 8)) (7 - i mod 8)"
    proof (cases "i div 8 < n div 8")
      case True
      with AB show ?thesis by simp
    next
      case False
      with i have "i div 8 = n div 8" by (meson div_le_mono le_neq_implies_less less_imp_le_nat)
      moreover with i have "i mod 8 < n mod 8"
        by (metis mod_less_eq_dividend div_mult_mod_eq nat_add_left_cancel_less)
      ultimately show ?thesis using AB by metis
    qed
    with i assms show "bits_of np ! i = bits_of pp ! i" by (simp add: nth_bits_of)
  qed
qed

lemma network_statement_bits:
  assumes "prefixlen n \<le> 8 * length (u_val n)" "prefixlen n \<le> 8 * length (u_val p)"
  shows "prefix_match_network_statement n p \<longleftrightarrow>
    (\<forall>i<prefixlen n. bits_of (u_val n) ! i = bits_of (u_val p) ! i)"
  by (auto simp: prefix_match_network_statement_def Let_def bits_agree_iff [OF assms]
      bytes_match_iff mask_byte_eq)

lemma prefix_match_network:
  "prefix_match n p \<longleftrightarrow> prefixlen n \<le> prefixlen p \<and> prefix_match_network_statement n p"
  by (auto simp: prefix_match_def prefix_match_network_statement_def)

lemma take_eq_take_iff_nth:
  assumes "n \<le> length xs" "n \<le> length ys"
  shows "take n xs = take n ys \<longleftrightarrow> (\<forall>i<n. xs ! i = ys ! i)"
  using assms by (auto simp: list_eq_iff_nth_eq)

lemma prefix_match_key:
  assumes "prefix_ok n" "prefix_ok p"
  shows "prefix_match n p \<longleftrightarrow> Sublist.prefix (key n) (key p)"
proof -
  have l: "prefixlen n \<le> 8 * length (u_val n)" "prefixlen n \<le> 8 * length (u_val p)"
    "length (u_val p) = 16" "length (u_val n) = 16"
    using assms prefix_ok_len by (auto simp: prefix_ok_def)
  have "Sublist.prefix (key n) (key p) \<longleftrightarrow>
    prefixlen n \<le> prefixlen p \<and> take (prefixlen n) (key p) = key n"
    using assms by (metis length_key prefix_length_le take_is_prefix append_eq_conv_conj prefix_def)
  also have "\<dots> \<longleftrightarrow> prefixlen n \<le> prefixlen p \<and>
      take (prefixlen n) (bits_of (u_val p)) = take (prefixlen n) (bits_of (u_val n))"
    by (auto simp: key_def min_def)
  also have "\<dots> \<longleftrightarrow> prefix_match n p"
    unfolding prefix_match_network network_statement_bits [OF l(1,2)]
    using l by (subst take_eq_take_iff_nth) auto
  finally show ?thesis ..
qed

subsection \<open>The order of prefixes\<close>

text \<open>What \<^verbatim>\<open>prefix_cmp\<close> compares: family, length, whole bytes, masked last byte.\<close>

definition cmp_key :: "prefix \<Rightarrow> family \<times> nat \<times> u8 list \<times> u8" where
  "cmp_key p =
     (let offset = prefixlen p div 8; shift = prefixlen p mod 8
      in (family p, prefixlen p, take offset (u_val p),
          if shift \<noteq> 0 then u_val p ! offset AND maskbit ! shift else 0))"

lemma memcmp_numcmp: "length xs = length ys \<Longrightarrow> memcmp xs ys = numcmp xs ys"
proof (induction xs ys rule: memcmp.induct)
  case (1 x xs y ys)
  then show ?case by (auto simp: numcmp_def)
qed (auto simp: numcmp_def)

lemma numcmp_pair:
  "numcmp (a, b) (c, d) = (if a = c then numcmp b d else numcmp a c)"
  by (auto simp: numcmp_def less_prod_def)

lemma prefix_cmp_numcmp:
  assumes "prefix_ok p" "prefix_ok q"
  shows "prefix_cmp p q = numcmp (cmp_key p) (cmp_key q)"
proof -
  have "length (take (prefixlen p div 8) (u_val p)) = length (take (prefixlen p div 8) (u_val q))"
    using assms by (simp add: prefix_ok_def)
  then show ?thesis
    by (auto simp: prefix_cmp_def cmp_key_def Let_def numcmp_pair memcmp_numcmp)
qed

lemma masked_byte_eq:
  assumes "k < 8"
  shows "a AND maskbit ! k = b AND maskbit ! k \<longleftrightarrow> (\<forall>i<k. bit a (7 - i) = bit b (7 - i))"
proof -
  have "a AND maskbit ! k = b AND maskbit ! k \<longleftrightarrow> (\<forall>i<8. i < k \<longrightarrow> bit a (7 - i) = bit b (7 - i))"
    unfolding byte_eq_iff using assms by (auto simp: bit_and_iff bit_maskbit)
  also have "\<dots> \<longleftrightarrow> (\<forall>i<k. bit a (7 - i) = bit b (7 - i))"
    using assms by auto
  finally show ?thesis .
qed

lemma cmp_key_eq_iff:
  assumes "prefix_ok p" "prefix_ok q"
  shows "cmp_key p = cmp_key q \<longleftrightarrow> family p = family q \<and> key p = key q"
proof -
  have l: "length (u_val p) = 16" "length (u_val q) = 16" "prefixlen p \<le> 128"
    using assms prefix_ok_len by (auto simp: prefix_ok_def)
  have "key p = key q \<longleftrightarrow> prefixlen p = prefixlen q \<and>
    (\<forall>i<prefixlen p. bits_of (u_val p) ! i = bits_of (u_val q) ! i)"
    using assms l by (auto simp: list_eq_iff_nth_eq nth_key) 
  also have "\<dots> \<longleftrightarrow> prefixlen p = prefixlen q \<and>
    take (prefixlen p div 8) (u_val p) = take (prefixlen p div 8) (u_val q) \<and>
    (prefixlen p mod 8 \<noteq> 0 \<longrightarrow> u_val p ! (prefixlen p div 8) AND maskbit ! (prefixlen p mod 8)
        = u_val q ! (prefixlen p div 8) AND maskbit ! (prefixlen p mod 8))"
    using l by (subst bits_agree_iff) (auto simp: take_eq_take_iff_nth masked_byte_eq)
  finally show ?thesis
    by (auto simp: cmp_key_def Let_def)
qed

lemma prefix_cmp_eq_0:
  assumes "prefix_ok p" "prefix_ok q"
  shows "prefix_cmp p q = 0 \<longleftrightarrow> family p = family q \<and> key p = key q"
  using assms by (simp add: prefix_cmp_numcmp cmp_key_eq_iff)

subsection \<open>Masking\<close>

lemma nth_zero_bytes:
  "k < length pnt \<Longrightarrow> zero_bytes n i pnt ! k = (if i \<le> k \<and> k < i + n then 0 else pnt ! k)"
  by (induction n i pnt rule: zero_bytes.induct) (auto simp: nth_list_update)

lemma length_zero_bytes [simp]: "length (zero_bytes n i pnt) = length pnt"
  by (induction n i pnt rule: zero_bytes.induct) auto

lemma bit_ffffffff: "bit (0xffffffff :: 'a::len word) n \<longleftrightarrow> n < 32 \<and> n < LENGTH('a)"
proof -
  have "(0xffffffff :: 'a word) = mask 32" by (simp add: mask_eq_exp_minus_1)
  then show ?thesis by (simp only: bit_mask_iff) auto
qed

lemma masklen2ip_bit:
  assumes "masklen2ip (int m) = Some w" "i < 32"
  shows "bit w (31 - i) \<longleftrightarrow> i < m"
proof -
  from assms(1) have m: "m \<le> 32" and w: "w = ucast (push_bit (32 - m) (0xffffffff :: u64))"
    by (auto simp: masklen2ip_def nat_diff_distrib split: if_splits)
  have "bit w (31 - i) \<longleftrightarrow> 32 - m \<le> 31 - i \<and> 31 - i - (32 - m) < 32"
    unfolding w bit_unsigned_iff bit_push_bit_iff bit_ffffffff using assms(2) by auto
  with m assms(2) show ?thesis by linarith
qed

lemma masklen2ip_Some: "0 \<le> m \<Longrightarrow> m \<le> 32 \<Longrightarrow> \<exists>w. masklen2ip m = Some w"
  by (simp add: masklen2ip_def)

lemma apply_mask_ipv4_bits:
  assumes "length (u_val p) = 16" "prefixlen p \<le> 32"
  obtains p' where "apply_mask_ipv4 p = Some p'" "family p' = family p" "prefixlen p' = prefixlen p"
    "length (u_val p') = 16"
    "\<And>i. i < 32 \<Longrightarrow> bits_of (u_val p') ! i \<longleftrightarrow> i < prefixlen p \<and> bits_of (u_val p) ! i"
proof -
  obtain w where w: "masklen2ip (int (prefixlen p)) = Some w"
    using assms masklen2ip_Some by fastforce
  let ?a = "be_dec (take 4 (u_val p)) :: u32"
  let ?v = "be_enc 4 (?a AND w) @ drop 4 (u_val p)"
  have b: "bits_of ?v ! i \<longleftrightarrow> i < prefixlen p \<and> bits_of (u_val p) ! i" if i: "i < 32" for i
  proof -
    have "bits_of ?v ! i = bits_of (be_enc 4 (?a AND w)) ! i"
      using i by (simp add: bits_of_append nth_append)
    also have "\<dots> = bit (?a AND w) (31 - i)"
      using i nth_bits_of_be_dec [of i "be_enc 4 (?a AND w)", where 'a=32] by (simp add: be_dec_enc)
    also have "\<dots> \<longleftrightarrow> bit ?a (31 - i) \<and> i < prefixlen p"
      using i masklen2ip_bit [OF w i] by (simp add: bit_and_iff)
    also have "bit ?a (31 - i) = bits_of (take 4 (u_val p)) ! i"
      using i assms nth_bits_of_be_dec [of i "take 4 (u_val p)", where 'a=32] by simp
    also have "\<dots> = bits_of (u_val p) ! i"
      using i assms bits_of_append [of "take 4 (u_val p)" "drop 4 (u_val p)"] by (simp add: nth_append)
    finally show ?thesis by blast
  qed
  have "apply_mask_ipv4 p = Some (p\<lparr>u_val := ?v\<rparr>)"
    using w by (simp add: apply_mask_ipv4_def)
  from that [OF this] b assms show ?thesis by simp
qed

lemma apply_mask_ipv6_bits:
  assumes "length (u_val p) = 16" "i < 128"
  shows "bits_of (u_val (apply_mask_ipv6 p)) ! i \<longleftrightarrow> i < prefixlen p \<and> bits_of (u_val p) ! i"
proof (cases "prefixlen p div 8 < 16")
  case False
  then have "apply_mask_ipv6 p = p" "i < prefixlen p"
    using assms(2) by (simp_all add: apply_mask_ipv6_def)
  then show ?thesis by simp
next
  case True
  define m where "m = prefixlen p div 8"
  define v where "v = u_val (apply_mask_ipv6 p)"
  have v: "v ! k = (if k < m then u_val p ! k
                    else if k = m then u_val p ! m AND maskbit ! (prefixlen p mod 8) else 0)"
    and lv: "length v = 16" if "k < 16" for k
    using True that assms(1)
    by (auto simp: v_def m_def apply_mask_ipv6_def Let_def nth_zero_bytes nth_list_update)
  have k: "i div 8 < 16" using assms(2) by simp
  have "bits_of v ! i = bit (v ! (i div 8)) (7 - i mod 8)"
    using assms(2) lv [of 0] by (simp add: nth_bits_of)
  also have "\<dots> \<longleftrightarrow> i < prefixlen p \<and> bit (u_val p ! (i div 8)) (7 - i mod 8)"
  proof -
    consider "i div 8 < m" | "i div 8 = m" | "m < i div 8" by linarith
    then show ?thesis
    proof cases
      case 1
      then have "i < prefixlen p" unfolding m_def by (meson div_le_mono leD leI)
      with 1 k show ?thesis by (simp add: v)
    next
      case 2
      then have "i < prefixlen p \<longleftrightarrow> i mod 8 < prefixlen p mod 8"
        unfolding m_def by (metis div_mult_mod_eq nat_add_left_cancel_less)
      with 2 k show ?thesis by (auto simp: v bit_and_iff bit_maskbit)
    next
      case 3
      then have "\<not> i < prefixlen p" unfolding m_def by (meson div_le_mono leD less_imp_le)
      with 3 k show ?thesis by (simp add: v)
    qed
  qed
  also have "\<dots> \<longleftrightarrow> i < prefixlen p \<and> bits_of (u_val p) ! i"
    using assms by (simp add: nth_bits_of)
  finally show ?thesis by (simp add: v_def)
qed

lemma apply_mask_ipv6_fields [simp]:
  "family (apply_mask_ipv6 p) = family p" "prefixlen (apply_mask_ipv6 p) = prefixlen p"
  "length (u_val (apply_mask_ipv6 p)) = length (u_val p)"
  by (simp_all add: apply_mask_ipv6_def Let_def)

text \<open>Whatever the code masks: the denoted key stays, the host bits go.\<close>

lemma key_eqI:
  assumes "prefix_ok p" "prefix_ok q" "prefixlen p = prefixlen q"
    "\<And>i. i < prefixlen p \<Longrightarrow> bits_of (u_val p) ! i = bits_of (u_val q) ! i"
  shows "key p = key q"
  using assms by (auto simp: list_eq_iff_nth_eq nth_key)

lemma apply_mask_spec:
  assumes "prefix_ok p" "family p = AF_INET \<or> family p = AF_INET6"
  obtains p' where "apply_mask p = Some p'" "prefix_ok p'" "family p' = family p"
    "prefixlen p' = prefixlen p" "key p' = key p" "masked p'"
  using assms(2)
proof
  assume f: "family p = AF_INET"
  with assms(1) have l: "length (u_val p) = 16" "prefixlen p \<le> 32" by (simp_all add: prefix_ok_def)
  obtain p' where p': "apply_mask_ipv4 p = Some p'" "family p' = family p" "prefixlen p' = prefixlen p"
    "length (u_val p') = 16"
    "\<And>i. i < 32 \<Longrightarrow> bits_of (u_val p') ! i \<longleftrightarrow> i < prefixlen p \<and> bits_of (u_val p) ! i"
    using apply_mask_ipv4_bits [OF l] by blast
  have ok: "prefix_ok p'" using p' l f by (simp add: prefix_ok_def)
  have "key p' = key p" using ok assms(1) p' l by (intro key_eqI) auto
  moreover have "masked p'" using p' f by (auto simp: masked_def)
  ultimately show ?thesis using that p' f ok by (simp add: apply_mask_def)
next
  assume f: "family p = AF_INET6"
  with assms(1) have l: "length (u_val p) = 16" "prefixlen p \<le> 128" by (simp_all add: prefix_ok_def)
  have ok: "prefix_ok (apply_mask_ipv6 p)" using l f by (simp add: prefix_ok_def)
  have "key (apply_mask_ipv6 p) = key p"
    using ok assms(1) l by (intro key_eqI) (auto simp: apply_mask_ipv6_bits)
  moreover have "masked (apply_mask_ipv6 p)" using f l by (auto simp: masked_def apply_mask_ipv6_bits)
  ultimately show ?thesis using that f ok by (simp add: apply_mask_def)
qed

subsection \<open>Mask lengths\<close>

lemma clz32_eq:
  assumes "m < 32" "\<And>i. i < m \<Longrightarrow> \<not> bit w (31 - i)" "bit w (31 - m)"
  shows "clz32 w = m"
proof -
  have "[0..<32] = [0..<m] @ m # [Suc m..<32]"
    using assms(1) by (metis upt_add_eq_append upt_conv_Cons le_add1 le_Suc_ex less_imp_le zero_le)
  moreover have "takeWhile (\<lambda>i. \<not> bit w (31 - i)) ([0..<m] @ m # [Suc m..<32]) = [0..<m]"
    using assms(2,3) by (subst takeWhile_append2) auto
  ultimately show ?thesis
    by (simp only: clz32_def) simp
qed

lemma ip_masklen_unique:
  assumes "m \<le> 32" "\<And>i. i < 32 \<Longrightarrow> bit w (31 - i) \<longleftrightarrow> i < m"
  shows "ip_masklen w = m"
proof (cases "m = 32")
  case True
  have "NOT w = 0"
  proof (rule bit_word_eqI)
    fix n assume "n < LENGTH(32)"
    with True assms(2) [of "31 - n"] show "bit (NOT w) n = bit 0 n" by (simp add: bit_not_iff)
  qed
  with True show ?thesis by (simp add: ip_masklen_def)
next
  case False
  then have m: "m < 32" using assms(1) by simp
  have "bit (NOT w) (31 - m)" using assms(2) [of m] m by (simp add: bit_not_iff)
  then have "NOT w \<noteq> 0" by auto
  moreover have "clz32 (NOT w) = m"
    using assms m by (intro clz32_eq) (auto simp: bit_not_iff)
  ultimately show ?thesis by (simp add: ip_masklen_def)
qed

lemma push_ffffffff_bit:
  assumes "0 < m" "m \<le> 32" "i < 32"
  shows "bit (push_bit (32 - m) (0xffffffff :: u32)) (31 - i) \<longleftrightarrow> i < m"
  unfolding bit_push_bit_iff bit_ffffffff using assms by auto

lemma clz32_push:
  assumes "0 < m" "m < 32"
  shows "clz32 (NOT (push_bit (32 - m) 0xffffffff)) = m" "push_bit (32 - m) 0xffffffff \<noteq> (0xffffffff :: u32)"
proof -
  let ?w = "push_bit (32 - m) 0xffffffff :: u32"
  have b: "bit ?w (31 - i) \<longleftrightarrow> i < m" if "i < 32" for i
    using push_ffffffff_bit assms that by simp
  show "clz32 (NOT ?w) = m" using assms b by (intro clz32_eq) (auto simp: bit_not_iff)
  have "\<not> bit ?w (31 - m)" "bit (0xffffffff :: u32) (31 - m)"
    using b [of m] assms unfolding bit_ffffffff by auto
  then show "?w \<noteq> 0xffffffff" by metis
qed

lemma clz32_ones: "clz32 (- 1) = 0"
  by (rule clz32_eq) simp_all

lemma masklen2ip6_roundtrip:
  assumes "m \<le> 128"
  shows "\<exists>w. masklen2ip6 (int m) = Some w \<and> ip6_masklen w = m"
proof -
  consider "m = 0" | "0 < m" "m < 32" | "m = 32" | "32 < m" "m < 64" | "m = 64"
    | "64 < m" "m < 96" | "m = 96" | "96 < m" "m < 128" | "m = 128"
    using assms by linarith
  then show ?thesis
  proof cases
    case 2
    with clz32_push [of m] show ?thesis
      by (simp add: masklen2ip6_def ip6_masklen_def nat_diff_distrib)
  next
    case 4
    then have "32 - (m - 32) = 64 - m" by simp
    with 4 clz32_push [of "m - 32"] show ?thesis
      by (simp add: masklen2ip6_def ip6_masklen_def nat_diff_distrib)
  next
    case 6
    then have "32 - (m - 64) = 96 - m" by simp
    with 6 clz32_push [of "m - 64"] show ?thesis
      by (simp add: masklen2ip6_def ip6_masklen_def nat_diff_distrib)
  next
    case 8
    then have "32 - (m - 96) = 128 - m" by simp
    with 8 clz32_push [of "m - 96"] show ?thesis
      by (simp add: masklen2ip6_def ip6_masklen_def nat_diff_distrib)
  qed (simp_all add: masklen2ip6_def ip6_masklen_def clz32_ones)
qed

subsection \<open>Common bits\<close>

lemma common_bytes_spec:
  "common_bytes n pos a b \<le> pos + n \<and>
   (\<forall>k. pos \<le> k \<and> k < common_bytes n pos a b \<longrightarrow> a ! k = b ! k) \<and>
   pos \<le> common_bytes n pos a b \<and>
   (common_bytes n pos a b < pos + n \<longrightarrow> a ! common_bytes n pos a b \<noteq> b ! common_bytes n pos a b)"
  by (induction n pos a b rule: common_bytes.induct) (auto simp: le_less_Suc_eq Suc_le_eq nat_less_le)

lemma common_high_bits_spec:
  "b + n = 8 \<Longrightarrow> (\<forall>i<b. \<not> bit x (7 - i)) \<Longrightarrow>
   common_high_bits n b x \<le> 8 \<and> (\<forall>i<common_high_bits n b x. \<not> bit x (7 - i)) \<and>
   (common_high_bits n b x < 8 \<longrightarrow> bit x (7 - common_high_bits n b x))"
  by (induction n b x rule: common_high_bits.induct) (auto simp: and_exp_eq_0_iff_not_bit less_Suc_eq)

lemma common_high_bits_xor:
  assumes "a \<noteq> b" and h: "h = common_high_bits 8 0 (a XOR b)"
  shows "h < 8" "\<And>i. i < h \<Longrightarrow> bit a (7 - i) = bit b (7 - i)" "bit a (7 - h) \<noteq> bit b (7 - h)"
proof -
  have s: "h \<le> 8" "\<And>i. i < h \<Longrightarrow> \<not> bit (a XOR b) (7 - i)" "h < 8 \<Longrightarrow> bit (a XOR b) (7 - h)"
    using common_high_bits_spec [of 0 8 "a XOR b"] by (auto simp: h)
  then show eq: "\<And>i. i < h \<Longrightarrow> bit a (7 - i) = bit b (7 - i)" by (auto simp: bit_xor_iff)
  show "h < 8"
  proof (rule ccontr)
    assume "\<not> h < 8"
    then have "a = b" using eq by (intro byte_eqI) auto
    with assms(1) show False by simp
  qed
  with s(3) show "bit a (7 - h) \<noteq> bit b (7 - h)" by (auto simp: bit_xor_iff)
qed

lemma prefix_common_bits_spec:
  assumes ok: "prefix_ok p" "prefix_ok q" and fam: "family p = family q" "family p \<noteq> AF_UNSPEC"
  obtains n where "prefix_common_bits p q = int n" "n \<le> 8 * fam_bytes (family p)"
    "\<And>i. i < n \<Longrightarrow> bits_of (u_val p) ! i = bits_of (u_val q) ! i"
    "n < 8 * fam_bytes (family p) \<Longrightarrow> bits_of (u_val p) ! n \<noteq> bits_of (u_val q) ! n"
proof -
  let ?a = "u_val p" and ?b = "u_val q" and ?len = "fam_bytes (family p)"
  define pos where "pos = common_bytes ?len 0 ?a ?b"
  have l: "length ?a = 16" "length ?b = 16" "?len \<le> 16"
    using ok by (simp_all add: prefix_ok_def) (cases "family p"; simp)
  have pos: "pos \<le> ?len" "\<And>k. k < pos \<Longrightarrow> ?a ! k = ?b ! k" "pos < ?len \<Longrightarrow> ?a ! pos \<noteq> ?b ! pos"
    using common_bytes_spec [of ?len 0 ?a ?b] by (auto simp: pos_def)
  have cb: "prefix_common_bits p q = (if pos = ?len then int (pos * 8)
      else int (pos * 8 + common_high_bits 8 0 (?a ! pos XOR ?b ! pos)))"
    using fam by (cases "family p") (auto simp: prefix_common_bits_def pos_def Let_def)
  have nb: "bits_of ?a ! (k * 8 + i) = bit (?a ! k) (7 - i)"
    "bits_of ?b ! (k * 8 + i) = bit (?b ! k) (7 - i)" if "k < ?len" "i < 8" for k i
  proof -
    have "k * 8 + i < 8 * length ?a" "k * 8 + i < 8 * length ?b" using that l by linarith+
    with that show "bits_of ?a ! (k * 8 + i) = bit (?a ! k) (7 - i)"
      "bits_of ?b ! (k * 8 + i) = bit (?b ! k) (7 - i)" by (simp_all add: nth_bits_of)
  qed
  have eq: "bits_of ?a ! (k * 8 + i) = bits_of ?b ! (k * 8 + i)" if "k < pos" "i < 8" for k i
    using nb [of k i] pos(1,2) that by simp
  show ?thesis
  proof (cases "pos = ?len")
    case True
    have "bits_of ?a ! i = bits_of ?b ! i" if "i < pos * 8" for i
      using eq [of "i div 8" "i mod 8"] that by (simp add: less_mult_imp_div_less)
    with cb True show ?thesis by (intro that [of "pos * 8"]) (auto simp: mult.commute)
  next
    case False
    then have p: "pos < ?len" using pos(1) by simp
    define h where "h = common_high_bits 8 0 (?a ! pos XOR ?b ! pos)"
    note h = common_high_bits_xor [OF pos(3) [OF p] h_def]
    have "bits_of ?a ! i = bits_of ?b ! i" if "i < pos * 8 + h" for i
    proof (cases "i div 8 < pos")
      case True
      then show ?thesis using eq [of "i div 8" "i mod 8"] by simp
    next
      case False
      then have "i div 8 = pos" using that h(1) by linarith
      moreover have "i mod 8 < h" using that div_mult_mod_eq [of i 8] calculation by linarith
      ultimately show ?thesis
        using nb [OF p, of "i mod 8"] h(2) [of "i mod 8"] div_mult_mod_eq [of i 8] by simp
    qed
    with cb False p h(1,3) nb [OF p h(1)] show ?thesis
      by (intro that [of "pos * 8 + h"]) (auto simp: h_def [symmetric])
  qed
qed

subsection \<open>The hash key\<close>

text \<open>
  \<^verbatim>\<open>prefix_hash_key\<close> hashes the bytes of a zeroed copy of the struct up to the last byte
  of the prefix: family, one byte of padding, the length (little-endian host), four bytes
  of padding up to the 8-aligned union, then \<^verbatim>\<open>PSIZE\<close> address bytes.
\<close>

definition prefix_hash_key :: "prefix \<Rightarrow> u32" where
  "prefix_hash_key pp =
     (let copy = prefix_copy prefix_zero pp
      in jhash ([of_nat (family_code (family copy)), 0,
                 of_nat (prefixlen copy mod 256), of_nat (prefixlen copy div 256), 0, 0, 0, 0]
                @ take (PSIZE (prefixlen copy)) (u_val copy)) 0x55aa5a5a)"

lemma masked_psize_eq:
  assumes "prefix_ok p" "prefix_ok q" "masked p" "masked q" "family p = family q" "key p = key q"
  shows "take (fam_bytes (family p)) (u_val p) = take (fam_bytes (family q)) (u_val q)"
proof -
  let ?n = "fam_bytes (family p)"
  have l: "length (u_val p) = 16" "length (u_val q) = 16" "?n \<le> 16" "prefixlen p = prefixlen q"
    using assms length_key [OF assms(1)] length_key [OF assms(2)]
    by (auto simp: prefix_ok_def) (cases "family q"; simp)
  have "bits_of (u_val p) ! i = bits_of (u_val q) ! i" if "i < 8 * ?n" for i
  proof (cases "i < prefixlen p")
    case True
    then show ?thesis using assms l by (metis nth_key)
  next
    case False
    then show ?thesis using assms l that by (auto simp: masked_def)
  qed
  then have "take (8 * ?n) (bits_of (u_val p)) = take (8 * ?n) (bits_of (u_val q))"
    using l by (subst take_eq_take_iff_nth) auto
  moreover have "take (8 * ?n) (bits_of xs) = bits_of (take ?n xs)" if "length xs = 16" for xs
    using bits_of_append [of "take ?n xs" "drop ?n xs"] that l by simp
  ultimately have "bits_of (take ?n (u_val p)) = bits_of (take ?n (u_val q))"
    using l by simp
  then show ?thesis using l assms(5) by (metis bits_of_inject length_take)
qed

lemma prefix_hash_key_cong:
  assumes "prefix_ok p" "prefix_ok q" "masked p" "masked q" "prefix_cmp p q = 0"
  shows "prefix_hash_key p = prefix_hash_key q"
proof -
  have e: "family p = family q" "key p = key q"
    using assms prefix_cmp_eq_0 by auto
  then have "prefixlen p = prefixlen q" by (metis assms(1,2) length_key)
  with e masked_psize_eq [OF assms(1-4)] have "prefix_copy prefix_zero p = prefix_copy prefix_zero q"
    by (simp add: prefix_copy_def)
  then show ?thesis by (simp add: prefix_hash_key_def)
qed

subsection \<open>Properties\<close>

definition net10 :: prefix where
  "net10 = \<lparr>family = AF_INET, prefixlen = 8, u_val = 10 # replicate 15 0\<rparr>"

definition net10_64 :: prefix where
  "net10_64 = \<lparr>family = AF_INET, prefixlen = 10, u_val = 10 # 64 # replicate 14 0\<rparr>"

definition host6 :: prefix where
  "host6 = \<lparr>family = AF_INET6, prefixlen = 35, u_val = [32, 1, 13, 184, 255] @ replicate 11 1\<rparr>"

text \<open>C17: \<^verbatim>\<open>prefix_match(n, p)\<close> decides containment: it holds exactly when the bit string
  of the network \<open>n\<close> is an initial segment of the bit string of \<open>p\<close>.\<close>

theorem prefix_match_containment:
  assumes "prefix_ok n" "prefix_ok p"
  shows "prefix_match n p \<longleftrightarrow> Sublist.prefix (key n) (key p)"
  using assms by (rule prefix_match_key)

theorem prefix_match_containment_witness:
  "prefix_match net10 net10_64 \<and> Sublist.prefix (key net10) (key net10_64) \<and> \<not> prefix_match net10_64 net10"
proof -
  have ok: "prefix_ok net10" "prefix_ok net10_64" by code_simp+
  have "prefix_match net10 net10_64" "\<not> prefix_match net10_64 net10" by code_simp+
  with prefix_match_containment[OF ok] show ?thesis by simp
qed

text \<open>C18: \<^verbatim>\<open>prefix_cmp\<close> is a linear order: swapping the arguments negates the result, the
  relation "not greater" is transitive, and 0 is returned exactly for prefixes of the same family
  that denote the same bit string, whatever the address bits beyond the prefix length are.\<close>

theorem prefix_cmp_order:
  assumes "prefix_ok p" "prefix_ok q" "prefix_ok r"
  shows "prefix_cmp q p = - prefix_cmp p q \<and>
    (prefix_cmp p q \<le> 0 \<longrightarrow> prefix_cmp q r \<le> 0 \<longrightarrow> prefix_cmp p r \<le> 0) \<and>
    (prefix_cmp p q = 0 \<longleftrightarrow> family p = family q \<and> key p = key q)"
proof -
  have "prefix_cmp q p = - prefix_cmp p q \<and>
    (prefix_cmp p q \<le> 0 \<longrightarrow> prefix_cmp q r \<le> 0 \<longrightarrow> prefix_cmp p r \<le> 0)"
    using assms by (auto simp: prefix_cmp_numcmp numcmp_def split: if_splits)
  with assms prefix_cmp_eq_0 show ?thesis by blast
qed

theorem prefix_cmp_order_witness:
  "prefix_cmp net10 net10_64 \<le> 0 \<and> prefix_cmp net10_64 host6 \<le> 0 \<and> prefix_cmp net10 host6 \<le> 0 \<and>
   prefix_cmp net10_64 net10 = - prefix_cmp net10 net10_64"
proof -
  have ok: "prefix_ok net10" "prefix_ok net10_64" "prefix_ok host6" by code_simp+
  have "prefix_cmp net10 net10_64 \<le> 0" "prefix_cmp net10_64 host6 \<le> 0" by code_simp+
  with prefix_cmp_order[OF ok] show ?thesis by blast
qed

text \<open>C19: \<^verbatim>\<open>apply_mask\<close> succeeds on every well-formed IPv4 or IPv6 prefix, clears every
  address bit beyond the prefix length and changes nothing else: the result is well formed, of the
  same family and length, denotes the same bit string and compares equal to the original.\<close>

theorem apply_mask_masks:
  assumes "prefix_ok p" "family p = AF_INET \<or> family p = AF_INET6"
  shows "\<exists>p'. apply_mask p = Some p' \<and> prefix_ok p' \<and> masked p' \<and> family p' = family p \<and>
    prefixlen p' = prefixlen p \<and> key p' = key p \<and> prefix_cmp p' p = 0"
proof -
  obtain p' where "apply_mask p = Some p'" "prefix_ok p'" "family p' = family p"
    "prefixlen p' = prefixlen p" "key p' = key p" "masked p'"
    using apply_mask_spec[OF assms] .
  then show ?thesis using assms(1) prefix_cmp_eq_0 by (intro exI[of _ p']) blast
qed

theorem apply_mask_masks_witness:
  "prefix_ok host6 \<and> \<not> masked host6 \<and> (\<exists>p'. apply_mask host6 = Some p' \<and> masked p' \<and> key p' = key host6)"
proof -
  have ok: "prefix_ok host6" "\<not> masked host6" "family host6 = AF_INET \<or> family host6 = AF_INET6" by code_simp+
  with apply_mask_masks[OF ok(1,3)] show ?thesis by blast
qed



text \<open>C21: \<^verbatim>\<open>prefix_common_bits\<close> of two prefixes of one family returns the length of the
  longest common initial segment of their addresses: all earlier bits agree and, unless the
  addresses are equal throughout, the bit at that position differs. The prefix lengths play no role.\<close>

theorem prefix_common_bits_longest:
  assumes "prefix_ok p" "prefix_ok q" "family p = family q" "family p \<noteq> AF_UNSPEC"
  defines "a \<equiv> take (8 * fam_bytes (family p)) (bits_of (u_val p))"
  defines "b \<equiv> take (8 * fam_bytes (family p)) (bits_of (u_val q))"
  shows "prefix_common_bits p q = int (length (longest_common_prefix a b))"
proof -
  obtain n where n: "prefix_common_bits p q = int n" "n \<le> 8 * fam_bytes (family p)"
    "\<And>i. i < n \<Longrightarrow> bits_of (u_val p) ! i = bits_of (u_val q) ! i"
    "n < 8 * fam_bytes (family p) \<Longrightarrow> bits_of (u_val p) ! n \<noteq> bits_of (u_val q) ! n"
    using prefix_common_bits_spec[OF assms(1-4)] by blast
  have l: "length a = 8 * fam_bytes (family p)" "length b = 8 * fam_bytes (family p)"
    using assms(1,2) by (cases "family p"; simp add: a_def b_def prefix_ok_def)+
  have "take n a = take n b" using n(2,3) l by (subst take_eq_take_iff_nth) (auto simp: a_def b_def)
  then have "Sublist.prefix (take n a) (longest_common_prefix a b)"
    by (metis longest_common_prefix_max_prefix take_is_prefix)
  then have "n \<le> length (longest_common_prefix a b)"
    using prefix_length_le l(1) n(2) by fastforce
  moreover have "length (longest_common_prefix a b) \<le> n"
  proof (rule ccontr)
    assume *: "\<not> length (longest_common_prefix a b) \<le> n"
    then have "a ! n = b ! n"
      by (metis longest_common_prefix_prefix1 longest_common_prefix_prefix2 not_le nth_append prefixE)
    moreover have "n < 8 * fam_bytes (family p)"
      using * l(1) prefix_length_le[OF longest_common_prefix_prefix1[of a b]] by simp
    ultimately show False using n(4) by (simp add: a_def b_def)
  qed
  ultimately show ?thesis using n(1) by simp
qed

theorem prefix_common_bits_longest_witness:
  "prefix_common_bits net10 net10_64 =
     int (length (longest_common_prefix (take 32 (bits_of (u_val net10))) (take 32 (bits_of (u_val net10_64)))))
   \<and> prefix_common_bits net10 net10_64 = 9"
proof -
  have ok: "prefix_ok net10" "prefix_ok net10_64" "family net10 = family net10_64"
    "family net10 \<noteq> AF_UNSPEC" "8 * fam_bytes (family net10) = 32" by code_simp+
  have "prefix_common_bits net10 net10_64 = 9" by code_simp
  with prefix_common_bits_longest[OF ok(1-4)] ok(5) show ?thesis by simp
qed
end
