(* ===== verification/Thash.thy ===== *)
theory Thash
  imports Frr_Prelude "HOL-Library.Multiset"
begin

text \<open>
  The typesafe hash table, lib/typesafe.c and the \<^verbatim>\<open>DECLARE_HASH\<close> macros of lib/typesafe.h.
  Items are intrusive: a bucket is the list of its items, each with the hash value stored in
  its \<^verbatim>\<open>thash_item\<close>, kept sorted by hash value. \<open>keyof\<close> maps an item to what the
  comparison and the hash function look at. The table's size is a power of two and the bucket
  of an item is given by the leading bits of its hash value, so growing and shrinking split
  and concatenate neighbouring buckets in place.
\<close>

record 'a thash =
  th_entries :: "('a \<times> u32) list list"
  th_count :: u32
  th_tabshift :: nat
  th_minshift :: nat
  th_maxshift :: nat

text \<open>\<^verbatim>\<open>_HASH_SIZE\<close>, \<^verbatim>\<open>_HASH_KEY\<close> and the two thresholds.\<close>

definition HASH_SIZE :: "nat \<Rightarrow> nat" where
  "HASH_SIZE tabshift = 2 ^ tabshift div 2"

definition HASH_KEY :: "nat \<Rightarrow> u32 \<Rightarrow> nat" where
  "HASH_KEY tabshift val = unat (drop_bit (33 - tabshift) val)"

definition HASH_GROW_THRESHOLD :: "'a thash \<Rightarrow> bool" where
  "HASH_GROW_THRESHOLD h \<longleftrightarrow> unat (th_count h) \<ge> HASH_SIZE (th_tabshift h)"

definition HASH_SHRINK_THRESHOLD :: "'a thash \<Rightarrow> bool" where
  "HASH_SHRINK_THRESHOLD h \<longleftrightarrow> unat (th_count h) \<le> (HASH_SIZE (th_tabshift h) - 1) div 2"

definition thash_init :: "'a thash" where
  "thash_init = \<lparr>th_entries = [], th_count = 0, th_tabshift = 0, th_minshift = 0, th_maxshift = 0\<rparr>"

text \<open>The shift for a given item count: smear the count to the right, add one, count
  trailing zeros. \<^verbatim>\<open>__builtin_ctz(0)\<close> is undefined.\<close>

definition smear :: "u32 \<Rightarrow> u32" where
  "smear n = (let n = n OR drop_bit 1 n; n = n OR drop_bit 2 n; n = n OR drop_bit 4 n;
                  n = n OR drop_bit 8 n
              in n OR drop_bit 16 n)"

definition ctz32 :: "u32 \<Rightarrow> nat" where
  "ctz32 w = length (takeWhile (\<lambda>i. \<not> bit w i) [0..<32])"

definition hash_newshift :: "u32 \<Rightarrow> nat option" where
  "hash_newshift cnt =
     (let newsize = smear cnt + 1
      in do { cassert (newsize \<noteq> 0); Some (ctz32 newsize + 1) })"

definition midbits :: "nat \<Rightarrow> nat \<Rightarrow> u32 \<Rightarrow> nat" where
  "midbits newshift delta hashval = HASH_KEY newshift hashval mod 2 ^ delta"

text \<open>
  Splitting bucket \<open>i\<close> over \<open>2 ^ delta\<close> slots, the inner loop of \<^verbatim>\<open>typesafe_hash_grow\<close>:
  slot \<open>(i << delta) + j\<close> takes what is left of the bucket, then the walk stops at the first
  item whose middle bits exceed \<open>j\<close>, where the next turn (or the end) cuts the list.
\<close>

fun grow_split :: "nat \<Rightarrow> nat \<Rightarrow> nat \<Rightarrow> nat \<Rightarrow> nat \<Rightarrow> ('a \<times> u32) list \<Rightarrow>
    ('a \<times> u32) list list \<Rightarrow> ('a \<times> u32) list list" where
  "grow_split 0 newshift delta i j item entries = entries"
| "grow_split (Suc n) newshift delta i j item entries =
     (let stay = (\<lambda>e. midbits newshift delta (snd e) \<le> j)
      in grow_split n newshift delta i (Suc j) (dropWhile stay item)
           (entries[i * 2 ^ delta + j := takeWhile stay item]))"

fun grow_buckets :: "nat \<Rightarrow> nat \<Rightarrow> nat \<Rightarrow> ('a \<times> u32) list list \<Rightarrow> ('a \<times> u32) list list" where
  "grow_buckets 0 newshift delta entries = entries"
| "grow_buckets (Suc i) newshift delta entries =
     grow_buckets i newshift delta
       (grow_split (2 ^ delta) newshift delta i 0 (entries ! i) (entries[i := []]))"

definition typesafe_hash_grow :: "'a thash \<Rightarrow> 'a thash option" where
  "typesafe_hash_grow head =
     do { cassert (th_count head > 0);
          shift \<leftarrow> hash_newshift (th_count head);
          let newshift = (if th_maxshift head \<noteq> 0 \<and> shift > th_maxshift head
                          then th_maxshift head else shift);
          if newshift = th_tabshift head then Some head
          else do {
            cassert (newshift \<le> 31);
            let oldsize = HASH_SIZE (th_tabshift head);
            let entries = take oldsize (th_entries head) @ replicate (HASH_SIZE newshift - oldsize) [];
            Some (head\<lparr>th_entries := grow_buckets oldsize newshift (newshift - th_tabshift head) entries,
                       th_tabshift := newshift\<rparr>) } }"

text \<open>The two nested loops of \<^verbatim>\<open>typesafe_hash_shrink\<close>: append slot after slot to bucket \<open>i\<close>.\<close>

fun shrink_join :: "nat \<Rightarrow> nat \<Rightarrow> nat \<Rightarrow> nat \<Rightarrow> ('a \<times> u32) list \<Rightarrow>
    ('a \<times> u32) list list \<Rightarrow> ('a \<times> u32) list list" where
  "shrink_join 0 delta i j acc entries = entries"
| "shrink_join (Suc n) delta i j acc entries =
     (let acc = acc @ entries ! (i * 2 ^ delta + j)
      in shrink_join n delta i (Suc j) acc (entries[i := acc]))"

fun shrink_buckets :: "nat \<Rightarrow> nat \<Rightarrow> nat \<Rightarrow> ('a \<times> u32) list list \<Rightarrow> ('a \<times> u32) list list" where
  "shrink_buckets 0 i delta entries = entries"
| "shrink_buckets (Suc n) i delta entries =
     shrink_buckets n (Suc i) delta (shrink_join (2 ^ delta) delta i 0 [] entries)"

definition typesafe_hash_shrink :: "'a thash \<Rightarrow> 'a thash option" where
  "typesafe_hash_shrink head =
     (if th_count head = 0 then Some (head\<lparr>th_entries := [], th_tabshift := 0\<rparr>)
      else do {
        shift \<leftarrow> hash_newshift (th_count head);
        let newshift = (if th_minshift head \<noteq> 0 \<and> shift < th_minshift head
                        then th_minshift head else shift);
        if newshift = th_tabshift head then Some head
        else do {
          cassert (newshift \<le> 31);
          let newsize = HASH_SIZE newshift;
          Some (head\<lparr>th_entries :=
                       take newsize (shrink_buckets newsize 0 (th_tabshift head - newshift) (th_entries head)),
                     th_tabshift := newshift\<rparr>) } })"

subsection \<open>The operations \<^verbatim>\<open>DECLARE_HASH\<close> generates\<close>

text \<open>The second scanning loop: while the hash value is equal, look for an equal item.\<close>

fun hash_scan :: "('k \<Rightarrow> 'k \<Rightarrow> int) \<Rightarrow> ('a \<Rightarrow> 'k) \<Rightarrow> u32 \<Rightarrow> 'k \<Rightarrow> ('a \<times> u32) list \<Rightarrow> 'a option" where
  "hash_scan cmpfn keyof hval k [] = None"
| "hash_scan cmpfn keyof hval k ((x, hv) # b) =
     (if hv = hval then if cmpfn (keyof x) k = 0 then Some x else hash_scan cmpfn keyof hval k b
      else None)"

definition thash_find ::
  "('k \<Rightarrow> 'k \<Rightarrow> int) \<Rightarrow> ('k \<Rightarrow> u32) \<Rightarrow> ('a \<Rightarrow> 'k) \<Rightarrow> 'a thash \<Rightarrow> 'k \<Rightarrow> 'a option" where
  "thash_find cmpfn hashfn keyof h k =
     (if th_tabshift h = 0 then None
      else (let hval = hashfn k; hbits = HASH_KEY (th_tabshift h) hval
            in hash_scan cmpfn keyof hval k
                 (dropWhile (\<lambda>e. snd e < hval) (th_entries h ! hbits))))"

text \<open>Inserting behind the items with a smaller or equal hash value.\<close>

definition bucket_insert :: "'a \<Rightarrow> u32 \<Rightarrow> ('a \<times> u32) list \<Rightarrow> ('a \<times> u32) list" where
  "bucket_insert x hval b =
     (let rest = dropWhile (\<lambda>e. snd e < hval) b
      in takeWhile (\<lambda>e. snd e < hval) b @ takeWhile (\<lambda>e. snd e = hval) rest
         @ (x, hval) # dropWhile (\<lambda>e. snd e = hval) rest)"

definition thash_add ::
  "('k \<Rightarrow> 'k \<Rightarrow> int) \<Rightarrow> ('k \<Rightarrow> u32) \<Rightarrow> ('a \<Rightarrow> 'k) \<Rightarrow> 'a thash \<Rightarrow> 'a \<Rightarrow> ('a option \<times> 'a thash) option" where
  "thash_add cmpfn hashfn keyof h item =
     do { let h = h\<lparr>th_count := th_count h + 1\<rparr>;
          h \<leftarrow> (if th_tabshift h = 0 \<or> HASH_GROW_THRESHOLD h then typesafe_hash_grow h else Some h);
          let hval = hashfn (keyof item);
          let hbits = HASH_KEY (th_tabshift h) hval;
          let b = th_entries h ! hbits;
          case hash_scan cmpfn keyof hval (keyof item) (dropWhile (\<lambda>e. snd e < hval) b) of
            Some x \<Rightarrow> Some (Some x, h\<lparr>th_count := th_count h - 1\<rparr>)
          | None \<Rightarrow> Some (None, h\<lparr>th_entries := (th_entries h)[hbits := bucket_insert item hval b]\<rparr>) }"

text \<open>
  Removal goes by the identity of the item and the hash value stored in it (\<open>hval\<close>): skip
  smaller hash values, then walk while the hash value is equal and the item another one.
\<close>

definition bucket_del :: "'a \<Rightarrow> u32 \<Rightarrow> ('a \<times> u32) list \<Rightarrow> ('a \<times> u32) list option" where
  "bucket_del item hval b =
     (let rest = dropWhile (\<lambda>e. snd e < hval) b;
          other = (\<lambda>e. fst e \<noteq> item \<and> snd e = hval)
      in case dropWhile other rest of
           e # tail \<Rightarrow>
             if fst e = item
             then Some (takeWhile (\<lambda>e. snd e < hval) b @ takeWhile other rest @ tail)
             else None
         | [] \<Rightarrow> None)"

definition thash_del :: "'a thash \<Rightarrow> 'a \<Rightarrow> u32 \<Rightarrow> ('a option \<times> 'a thash) option" where
  "thash_del h item hval =
     (if th_tabshift h = 0 then Some (None, h)
      else (let hbits = HASH_KEY (th_tabshift h) hval
            in case bucket_del item hval (th_entries h ! hbits) of
                 None \<Rightarrow> Some (None, h)
               | Some b \<Rightarrow>
                   (let h = h\<lparr>th_entries := (th_entries h)[hbits := b], th_count := th_count h - 1\<rparr>
                    in if HASH_SHRINK_THRESHOLD h
                       then map_option (Pair (Some item)) (typesafe_hash_shrink h)
                       else Some (Some item, h))))"

text \<open>Iteration and \<^verbatim>\<open>_pop\<close> look for the first non-empty bucket from index \<open>i\<close> on; the
  loop counter is the first argument counting down.\<close>

fun first_bucket :: "nat \<Rightarrow> nat \<Rightarrow> ('a \<times> u32) list list \<Rightarrow> nat option" where
  "first_bucket 0 i entries = None"
| "first_bucket (Suc n) i entries =
     (if entries ! i \<noteq> [] then Some i else first_bucket n (Suc i) entries)"

definition thash_pop :: "'a thash \<Rightarrow> ('a option \<times> 'a thash) option" where
  "thash_pop h =
     (case first_bucket (HASH_SIZE (th_tabshift h)) 0 (th_entries h) of
        None \<Rightarrow> Some (None, h)
      | Some i \<Rightarrow>
          (let b = th_entries h ! i;
               h = h\<lparr>th_entries := (th_entries h)[i := tl b], th_count := th_count h - 1\<rparr>
           in if HASH_SHRINK_THRESHOLD h
              then map_option (Pair (Some (fst (hd b)))) (typesafe_hash_shrink h)
              else Some (Some (fst (hd b)), h)))"

definition thash_const_first :: "'a thash \<Rightarrow> 'a option" where
  "thash_const_first h =
     map_option (\<lambda>i. fst (hd (th_entries h ! i)))
       (first_bucket (HASH_SIZE (th_tabshift h)) 0 (th_entries h))"

text \<open>\<^verbatim>\<open>hitem->next\<close> is what follows the item in its bucket.\<close>

definition thash_const_next :: "'a thash \<Rightarrow> 'a \<Rightarrow> u32 \<Rightarrow> 'a option" where
  "thash_const_next h item hval =
     (let k = HASH_KEY (th_tabshift h) hval
      in case tl (dropWhile (\<lambda>e. fst e \<noteq> item) (th_entries h ! k)) of
           e # _ \<Rightarrow> Some (fst e)
         | [] \<Rightarrow> map_option (\<lambda>i. fst (hd (th_entries h ! i)))
                   (first_bucket (HASH_SIZE (th_tabshift h) - (k + 1)) (k + 1) (th_entries h)))"

definition thash_fini :: "'a thash \<Rightarrow> 'a thash option" where
  "thash_fini h =
     do { cassert (th_count h = 0);
          typesafe_hash_shrink (h\<lparr>th_minshift := 0\<rparr>);
          Some thash_init }"

subsection \<open>The size computation\<close>

lemma smear_step:
  fixes x :: u32
  assumes "\<And>i. bit x i \<longleftrightarrow> (\<exists>j<m. bit n (i + j))"
  shows "bit (x OR drop_bit m x) i \<longleftrightarrow> (\<exists>j<2 * m. bit (n :: u32) (i + j))"
proof -
  have "(\<exists>j<2 * m. bit n (i + j)) \<longleftrightarrow> (\<exists>j<m. bit n (i + j)) \<or> (\<exists>j<m. bit n (m + i + j))"
  proof
    assume "\<exists>j<2 * m. bit n (i + j)"
    then obtain j where j: "j < 2 * m" "bit n (i + j)" by blast
    show "(\<exists>j<m. bit n (i + j)) \<or> (\<exists>j<m. bit n (m + i + j))"
    proof (cases "j < m")
      case False
      then have "j - m < m" "bit n (m + i + (j - m))" using j by (simp_all add: ac_simps)
      then show ?thesis by blast
    qed (use j in blast)
  next
    assume "(\<exists>j<m. bit n (i + j)) \<or> (\<exists>j<m. bit n (m + i + j))"
    then show "\<exists>j<2 * m. bit n (i + j)"
    proof
      assume "\<exists>j<m. bit n (m + i + j)"
      then obtain j where "j < m" "bit n (i + (m + j))" by (auto simp: ac_simps)
      then show ?thesis by (intro exI[of _ "m + j"]) simp
    qed (force intro: less_le_trans)
  qed
  then show ?thesis by (simp add: bit_or_iff bit_drop_bit_eq assms)
qed

lemma bit_smear: "bit (smear n) i \<longleftrightarrow> (\<exists>j<32. bit n (i + j))"
proof -
  have 1: "bit n i \<longleftrightarrow> (\<exists>j<1. bit n (i + j))" for i by simp
  have 2: "bit (n OR drop_bit 1 n) i \<longleftrightarrow> (\<exists>j<2. bit n (i + j))" for i
    using smear_step[OF 1] by simp
  note 4 = smear_step[OF 2]
  note 8 = smear_step[OF 4]
  note 16 = smear_step[OF 8]
  note 32 = smear_step[OF 16]
  show ?thesis unfolding smear_def Let_def using 32 by simp
qed

lemma smear_eq_mask:
  assumes n: "2 ^ b \<le> unat n" "unat n < 2 ^ Suc b"
  shows "smear n = mask (Suc b)"
proof (rule bit_word_eqI)
  fix i assume "i < LENGTH(32)"
  have "unat n div 2 ^ b = 1" using n by (intro div_nat_eqI) simp_all
  then have top: "bit n b" by (simp add: bit_unat_iff)
  have none: "\<not> bit n j" if "j > b" for j
  proof -
    have "(2::nat) ^ Suc b \<le> 2 ^ j" using that by (intro power_increasing) simp_all
    then show ?thesis using n(2) by (simp add: bit_unat_iff)
  qed
  have "b < 32" using top bit_imp_le_length by fastforce
  have "(\<exists>j<32. bit n (i + j)) \<longleftrightarrow> i \<le> b"
  proof
    assume "\<exists>j<32. bit n (i + j)"
    then show "i \<le> b" using none by (metis leI le_add1 less_le_trans)
  next
    assume "i \<le> b"
    then show "\<exists>j<32. bit n (i + j)" using top \<open>b < 32\<close> by (intro exI[of _ "b - i"]) simp
  qed
  then show "bit (smear n) i = bit (mask (Suc b) :: u32) i"
    using \<open>i < LENGTH(32)\<close> by (simp add: bit_smear bit_mask_iff less_Suc_eq_le)
qed

lemma ctz32_exp: "b < 32 \<Longrightarrow> ctz32 (2 ^ b) = b"
proof -
  assume b: "b < 32"
  have "[0..<32] = [0..<b] @ b # [Suc b..<32]"
    using b by (metis upt_conv_Cons upt_add_eq_append le_add_diff_inverse less_imp_le zero_le)
  then have "takeWhile (\<lambda>i. \<not> bit (2 ^ b :: u32) i) [0..<32] = [0..<b]"
    using b by (simp add: takeWhile_append bit_exp_iff)
  then show ?thesis by (simp add: ctz32_def)
qed

lemma hash_newshift_spec:
  assumes "0 < unat cnt" "unat cnt < 2 ^ 31"
  obtains s where "hash_newshift cnt = Some s" "2 \<le> s" "s \<le> 32"
    "2 ^ (s - 2) \<le> unat cnt" "unat cnt < HASH_SIZE s"
proof -
  obtain b where b: "2 ^ b \<le> unat cnt" "unat cnt < 2 ^ Suc b"
    using power_bracket assms by blast
  then have "(2::nat) ^ b < 2 ^ 31" using assms by linarith
  then have "b < 31" by (rule power_less_imp_less_exp[rotated]) simp
  have sz: "smear cnt + 1 = 2 ^ Suc b"
    using b by (simp add: smear_eq_mask mask_eq_exp_minus_1)
  have "(2::u32) ^ Suc b \<noteq> 0" using \<open>b < 31\<close> by (simp del: power_Suc)
  then have "hash_newshift cnt = Some (Suc b + 1)"
    using \<open>b < 31\<close> unfolding hash_newshift_def Let_def sz by (simp add: ctz32_exp del: power_Suc)
  with b \<open>b < 31\<close> show ?thesis by (intro that[of "Suc b + 1"]) (simp_all add: HASH_SIZE_def)
qed

lemma HASH_KEY_div:
  assumes "1 \<le> ts" "ts + d \<le> 33"
  shows "HASH_KEY (ts + d) v div 2 ^ d = HASH_KEY ts v"
proof -
  have "33 - ts = (33 - (ts + d)) + d" using assms by simp
  then have "HASH_KEY ts v = unat (drop_bit d (drop_bit (33 - (ts + d)) v))"
    by (simp add: HASH_KEY_def ac_simps)
  then show ?thesis unfolding HASH_KEY_def by (simp only: unat_drop_bit)
qed

lemma HASH_KEY_less: "1 \<le> ts \<Longrightarrow> ts \<le> 33 \<Longrightarrow> HASH_KEY ts v < HASH_SIZE ts"
proof -
  assume ts: "1 \<le> ts" "ts \<le> 33"
  have "unat v < 2 ^ (ts - 1) * 2 ^ (33 - ts)"
    using ts unsigned_less[of v] by (simp flip: power_add)
  then show ?thesis
    using ts by (cases ts) (simp_all add: HASH_KEY_def HASH_SIZE_def unat_drop_bit less_mult_imp_div_less)
qed

lemma HASH_KEY_mono: "v \<le> w \<Longrightarrow> HASH_KEY ts v \<le> HASH_KEY ts w"
  by (simp add: HASH_KEY_def unat_drop_bit word_le_nat_alt div_le_mono)

subsection \<open>Sorted lists cut by a monotone key\<close>

lemma concat_filter_key:
  fixes f :: "'a \<Rightarrow> nat"
  assumes "sorted (map f xs)"
  shows "concat (map (\<lambda>j. filter (\<lambda>x. f x = a + j) xs) [0..<n]) = filter (\<lambda>x. a \<le> f x \<and> f x < a + n) xs"
proof (induction n)
  case (Suc n)
  have "filter (\<lambda>x. a \<le> f x \<and> f x < a + n) xs @ filter (\<lambda>x. f x = a + n) xs
        = filter (\<lambda>x. (a \<le> f x \<and> f x < a + n) \<or> f x = a + n) xs"
    using assms by (rule filter_append_sorted) auto
  also have "\<dots> = filter (\<lambda>x. a \<le> f x \<and> f x < a + Suc n) xs" by (rule filter_cong) auto
  finally show ?case using Suc by simp
qed (simp add: filter_empty_conv)

subsection \<open>Growing splits, shrinking joins\<close>

lemma length_grow_split [simp]: "length (grow_split n ns d i j item es) = length es"
  by (induction n ns d i j item es rule: grow_split.induct) (simp_all add: Let_def)

lemma grow_split_nth:
  assumes "sorted (map (\<lambda>e. midbits ns d (snd e)) item)" "\<forall>e\<in>set item. j \<le> midbits ns d (snd e)"
    "i * 2 ^ d + j + n \<le> length es" "k < length es"
  shows "grow_split n ns d i j item es ! k =
    (if i * 2 ^ d + j \<le> k \<and> k < i * 2 ^ d + j + n
     then filter (\<lambda>e. midbits ns d (snd e) = k - i * 2 ^ d) item else es ! k)"
  using assms
proof (induction n arbitrary: j item es)
  case (Suc n)
  let ?f = "\<lambda>e. midbits ns d (snd e)"
  have srt: "sorted (map ?f (filter (\<lambda>e. Suc j \<le> ?f e) item))"
    using Suc.prems(1) by (rule sorted_filter)
  have tw: "takeWhile (\<lambda>e. ?f e \<le> j) item = filter (\<lambda>e. ?f e = j) item"
  proof -
    have "takeWhile (\<lambda>e. ?f e \<le> j) item = filter (\<lambda>e. ?f e \<le> j) item"
      using Suc.prems(1) by (rule sorted_takeWhile) linarith
    also have "\<dots> = filter (\<lambda>e. ?f e = j) item"
      using Suc.prems(2) by (intro filter_cong refl) (simp add: eq_iff)
    finally show ?thesis .
  qed
  have dw: "dropWhile (\<lambda>e. ?f e \<le> j) item = filter (\<lambda>e. Suc j \<le> ?f e) item"
  proof -
    have "dropWhile (\<lambda>e. ?f e \<le> j) item = filter (\<lambda>e. \<not> ?f e \<le> j) item"
      using Suc.prems(1) by (rule sorted_takeWhile) linarith
    also have "\<dots> = filter (\<lambda>e. Suc j \<le> ?f e) item" by (simp add: not_le Suc_le_eq)
    finally show ?thesis .
  qed
  have step: "grow_split (Suc n) ns d i j item es ! k =
    (if i * 2 ^ d + Suc j \<le> k \<and> k < i * 2 ^ d + Suc j + n
     then filter (\<lambda>e. ?f e = k - i * 2 ^ d) (filter (\<lambda>e. Suc j \<le> ?f e) item)
     else es[i * 2 ^ d + j := filter (\<lambda>e. ?f e = j) item] ! k)"
    unfolding grow_split.simps Let_def tw dw
    by (rule Suc.IH[OF srt]) (use Suc.prems(3,4) in simp_all)
  have "filter (\<lambda>e. ?f e = k - i * 2 ^ d) (filter (\<lambda>e. Suc j \<le> ?f e) item)
      = filter (\<lambda>e. ?f e = k - i * 2 ^ d) item" if "i * 2 ^ d + Suc j \<le> k"
    unfolding filter_filter by (intro filter_cong refl) (use that in linarith)
  with step show ?case using Suc.prems(3,4)
    by (cases "k = i * 2 ^ d + j") simp_all
qed auto

lemma grow_buckets_nth:
  assumes "n * 2 ^ d \<le> length es"
    "\<And>i. i < n \<Longrightarrow> sorted (map (\<lambda>e. midbits ns d (snd e)) (es ! i))"
  shows "length (grow_buckets n ns d es) = length es \<and>
    (\<forall>k < length es. grow_buckets n ns d es ! k =
      (if k < n * 2 ^ d
       then filter (\<lambda>e. midbits ns d (snd e) = k mod 2 ^ d) (es ! (k div 2 ^ d))
       else es ! k))"
  using assms
proof (induction n arbitrary: es)
  case (Suc i)
  define es' where "es' = grow_split (2 ^ d) ns d i 0 (es ! i) (es[i := []])"
  have ge: "i \<le> i * 2 ^ d" by simp
  have len: "length es' = length es" by (simp add: es'_def)
  have nth: "es' ! k = (if i * 2 ^ d \<le> k \<and> k < i * 2 ^ d + 2 ^ d
      then filter (\<lambda>e. midbits ns d (snd e) = k - i * 2 ^ d) (es ! i)
      else es[i := []] ! k)" if "k < length es" for k
    unfolding es'_def
    by (subst grow_split_nth) (use Suc.prems that in \<open>auto simp: algebra_simps\<close>)
  have low: "es' ! k = es ! k" if "k < i" for k
  proof -
    have "\<not> i * 2 ^ d \<le> k" using that ge by linarith
    moreover have "k < length es" using that ge Suc.prems(1) unfolding mult_Suc by linarith
    ultimately show ?thesis using nth[of k] that by simp
  qed
  have IH: "length (grow_buckets i ns d es') = length es'"
    "k < length es \<Longrightarrow> grow_buckets i ns d es' ! k =
      (if k < i * 2 ^ d
       then filter (\<lambda>e. midbits ns d (snd e) = k mod 2 ^ d) (es' ! (k div 2 ^ d))
       else es' ! k)" for k
    using Suc.IH[of es'] Suc.prems low by (simp_all add: len)
  have "grow_buckets (Suc i) ns d es ! k =
      (if k < Suc i * 2 ^ d
       then filter (\<lambda>e. midbits ns d (snd e) = k mod 2 ^ d) (es ! (k div 2 ^ d))
       else es ! k)" if k: "k < length es" for k
  proof -
    have "k < i * 2 ^ d \<or> (\<exists>j. k = i * 2 ^ d + j \<and> j < 2 ^ d) \<or> Suc i * 2 ^ d \<le> k"
      by (cases "k < i * 2 ^ d \<or> Suc i * 2 ^ d \<le> k") (auto intro!: exI[of _ "k - i * 2 ^ d"])
    then consider "k < i * 2 ^ d" | j where "k = i * 2 ^ d + j" "j < 2 ^ d" | "Suc i * 2 ^ d \<le> k"
      by blast
    then show ?thesis
    proof cases
      case 1
      then have "k div 2 ^ d < i" by (simp add: less_mult_imp_div_less)
      with 1 show ?thesis using IH(2)[OF k] low by (simp flip: es'_def)
    next
      case 2
      then show ?thesis using IH(2)[OF k] nth[OF k] by (simp flip: es'_def)
    next
      case 3
      moreover have "(0::nat) < 2 ^ d" by simp
      ultimately have "i < k" "i * 2 ^ d \<le> k" "i * 2 ^ d + 2 ^ d \<le> k"
        using ge unfolding mult_Suc by linarith+
      with 3 show ?thesis using IH(2)[OF k] nth[OF k] by (simp flip: es'_def)
    qed
  qed
  then show ?case using IH(1) len by (simp flip: es'_def)
qed simp

lemma length_shrink_join [simp]: "length (shrink_join n d i j acc es) = length es"
  by (induction n d i j acc es rule: shrink_join.induct) (simp_all add: Let_def)

lemma shrink_join_eq:
  "shrink_join (Suc n) d i j acc es =
    es[i := acc @ concat (map (\<lambda>m. es ! (i * 2 ^ d + j + m)) [0..<Suc n])]"
proof (induction n arbitrary: j acc es)
  case (Suc n)
  have "i < i * 2 ^ d + Suc j + m" for m
    by (rule le_less_trans[of _ "i * 2 ^ d"]) simp_all
  then have "i \<noteq> i * 2 ^ d + Suc j + m" for m using less_imp_neq by blast
  then have "map (\<lambda>m. es[i := acc'] ! (i * 2 ^ d + Suc j + m)) xs = map (\<lambda>m. es ! (i * 2 ^ d + Suc j + m)) xs"
    for acc' xs by simp
  moreover have "[0..<Suc (Suc n)] = 0 # map Suc [0..<Suc n]" by (metis map_Suc_upt upt_conv_Cons zero_less_Suc)
  ultimately show ?case
    by (simp only: shrink_join.simps(2)[of "Suc n"] Let_def Suc.IH) (simp add: comp_def)
qed simp

lemma shrink_buckets_nth:
  "length (shrink_buckets n i d es) = length es \<and>
   (\<forall>k < length es. shrink_buckets n i d es ! k =
      (if i \<le> k \<and> k < i + n then concat (map (\<lambda>m. es ! (k * 2 ^ d + m)) [0..<2 ^ d]) else es ! k))"
proof (induction n arbitrary: i es)
  case (Suc n)
  define b where "b = concat (map (\<lambda>m. es ! (i * 2 ^ d + m)) [0..<2 ^ d])"
  have join: "shrink_join (2 ^ d) d i 0 [] es = es[i := b]"
    using shrink_join_eq[of "2 ^ d - 1" d i 0 "[]" es] by (simp add: b_def)
  have keep: "map (\<lambda>m. es[i := b] ! (k * 2 ^ d + m)) xs = map (\<lambda>m. es ! (k * 2 ^ d + m)) xs"
    if "i < k" for k xs
  proof -
    have "k \<le> k * 2 ^ d + m" for m by (rule trans_le_add1) simp
    then have "i \<noteq> k * 2 ^ d + m" for m using that by (metis leD)
    then show ?thesis by simp
  qed
  have IH: "length (shrink_buckets n (Suc i) d (es[i := b])) = length es"
    "k < length es \<Longrightarrow> shrink_buckets n (Suc i) d (es[i := b]) ! k =
      (if Suc i \<le> k \<and> k < Suc i + n
       then concat (map (\<lambda>m. es[i := b] ! (k * 2 ^ d + m)) [0..<2 ^ d]) else es[i := b] ! k)" for k
    using Suc.IH[of "Suc i" "es[i := b]"] unfolding length_list_update by blast+
  have "shrink_buckets (Suc n) i d es ! k =
      (if i \<le> k \<and> k < i + Suc n then concat (map (\<lambda>m. es ! (k * 2 ^ d + m)) [0..<2 ^ d]) else es ! k)"
    if k: "k < length es" for k
  proof (cases "i < k")
    case True
    with IH(2)[OF k] show ?thesis
      unfolding shrink_buckets.simps join keep[OF True] by simp
  next
    case False
    with IH(2)[OF k] k show ?thesis
      unfolding shrink_buckets.simps join by (cases "i = k") (simp_all add: b_def)
  qed
  then show ?case using IH(1) unfolding shrink_buckets.simps join by blast
qed auto

subsection \<open>The table represents a list sorted by hash value\<close>

definition bucket_of :: "nat \<Rightarrow> ('a \<times> u32) list \<Rightarrow> nat \<Rightarrow> ('a \<times> u32) list" where
  "bucket_of tabshift L k = filter (\<lambda>e. HASH_KEY tabshift (snd e) = k) L"

definition thash_tab :: "'a thash \<Rightarrow> ('a \<times> u32) list \<Rightarrow> bool" where
  "thash_tab h L \<longleftrightarrow>
     sorted (map snd L) \<and> th_minshift h = 0 \<and> th_maxshift h = 0 \<and>
     (if th_tabshift h = 0 then L = [] else 2 \<le> th_tabshift h \<and> th_tabshift h \<le> 31) \<and>
     th_entries h = map (bucket_of (th_tabshift h) L) [0..<HASH_SIZE (th_tabshift h)]"

definition thash_flat :: "'a thash \<Rightarrow> ('a \<times> u32) list" where
  "thash_flat h = concat (th_entries h)"

definition thash_wf :: "'a thash \<Rightarrow> bool" where
  "thash_wf h \<longleftrightarrow> thash_tab h (thash_flat h) \<and> unat (th_count h) = length (thash_flat h)
     \<and> (th_tabshift h \<noteq> 0 \<longrightarrow> unat (th_count h) < HASH_SIZE (th_tabshift h))"

lemma HASH_SIZE_0 [simp]: "HASH_SIZE 0 = 0"
  by (simp add: HASH_SIZE_def)

lemma HASH_SIZE_add: "1 \<le> ts \<Longrightarrow> HASH_SIZE (ts + d) = HASH_SIZE ts * 2 ^ d"
  by (cases ts) (simp_all add: HASH_SIZE_def power_add)

lemma sorted_HASH_KEY: "sorted (map snd L) \<Longrightarrow> sorted (map (\<lambda>e. HASH_KEY ts (snd e)) L)"
  unfolding sorted_map by (erule sorted_wrt_mono_rel[rotated]) (rule HASH_KEY_mono)

lemma sorted_bucket_of: "sorted (map snd L) \<Longrightarrow> sorted (map snd (bucket_of ts L k))"
  unfolding bucket_of_def by (rule sorted_filter)

lemma thash_flat_tab: "thash_tab h L \<Longrightarrow> thash_flat h = L"
proof -
  assume tab: "thash_tab h L"
  show ?thesis
  proof (cases "th_tabshift h = 0")
    case False
    let ?ts = "th_tabshift h"
    have "thash_flat h = concat (map (\<lambda>j. filter (\<lambda>e. HASH_KEY ?ts (snd e) = 0 + j) L) [0..<HASH_SIZE ?ts])"
      using tab by (auto simp: thash_flat_def thash_tab_def bucket_of_def
          intro!: arg_cong[of _ _ concat] map_cong)
    also have "\<dots> = filter (\<lambda>e. 0 \<le> HASH_KEY ?ts (snd e) \<and> HASH_KEY ?ts (snd e) < 0 + HASH_SIZE ?ts) L"
      using tab by (intro concat_filter_key sorted_HASH_KEY) (simp add: thash_tab_def)
    also have "\<dots> = L"
      using tab False HASH_KEY_less[of ?ts] by (simp add: filter_id_conv thash_tab_def)
    finally show ?thesis .
  qed (use tab in \<open>simp add: thash_tab_def thash_flat_def\<close>)
qed

lemma nth_entries:
  "thash_tab h L \<Longrightarrow> k < HASH_SIZE (th_tabshift h) \<Longrightarrow> th_entries h ! k = bucket_of (th_tabshift h) L k"
  by (simp add: thash_tab_def)

lemma HASH_KEY_eq_iff:
  assumes "1 \<le> ts" "ts + d \<le> 33"
  shows "HASH_KEY (ts + d) v = k \<longleftrightarrow> HASH_KEY ts v = k div 2 ^ d \<and> midbits (ts + d) d v = k mod 2 ^ d"
  using HASH_KEY_div[OF assms, of v] unfolding midbits_def
  by (metis div_mult_mod_eq)

lemma HASH_KEY_split:
  "1 \<le> ts \<Longrightarrow> ts + d \<le> 33 \<Longrightarrow> HASH_KEY (ts + d) v = HASH_KEY ts v * 2 ^ d + midbits (ts + d) d v"
  using HASH_KEY_div[of ts d v] unfolding midbits_def by (metis div_mult_mod_eq)

lemma sorted_midbits:
  assumes "1 \<le> ts" "ts + d \<le> 33" "sorted (map snd L)"
  shows "sorted (map (\<lambda>e. midbits (ts + d) d (snd e)) (bucket_of ts L k))"
proof -
  have "midbits (ts + d) d (snd x) \<le> midbits (ts + d) d (snd y)"
    if "x \<in> set (bucket_of ts L k)" "y \<in> set (bucket_of ts L k)" "snd x \<le> snd y" for x y
  proof -
    have "HASH_KEY (ts + d) (snd x) = k * 2 ^ d + midbits (ts + d) d (snd x)"
         "HASH_KEY (ts + d) (snd y) = k * 2 ^ d + midbits (ts + d) d (snd y)"
      using that HASH_KEY_split[OF assms(1,2)] by (simp_all add: bucket_of_def)
    with HASH_KEY_mono[OF that(3), of "ts + d"] show ?thesis by linarith
  qed
  with sorted_bucket_of[OF assms(3), of ts k] show ?thesis
    unfolding sorted_map by (rule sorted_wrt_mono_rel[rotated]) blast
qed

lemma shift_bound: "2 ^ (s - 2) \<le> (n :: nat) \<Longrightarrow> n < 2 ^ k \<Longrightarrow> s < k + 2"
proof -
  assume "2 ^ (s - 2) \<le> n" "n < 2 ^ k"
  then have "(2::nat) ^ (s - 2) < 2 ^ k" by linarith
  then have "s - 2 < k" by (rule power_less_imp_less_exp[rotated]) simp
  then show ?thesis by simp
qed

lemma HASH_SIZE_less_iff: "HASH_SIZE s < HASH_SIZE t \<Longrightarrow> s < t"
  by (rule ccontr) (simp add: HASH_SIZE_def not_less div_le_mono leD power_increasing)

lemma grow_entries:
  assumes tab: "thash_tab h L" and d: "s = th_tabshift h + d" "0 < d" "s \<le> 31"
  defines "n \<equiv> HASH_SIZE (th_tabshift h)"
  shows "grow_buckets n s d (take n (th_entries h) @ replicate (HASH_SIZE s - n) []) =
    map (bucket_of s L) [0..<HASH_SIZE s]" (is "?new = _")
proof (cases "th_tabshift h = 0")
  case True
  with tab have "L = []" by (simp add: thash_tab_def)
  then show ?thesis using True
    by (intro nth_equalityI) (simp_all add: n_def bucket_of_def)
next
  case False
  let ?ts = "th_tabshift h"
  define es0 where "es0 = take n (th_entries h) @ replicate (HASH_SIZE s - n) []"
  have srt: "sorted (map snd L)" and len: "length (th_entries h) = n"
    using tab by (simp_all add: thash_tab_def n_def)
  have sz: "n * 2 ^ d = HASH_SIZE s" using False d HASH_SIZE_add by (simp add: n_def)
  have "n \<le> HASH_SIZE s" unfolding sz[symmetric] by simp
  then have len0: "length es0 = HASH_SIZE s" using len by (simp add: es0_def)
  have low: "es0 ! k = bucket_of ?ts L k" if "k < n" for k
    using that nth_entries[OF tab] len by (simp add: es0_def nth_append n_def)
  have ts: "1 \<le> ?ts" "?ts + d \<le> 33" using False d by simp_all
  have g: "length (grow_buckets n s d es0) = HASH_SIZE s" "k < HASH_SIZE s \<Longrightarrow>
     grow_buckets n s d es0 ! k = filter (\<lambda>e. midbits s d (snd e) = k mod 2 ^ d) (es0 ! (k div 2 ^ d))" for k
    using grow_buckets_nth[of n d es0 s] low sorted_midbits[OF ts srt]
    by (simp_all add: len0 sz flip: d(1))
  have "grow_buckets n s d es0 = map (bucket_of s L) [0..<HASH_SIZE s]"
  proof (rule nth_equalityI)
    fix k assume "k < length (grow_buckets n s d es0)"
    then have k: "k < HASH_SIZE s" "k div 2 ^ d < n"
      using g(1) by (simp_all add: less_mult_imp_div_less flip: sz)
    then show "grow_buckets n s d es0 ! k = map (bucket_of s L) [0..<HASH_SIZE s] ! k"
      by (simp add: g(2) low) (simp add: bucket_of_def d(1) HASH_KEY_eq_iff[OF ts] conj_commute)
  qed (simp add: g(1))
  then show ?thesis by (simp add: es0_def)
qed

lemma typesafe_hash_grow_tab:
  assumes tab: "thash_tab h L" and cnt: "0 < unat (th_count h)" "unat (th_count h) < 2 ^ 30"
    and thr: "HASH_SIZE (th_tabshift h) \<le> unat (th_count h)"
  obtains h' where "typesafe_hash_grow h = Some h'" "thash_tab h' L" "th_count h' = th_count h"
    "th_tabshift h' \<noteq> 0" "unat (th_count h) < HASH_SIZE (th_tabshift h')"
proof -
  let ?ts = "th_tabshift h"
  have "unat (th_count h) < 2 ^ 31" using cnt(2) by simp
  with cnt(1) obtain s where s: "hash_newshift (th_count h) = Some s" "2 \<le> s" "s \<le> 32"
    "2 ^ (s - 2) \<le> unat (th_count h)" "unat (th_count h) < HASH_SIZE s"
    using hash_newshift_spec by blast
  have s31: "s \<le> 31" using shift_bound[OF s(4) cnt(2)] by simp
  have "?ts < s" by (rule HASH_SIZE_less_iff) (use s thr in linarith)
  then obtain d where d: "s = ?ts + d" "0 < d" using less_imp_add_positive by metis
  have mm: "th_minshift h = 0" "th_maxshift h = 0" "sorted (map snd L)"
    using tab by (simp_all add: thash_tab_def)
  let ?h' = "h\<lparr>th_entries := map (bucket_of s L) [0..<HASH_SIZE s], th_tabshift := s\<rparr>"
  have "th_count h > 0" "s \<noteq> ?ts" "s - ?ts = d"
    using cnt(1) d by (auto simp: word_less_nat_alt)
  then have "typesafe_hash_grow h = Some ?h'"
    by (simp add: typesafe_hash_grow_def s(1) mm s31 grow_entries[OF tab d s31])
  with s mm s31 show ?thesis by (intro that[of ?h']) (simp_all add: thash_tab_def)
qed

lemma shrink_entries:
  assumes tab: "thash_tab h L" and d: "th_tabshift h = s + d" "1 \<le> s" "s + d \<le> 33"
  shows "take (HASH_SIZE s) (shrink_buckets (HASH_SIZE s) 0 d (th_entries h)) =
    map (bucket_of s L) [0..<HASH_SIZE s]" (is "?new = _")
proof (rule nth_equalityI)
  let ?ts = "th_tabshift h"
  have srt: "sorted (map snd L)" and lts: "length (th_entries h) = HASH_SIZE ?ts"
    using tab by (simp_all add: thash_tab_def)
  have sz: "HASH_SIZE ?ts = HASH_SIZE s * 2 ^ d" using d HASH_SIZE_add by simp
  then have le: "HASH_SIZE s \<le> HASH_SIZE ?ts" by simp
  then show len: "length ?new = length (map (bucket_of s L) [0..<HASH_SIZE s])"
    using shrink_buckets_nth[of "HASH_SIZE s" 0 d "th_entries h"] lts by simp
  fix k assume "k < length ?new"
  then have k: "k < HASH_SIZE s" using len by simp
  have in_tab: "k * 2 ^ d + m < HASH_SIZE ?ts" if "m < 2 ^ d" for m
  proof -
    have "k * 2 ^ d + m < Suc k * 2 ^ d" using that by simp
    also have "\<dots> \<le> HASH_SIZE ?ts" unfolding sz using k by (intro mult_le_mono1) simp
    finally show ?thesis .
  qed
  have "?new ! k = concat (map (\<lambda>m. th_entries h ! (k * 2 ^ d + m)) [0..<2 ^ d])"
    using shrink_buckets_nth[of "HASH_SIZE s" 0 d "th_entries h"] k le lts by simp
  also have "\<dots> = concat (map (\<lambda>m. filter (\<lambda>e. HASH_KEY ?ts (snd e) = k * 2 ^ d + m) L) [0..<2 ^ d])"
    using nth_entries[OF tab] in_tab by (intro arg_cong[of _ _ concat] map_cong) (simp_all add: bucket_of_def)
  also have "\<dots> = filter (\<lambda>e. k * 2 ^ d \<le> HASH_KEY ?ts (snd e) \<and> HASH_KEY ?ts (snd e) < k * 2 ^ d + 2 ^ d) L"
    using srt by (intro concat_filter_key sorted_HASH_KEY)
  also have "\<dots> = bucket_of s L k"
    unfolding bucket_of_def d(1) div_eq_iff_range[OF zero_less_power[OF zero_less_numeral]] HASH_KEY_div[OF d(2,3)] ..
  finally show "?new ! k = map (bucket_of s L) [0..<HASH_SIZE s] ! k" using k by simp
qed

lemma typesafe_hash_shrink_tab:
  assumes tab: "thash_tab h L" and cnt: "unat (th_count h) = length L" and ts0: "th_tabshift h \<noteq> 0"
    and thr: "HASH_SHRINK_THRESHOLD h"
  obtains h' where "typesafe_hash_shrink h = Some h'" "thash_tab h' L" "th_count h' = th_count h"
    "th_tabshift h' \<noteq> 0 \<longrightarrow> unat (th_count h) < HASH_SIZE (th_tabshift h')"
proof (cases "L = []")
  case True
  then have "th_count h = 0" using cnt by (simp add: unat_eq_0)
  with True tab show ?thesis
    by (intro that[of "h\<lparr>th_entries := [], th_tabshift := 0\<rparr>"])
       (simp_all add: typesafe_hash_shrink_def thash_tab_def)
next
  case False
  let ?ts = "th_tabshift h"
  have ts: "2 \<le> ?ts" "?ts \<le> 31" "th_minshift h = 0" "th_maxshift h = 0" "sorted (map snd L)"
    using tab ts0 by (simp_all add: thash_tab_def)
  have c0: "0 < unat (th_count h)" using cnt False by simp
  obtain k where k: "?ts = Suc (Suc k)" using ts(1) by (metis Suc_le_D numeral_2_eq_2 Suc_le_mono)
  have cl: "unat (th_count h) < 2 ^ (?ts - 2)"
    using thr by (auto simp: HASH_SHRINK_THRESHOLD_def HASH_SIZE_def k intro: half_less)
  have "unat (th_count h) < 2 ^ 31"
    by (rule less_le_trans[OF cl power_increasing]) (use ts in simp_all)
  with c0 obtain s where s: "hash_newshift (th_count h) = Some s" "2 \<le> s" "s \<le> 32"
    "2 ^ (s - 2) \<le> unat (th_count h)" "unat (th_count h) < HASH_SIZE s"
    using hash_newshift_spec by blast
  have "s < ?ts" using shift_bound[OF s(4) cl] ts(1) by simp
  then obtain d where d: "?ts = s + d" "0 < d" using less_imp_add_positive by metis
  let ?h' = "h\<lparr>th_entries := map (bucket_of s L) [0..<HASH_SIZE s], th_tabshift := s\<rparr>"
  have "typesafe_hash_shrink h = Some ?h'"
    using c0 ts s(1,2) d shrink_entries[OF tab d(1)]
    by (auto simp: typesafe_hash_shrink_def Let_def unat_eq_0)
  with s ts d show ?thesis by (intro that[of ?h']) (simp_all add: thash_tab_def)
qed

subsection \<open>Bucket operations on sorted lists\<close>

lemma hash_scan_find:
  assumes "sorted (map snd b)"
  shows "hash_scan cmpfn keyof hval k (dropWhile (\<lambda>e. snd e < hval) b) =
    map_option fst (find (\<lambda>e. snd e = hval \<and> cmpfn (keyof (fst e)) k = 0) b)"
proof -
  let ?P = "\<lambda>e. snd e = hval \<and> cmpfn (keyof (fst e)) k = 0"
  have scan: "hash_scan cmpfn keyof hval k b = map_option fst (find ?P b)"
    if "sorted (map snd b)" "\<forall>e\<in>set b. hval \<le> snd e" for b
    using that by (induction b) (fastforce simp: find_None_iff not_less dest: sym)+
  show ?thesis using assms
  proof (induction b)
    case (Cons e b)
    show ?case
    proof (cases "snd e < hval")
      case True
      then show ?thesis using Cons by auto
    next
      case False
      then have "\<forall>e'\<in>set (e # b). hval \<le> snd e'" using Cons.prems by force
      from scan[OF Cons.prems this] show ?thesis using False by simp
    qed
  qed simp
qed

lemma bucket_insert_sorted:
  assumes "sorted (map snd b)"
  shows "bucket_insert x hval b = filter (\<lambda>e. snd e \<le> hval) b @ (x, hval) # filter (\<lambda>e. hval < snd e) b"
proof -
  have 1: "takeWhile (\<lambda>e. snd e < hval) b = filter (\<lambda>e. snd e < hval) b"
    "dropWhile (\<lambda>e. snd e < hval) b = filter (\<lambda>e. \<not> snd e < hval) b"
    using assms by (rule sorted_takeWhile, simp)+
  define r where "r = filter (\<lambda>e. \<not> snd e < hval) b"
  have r: "sorted (map snd r)" "\<forall>e\<in>set r. hval \<le> snd e"
    using assms by (auto simp: r_def intro: sorted_filter)
  have "takeWhile (\<lambda>e. snd e = hval) r = takeWhile (\<lambda>e. snd e \<le> hval) r"
    by (rule takeWhile_cong[OF refl]) (use r(2) in fastforce)
  moreover have "dropWhile (\<lambda>e. snd e = hval) r = dropWhile (\<lambda>e. snd e \<le> hval) r"
    by (rule dropWhile_cong[OF refl]) (use r(2) in fastforce)
  ultimately have 2: "takeWhile (\<lambda>e. snd e = hval) r = filter (\<lambda>e. snd e \<le> hval) r"
       "dropWhile (\<lambda>e. snd e = hval) r = filter (\<lambda>e. \<not> snd e \<le> hval) r"
    using sorted_takeWhile[OF r(1), of "\<lambda>e. snd e \<le> hval"] by auto
  have 3: "filter (\<lambda>e. snd e < hval) b @ filter (\<lambda>e. snd e \<le> hval) r = filter (\<lambda>e. snd e \<le> hval) b"
  proof -
    have "filter (\<lambda>e. snd e < hval) b @ filter (\<lambda>e. snd e = hval) b = filter (\<lambda>e. snd e < hval \<or> snd e = hval) b"
      using assms by (rule filter_append_sorted) simp
    moreover have "filter (\<lambda>e. snd e \<le> hval) r = filter (\<lambda>e. snd e = hval) b"
      unfolding r_def filter_filter by (intro filter_cong refl) auto
    ultimately show ?thesis by (simp add: le_less)
  qed
  have 4: "filter (\<lambda>e. \<not> snd e \<le> hval) r = filter (\<lambda>e. hval < snd e) b"
    unfolding r_def filter_filter by (intro filter_cong refl) auto
  show ?thesis
    using 3 by (simp add: bucket_insert_def Let_def 1 2 4 flip: r_def)
qed

lemma set_bucket_insert:
  "sorted (map snd b) \<Longrightarrow> set (bucket_insert x hval b) = insert (x, hval) (set b)"
  "sorted (map snd b) \<Longrightarrow> length (bucket_insert x hval b) = Suc (length b)"
  "sorted (map snd b) \<Longrightarrow> sorted (map snd (bucket_insert x hval b))"
  "sorted (map snd b) \<Longrightarrow> mset (bucket_insert x hval b) = add_mset (x, hval) (mset b)"
proof -
  assume b: "sorted (map snd b)"
  have "mset (filter (\<lambda>e. snd e \<le> hval) b) + mset (filter (\<lambda>e. hval < snd e) b) = mset b"
    using multiset_partition[of "mset b" "\<lambda>e. snd e \<le> hval"] by (simp add: not_le)
  then show m: "mset (bucket_insert x hval b) = add_mset (x, hval) (mset b)"
    by (simp add: bucket_insert_sorted[OF b])
  from arg_cong[OF m, of set_mset] show "set (bucket_insert x hval b) = insert (x, hval) (set b)" by simp
  from arg_cong[OF m, of size] show "length (bucket_insert x hval b) = Suc (length b)" by simp
  show "sorted (map snd (bucket_insert x hval b))"
    using sorted_filter[OF b] by (auto simp: bucket_insert_sorted[OF b] sorted_append)
qed

lemma bucket_of_insert:
  assumes "sorted (map snd L)"
  shows "bucket_of ts (bucket_insert x hval L) k =
    (if HASH_KEY ts hval = k then bucket_insert x hval (bucket_of ts L k) else bucket_of ts L k)"
proof -
  let ?P = "\<lambda>e. HASH_KEY ts (snd e) = k"
  have srt: "sorted (map snd (filter ?P L))" using assms by (rule sorted_filter)
  have "filter (\<lambda>e. snd e \<le> hval) (filter ?P L) @ filter (\<lambda>e. hval < snd e) (filter ?P L)
      = filter (\<lambda>e. snd e \<le> hval \<or> hval < snd e) (filter ?P L)"
    using srt by (rule filter_append_sorted) simp
  then have app: "filter (\<lambda>e. snd e \<le> hval) (filter ?P L) @ filter (\<lambda>e. hval < snd e) (filter ?P L) = filter ?P L"
    by (simp add: not_less[symmetric])
  show ?thesis
    using app unfolding bucket_of_def bucket_insert_sorted[OF assms] bucket_insert_sorted[OF srt]
    by (simp add: conj_commute)
qed

lemma bucket_del_less:
  assumes "snd e < hval"
  shows "bucket_del item hval (e # b) = map_option ((#) e) (bucket_del item hval b)"
  unfolding bucket_del_def Let_def using assms
  by (simp split: list.split del: dropWhile_eq_Nil_conv dropWhile_eq_self_iff)

lemma bucket_del_other:
  assumes "fst e \<noteq> item" "snd e = hval" "\<forall>e'\<in>set b. hval \<le> snd e'"
  shows "bucket_del item hval (e # b) = map_option ((#) e) (bucket_del item hval b)"
proof -
  have "dropWhile (\<lambda>e. snd e < hval) b = b" "takeWhile (\<lambda>e. snd e < hval) b = []"
    using assms(3) by (cases b; force)+
  then show ?thesis
  unfolding bucket_del_def Let_def using assms
  by (simp split: list.split del: dropWhile_eq_Nil_conv dropWhile_eq_self_iff)
qed

lemma bucket_del_eq:
  assumes "sorted (map snd b)" "distinct (map fst b)" "\<forall>e\<in>set b. fst e = item \<longrightarrow> snd e = hval"
  shows "bucket_del item hval b =
    (if item \<in> fst ` set b then Some (filter (\<lambda>e. fst e \<noteq> item) b) else None)"
  using assms
proof (induction b)
  case (Cons e b)
  obtain x hv where e: "e = (x, hv)" by fastforce
  have IH: "bucket_del item hval b = (if item \<in> fst ` set b then Some (filter (\<lambda>e. fst e \<noteq> item) b) else None)"
    using Cons by simp
  consider "hv < hval" | "hv = hval" "x \<noteq> item" | "hv = hval" "x = item" | "hval < hv" by fastforce
  then show ?case
  proof cases
    case 1
    then have "bucket_del item hval (e # b) = map_option ((#) e) (bucket_del item hval b)"
      by (intro bucket_del_less) (simp add: e)
    then show ?thesis using 1 IH Cons.prems(3) by (auto simp: e)
  next
    case 2
    then have "bucket_del item hval (e # b) = map_option ((#) e) (bucket_del item hval b)"
      using Cons.prems(1) by (intro bucket_del_other) (auto simp: e)
    then show ?thesis using 2 IH by (auto simp: e)
  next
    case 3
    then have "filter (\<lambda>e. fst e \<noteq> item) b = b" using Cons.prems(2) by (auto simp: e filter_id_conv image_iff)
    then show ?thesis using 3 by (simp add: bucket_del_def Let_def e)
  next
    case 4
    then have "item \<notin> fst ` set (e # b)" using Cons.prems(1,3) by (fastforce simp: e)
    then show ?thesis using 4 by (auto simp: bucket_del_def Let_def e)
  qed
qed (simp add: bucket_del_def)

lemma bucket_of_filter: "bucket_of ts (filter P L) k = filter P (bucket_of ts L k)"
  by (simp add: bucket_of_def conj_commute)

subsection \<open>The operations keep the representation\<close>

lemma thash_tab_update:
  assumes "thash_tab h L" "th_tabshift h \<noteq> 0" "sorted (map snd L')" "k < HASH_SIZE (th_tabshift h)"
    "\<And>j. bucket_of (th_tabshift h) L' j = (if j = k then b else bucket_of (th_tabshift h) L j)"
  shows "thash_tab (h\<lparr>th_entries := (th_entries h)[k := b], th_count := c\<rparr>) L'"
  using assms by (auto simp: thash_tab_def list_eq_iff_nth_eq nth_list_update)

lemma thash_tab_count [simp]: "thash_tab (h\<lparr>th_count := c\<rparr>) L \<longleftrightarrow> thash_tab h L"
  by (simp add: thash_tab_def)

lemma thash_wfI:
  "thash_tab h L \<Longrightarrow> unat (th_count h) = length L \<Longrightarrow>
   th_tabshift h \<noteq> 0 \<longrightarrow> unat (th_count h) < HASH_SIZE (th_tabshift h) \<Longrightarrow> thash_wf h \<and> thash_flat h = L"
  by (simp add: thash_wf_def thash_flat_tab)

lemma HASH_KEY_in_table:
  "thash_tab h L \<Longrightarrow> th_tabshift h \<noteq> 0 \<Longrightarrow> HASH_KEY (th_tabshift h) v < HASH_SIZE (th_tabshift h)"
  by (intro HASH_KEY_less) (auto simp: thash_tab_def)

lemma find_bucket_of:
  "find (\<lambda>e. snd e = hval \<and> P e) (bucket_of ts L (HASH_KEY ts hval)) = find (\<lambda>e. snd e = hval \<and> P e) L"
  by (induction L) (auto simp: bucket_of_def)

lemma hash_scan_table:
  assumes "thash_tab h L" "th_tabshift h \<noteq> 0"
  shows "hash_scan cmpfn keyof hval k
      (dropWhile (\<lambda>e. snd e < hval) (th_entries h ! HASH_KEY (th_tabshift h) hval)) =
    map_option fst (find (\<lambda>e. snd e = hval \<and> cmpfn (keyof (fst e)) k = 0) L)"
proof -
  have "sorted (map snd L)" using assms by (simp add: thash_tab_def)
  then show ?thesis
    using assms by (simp add: nth_entries HASH_KEY_in_table hash_scan_find sorted_bucket_of find_bucket_of)
qed

lemma thash_find_flat:
  assumes "thash_wf h"
  shows "thash_find cmpfn hashfn keyof h k =
    map_option fst (find (\<lambda>e. snd e = hashfn k \<and> cmpfn (keyof (fst e)) k = 0) (thash_flat h))"
proof (cases "th_tabshift h = 0")
  case True
  then show ?thesis using assms by (simp add: thash_find_def thash_wf_def thash_tab_def)
next
  case False
  then show ?thesis using assms by (simp add: thash_find_def Let_def thash_wf_def hash_scan_table)
qed

text \<open>Making room for one more item: the table after the counter was incremented.\<close>

lemma thash_add_room:
  assumes wf: "thash_wf h" and room: "Suc (length (thash_flat h)) < 2 ^ 30"
  obtains h1 where
    "(let h = h\<lparr>th_count := th_count h + 1\<rparr>
      in if th_tabshift h = 0 \<or> HASH_GROW_THRESHOLD h then typesafe_hash_grow h else Some h) = Some h1"
    "thash_tab h1 (thash_flat h)" "th_count h1 = th_count h + 1" "th_tabshift h1 \<noteq> 0"
    "unat (th_count h1) = Suc (length (thash_flat h))"
    "Suc (length (thash_flat h)) < HASH_SIZE (th_tabshift h1)"
proof -
  let ?h = "h\<lparr>th_count := th_count h + 1\<rparr>"
  have tab: "thash_tab ?h (thash_flat h)" using wf by (simp add: thash_wf_def)
  have cnt: "unat (th_count h + 1) = Suc (length (thash_flat h))"
    using wf room by (simp add: thash_wf_def unat_word_ariths)
  then have pos: "0 < unat (th_count ?h)" and lim: "unat (th_count ?h) < 2 ^ 30" using room by simp_all
  show ?thesis
  proof (cases "th_tabshift h = 0 \<or> HASH_GROW_THRESHOLD ?h")
    case True
    then have "HASH_SIZE (th_tabshift ?h) \<le> unat (th_count ?h)" by (auto simp: HASH_GROW_THRESHOLD_def)
    then obtain h' where "typesafe_hash_grow ?h = Some h'" "thash_tab h' (thash_flat h)"
      "th_count h' = th_count ?h" "th_tabshift h' \<noteq> 0" "unat (th_count ?h) < HASH_SIZE (th_tabshift h')"
      using typesafe_hash_grow_tab[OF tab pos lim] by blast
    with True cnt show ?thesis by (intro that[of h']) simp_all
  next
    case False
    with tab cnt show ?thesis by (intro that[of ?h]) (simp_all add: HASH_GROW_THRESHOLD_def)
  qed
qed

lemma thash_add_flat:
  fixes cmpfn :: "'k \<Rightarrow> 'k \<Rightarrow> int" and item :: 'a
  assumes wf: "thash_wf h" and room: "Suc (length (thash_flat h)) < 2 ^ 30"
    and hit: "hit = find (\<lambda>e. snd e = hashfn (keyof item) \<and> cmpfn (keyof (fst e)) (keyof item) = 0) (thash_flat h)"
  obtains h' where "thash_add cmpfn hashfn keyof h item = Some (map_option fst hit, h')" "thash_wf h'"
    "thash_flat h' = (case hit of Some _ \<Rightarrow> thash_flat h
                      | None \<Rightarrow> bucket_insert item (hashfn (keyof item)) (thash_flat h))"
proof -
  let ?L = "thash_flat h" and ?hv = "hashfn (keyof item)"
  obtain h1 where h1: "(let h = h\<lparr>th_count := th_count h + 1\<rparr>
      in if th_tabshift h = 0 \<or> HASH_GROW_THRESHOLD h then typesafe_hash_grow h else Some h) = Some h1"
    "thash_tab h1 ?L" "th_count h1 = th_count h + 1" "th_tabshift h1 \<noteq> 0"
    "unat (th_count h1) = Suc (length ?L)" "Suc (length ?L) < HASH_SIZE (th_tabshift h1)"
    using thash_add_room[OF wf room] .
  let ?k = "HASH_KEY (th_tabshift h1) ?hv"
  have srt: "sorted (map snd ?L)" using h1(2) by (simp add: thash_tab_def)
  have add: "thash_add cmpfn hashfn keyof h item =
    (case map_option fst hit of
       Some x \<Rightarrow> Some (Some x, h1\<lparr>th_count := th_count h1 - 1\<rparr>)
     | None \<Rightarrow> Some (None, h1\<lparr>th_entries := (th_entries h1)[?k := bucket_insert item ?hv (th_entries h1 ! ?k)]\<rparr>))"
    using h1(1) hash_scan_table[OF h1(2,4), of cmpfn keyof ?hv "keyof item"]
    by (simp add: thash_add_def Let_def hit)
  show ?thesis
  proof (cases hit)
    case None
    let ?h' = "h1\<lparr>th_entries := (th_entries h1)[?k := bucket_insert item ?hv (th_entries h1 ! ?k)]\<rparr>"
    have "thash_tab (h1\<lparr>th_entries := (th_entries h1)[?k := bucket_insert item ?hv (th_entries h1 ! ?k)],
        th_count := th_count h1\<rparr>) (bucket_insert item ?hv ?L)"
      using h1 srt HASH_KEY_in_table[OF h1(2,4)]
      by (intro thash_tab_update) (auto simp: set_bucket_insert bucket_of_insert nth_entries)
    then have "thash_wf ?h' \<and> thash_flat ?h' = bucket_insert item ?hv ?L"
      using h1 srt by (intro thash_wfI) (simp_all add: set_bucket_insert)
    with None add show ?thesis by (intro that[of ?h']) simp_all
  next
    case (Some e)
    let ?h' = "h1\<lparr>th_count := th_count h1 - 1\<rparr>"
    have "unat (th_count h1 - 1) = length ?L" using h1(3) wf by (simp add: thash_wf_def)
    then have "thash_wf ?h' \<and> thash_flat ?h' = ?L" using h1 by (intro thash_wfI) simp_all
    with Some add show ?thesis by (intro that[of ?h']) simp_all
  qed
qed

lemma thash_shrink_room:
  assumes tab: "thash_tab h L" "th_tabshift h \<noteq> 0" "unat (th_count h) = length L"
    "length L < HASH_SIZE (th_tabshift h)"
  obtains h' where "(if HASH_SHRINK_THRESHOLD h then typesafe_hash_shrink h else Some h) = Some h'"
    "thash_wf h'" "thash_flat h' = L"
proof (cases "HASH_SHRINK_THRESHOLD h")
  case True
  obtain h' where "typesafe_hash_shrink h = Some h'" "thash_tab h' L" "th_count h' = th_count h"
    "th_tabshift h' \<noteq> 0 \<longrightarrow> unat (th_count h) < HASH_SIZE (th_tabshift h')"
    using typesafe_hash_shrink_tab[OF tab(1,3,2) True] .
  with True tab show ?thesis using thash_wfI[of h' L] by (intro that[of h']) simp_all
next
  case False
  with tab show ?thesis using thash_wfI[of h L] by (intro that[of h]) simp_all
qed

lemma thash_del_flat:
  assumes wf: "thash_wf h" and dist: "distinct (map fst (thash_flat h))"
    and hv: "\<forall>e\<in>set (thash_flat h). fst e = item \<longrightarrow> snd e = hval"
  obtains h' where "thash_del h item hval =
      Some (if item \<in> fst ` set (thash_flat h) then Some item else None, h')" "thash_wf h'"
    "thash_flat h' = filter (\<lambda>e. fst e \<noteq> item) (thash_flat h)"
proof (cases "th_tabshift h = 0")
  case True
  then have "thash_flat h = []" using wf by (auto simp: thash_wf_def thash_tab_def)
  with True wf show ?thesis by (intro that[of h]) (simp_all add: thash_del_def)
next
  case False
  let ?L = "thash_flat h" and ?ts = "th_tabshift h" and ?k = "HASH_KEY (th_tabshift h) hval"
  have tab: "thash_tab h ?L" and srt: "sorted (map snd ?L)" and cnt: "unat (th_count h) = length ?L"
    "length ?L < HASH_SIZE ?ts" using wf False by (simp_all add: thash_wf_def thash_tab_def)
  have k: "?k < HASH_SIZE ?ts" using HASH_KEY_in_table[OF tab False] .
  have bucket: "bucket_del item hval (th_entries h ! ?k) =
      (if item \<in> fst ` set ?L then Some (filter (\<lambda>e. fst e \<noteq> item) (bucket_of ?ts ?L ?k)) else None)"
  proof -
    have "item \<in> fst ` set (bucket_of ?ts ?L ?k) \<longleftrightarrow> item \<in> fst ` set ?L"
      using hv by (fastforce simp: bucket_of_def image_iff)
    moreover have "distinct (map fst (bucket_of ?ts ?L ?k))"
      unfolding bucket_of_def using dist by (rule distinct_map_filter)
    ultimately show ?thesis
      using hv nth_entries[OF tab k] sorted_bucket_of[OF srt, of ?ts ?k]
      by (subst bucket_del_eq) (auto simp: bucket_of_def)
  qed
  show ?thesis
  proof (cases "item \<in> fst ` set ?L")
    case out: False
    then have "filter (\<lambda>e. fst e \<noteq> item) ?L = ?L" by (auto simp: filter_id_conv)
    with out wf bucket show ?thesis by (intro that[of h]) (simp_all add: thash_del_def False)
  next
    case inn: True
    let ?L' = "filter (\<lambda>e. fst e \<noteq> item) ?L"
    let ?h1 = "h\<lparr>th_entries := (th_entries h)[?k := filter (\<lambda>e. fst e \<noteq> item) (bucket_of ?ts ?L ?k)],
        th_count := th_count h - 1\<rparr>"
    have "bucket_of ?ts ?L' j = bucket_of ?ts ?L j" if "j \<noteq> ?k" for j
      unfolding bucket_of_def filter_filter by (rule filter_cong[OF refl]) (use that hv in blast)
    then have tab1: "thash_tab ?h1 ?L'"
      using tab False k srt by (intro thash_tab_update) (auto intro: sorted_filter simp: bucket_of_filter)
    have len: "length ?L = Suc (length ?L')"
      using length_filter_neq[OF dist inn] .
    then have c1: "unat (th_count ?h1) = length ?L'" using cnt(1) by (simp add: unat_minus_1)
    obtain h' where h': "(if HASH_SHRINK_THRESHOLD ?h1 then typesafe_hash_shrink ?h1 else Some ?h1) = Some h'"
      "thash_wf h'" "thash_flat h' = ?L'"
      using thash_shrink_room[OF tab1 _ c1] False len cnt(2) by auto
    then have "thash_del h item hval = Some (Some item, h')"
      using inn bucket False by (auto simp: thash_del_def Let_def split: if_splits)
    with h' inn show ?thesis by (intro that[of h']) simp_all
  qed
qed

subsection \<open>Iteration in table order\<close>

lemma first_bucket_Some:
  "i \<le> j \<Longrightarrow> j < i + n \<Longrightarrow> es ! j \<noteq> [] \<Longrightarrow> \<forall>m. i \<le> m \<and> m < j \<longrightarrow> es ! m = [] \<Longrightarrow>
   first_bucket n i es = Some j"
proof (induction n arbitrary: i)
  case (Suc n)
  then show ?case by (cases "i = j") auto
qed simp

lemma first_bucket_None: "\<forall>m. i \<le> m \<and> m < i + n \<longrightarrow> es ! m = [] \<Longrightarrow> first_bucket n i es = None"
  by (induction n arbitrary: i) auto

lemma first_bucket_flat:
  assumes tab: "thash_tab h (pre @ post)" and ts: "th_tabshift h \<noteq> 0" and i: "i \<le> HASH_SIZE (th_tabshift h)"
    and pre: "\<forall>e\<in>set pre. HASH_KEY (th_tabshift h) (snd e) < i"
    and post: "\<forall>e\<in>set post. i \<le> HASH_KEY (th_tabshift h) (snd e)"
  shows "map_option (\<lambda>k. hd (th_entries h ! k))
      (first_bucket (HASH_SIZE (th_tabshift h) - i) i (th_entries h)) =
    (case post of [] \<Rightarrow> None | e # _ \<Rightarrow> Some e)"
proof -
  let ?ts = "th_tabshift h"
  have bkt: "th_entries h ! m = bucket_of ?ts post m" if "i \<le> m" "m < HASH_SIZE ?ts" for m
    using nth_entries[OF tab that(2)] pre that(1) by (force simp: bucket_of_def filter_empty_conv)
  show ?thesis
  proof (cases post)
    case Nil
    then have "first_bucket (HASH_SIZE ?ts - i) i (th_entries h) = None"
      using i by (intro first_bucket_None) (simp add: bkt bucket_of_def)
    then show ?thesis using Nil by simp
  next
    case (Cons e post')
    let ?j = "HASH_KEY ?ts (snd e)"
    have j: "i \<le> ?j" "?j < HASH_SIZE ?ts" using post Cons HASH_KEY_in_table[OF tab ts] by simp_all
    have "\<forall>e'\<in>set post. ?j \<le> HASH_KEY ?ts (snd e')"
      using tab Cons by (auto simp: thash_tab_def sorted_append intro: HASH_KEY_mono)
    then have low: "th_entries h ! m = []" if "i \<le> m" "m < ?j" for m
      using that j by (force simp: bkt bucket_of_def filter_empty_conv)
    have hd: "th_entries h ! ?j = e # bucket_of ?ts post' ?j" using j Cons by (simp add: bkt bucket_of_def)
    have "first_bucket (HASH_SIZE ?ts - i) i (th_entries h) = Some ?j"
      using j low hd by (intro first_bucket_Some) auto
    then show ?thesis using Cons hd by simp
  qed
qed

lemma thash_const_first_flat:
  assumes "thash_wf h"
  shows "thash_const_first h = (case thash_flat h of [] \<Rightarrow> None | e # _ \<Rightarrow> Some (fst e))"
proof (cases "th_tabshift h = 0")
  case True
  then show ?thesis using assms by (simp add: thash_wf_def thash_tab_def thash_const_first_def)
next
  case False
  have "thash_tab h ([] @ thash_flat h)" using assms by (simp add: thash_wf_def)
  from arg_cong[OF first_bucket_flat[OF this False], of 0 "map_option fst"] show ?thesis
    by (simp add: thash_const_first_def option.map_comp comp_def split: list.split)
qed

lemma thash_const_next_flat:
  assumes wf: "thash_wf h" and flat: "thash_flat h = pre @ (x, hv) # post" and x: "x \<notin> fst ` set pre"
  shows "thash_const_next h x hv = (case post of [] \<Rightarrow> None | e # _ \<Rightarrow> Some (fst e))"
proof -
  let ?ts = "th_tabshift h" and ?k = "HASH_KEY (th_tabshift h) hv"
  have tab: "thash_tab h (pre @ (x, hv) # post)" using wf flat by (simp add: thash_wf_def)
  then have ts: "?ts \<noteq> 0" by (auto simp: thash_tab_def split: if_splits)
  have k: "?k < HASH_SIZE ?ts" using HASH_KEY_in_table[OF tab ts] .
  have srt: "\<forall>e\<in>set pre. snd e \<le> hv" "\<forall>e\<in>set post. hv \<le> snd e" "sorted (map snd post)"
    using tab by (force simp: thash_tab_def sorted_append)+
  have "\<forall>e\<in>set (filter (\<lambda>e. HASH_KEY ?ts (snd e) = ?k) pre). fst e \<noteq> x" using x by force
  then have "dropWhile (\<lambda>e. fst e \<noteq> x) (filter (\<lambda>e. HASH_KEY ?ts (snd e) = ?k) pre @ r) =
      dropWhile (\<lambda>e. fst e \<noteq> x) r" for r by (intro dropWhile_append2) blast
  then have after: "tl (dropWhile (\<lambda>e. fst e \<noteq> x) (th_entries h ! ?k)) = bucket_of ?ts post ?k"
    using nth_entries[OF tab k] by (simp add: bucket_of_def)
  show ?thesis
  proof (cases "bucket_of ?ts post ?k")
    case (Cons e b)
    then have "e \<in> set (bucket_of ?ts post ?k)" by simp
    then have e: "e \<in> set post" "HASH_KEY ?ts (snd e) = ?k" by (simp_all add: bucket_of_def)
    then obtain f post' where post: "post = f # post'" by (cases post) auto
    have "HASH_KEY ?ts (snd f) = ?k"
    proof -
      have "hv \<le> snd f" "snd f \<le> snd e" using srt e(1) post by auto
      then show ?thesis
        using HASH_KEY_mono[of hv "snd f" ?ts] HASH_KEY_mono[of "snd f" "snd e" ?ts] e(2) by simp
    qed
    then have "f = e" using Cons post by (simp add: bucket_of_def)
    then show ?thesis using Cons after post by (simp add: thash_const_next_def Let_def)
  next
    case Nil
    then have "\<forall>e\<in>set post. ?k + 1 \<le> HASH_KEY ?ts (snd e)"
      using srt(2) HASH_KEY_mono[of hv _ ?ts]
      by (auto simp: bucket_of_def filter_empty_conv Suc_le_eq order.strict_iff_order)
    moreover have "\<forall>e\<in>set (pre @ [(x, hv)]). HASH_KEY ?ts (snd e) < ?k + 1"
      using srt(1) HASH_KEY_mono[of _ hv ?ts] by (auto simp: less_Suc_eq_le)
    moreover have "thash_tab h ((pre @ [(x, hv)]) @ post)" using tab by simp
    ultimately have "map_option (\<lambda>k. hd (th_entries h ! k))
        (first_bucket (HASH_SIZE ?ts - (?k + 1)) (?k + 1) (th_entries h)) =
      (case post of [] \<Rightarrow> None | e # _ \<Rightarrow> Some e)"
      using k ts by (intro first_bucket_flat[where pre = "pre @ [(x, hv)]"]) simp_all
    from arg_cong[OF this, of "map_option fst"] show ?thesis
      using Nil after
      by (simp add: thash_const_next_def Let_def option.map_comp comp_def split: list.split)
  qed
qed

lemma thash_pop_flat:
  assumes wf: "thash_wf h"
  obtains h' where "thash_pop h = Some (map_option fst (case thash_flat h of [] \<Rightarrow> None | e # _ \<Rightarrow> Some e), h')"
    "thash_wf h'" "thash_flat h' = tl (thash_flat h)"
proof (cases "thash_flat h")
  case Nil
  have "first_bucket (HASH_SIZE (th_tabshift h)) 0 (th_entries h) = None"
    using wf Nil by (intro first_bucket_None) (simp add: thash_wf_def thash_tab_def bucket_of_def)
  then show ?thesis using Nil wf by (intro that[of h]) (simp_all add: thash_pop_def)
next
  case (Cons e L)
  let ?ts = "th_tabshift h" and ?k = "HASH_KEY (th_tabshift h) (snd e)"
  have tab: "thash_tab h (e # L)" and cnt: "unat (th_count h) = Suc (length L)"
    using wf Cons by (simp_all add: thash_wf_def)
  then have ts: "?ts \<noteq> 0" and srt: "sorted (map snd (e # L))" by (auto simp: thash_tab_def split: if_splits)
  have lt: "Suc (length L) < HASH_SIZE ?ts" using wf Cons ts by (simp add: thash_wf_def)
  have k: "?k < HASH_SIZE ?ts" using HASH_KEY_in_table[OF tab ts] .
  have bk: "th_entries h ! ?k = e # bucket_of ?ts L ?k"
    using nth_entries[OF tab k] by (simp add: bucket_of_def)
  have low: "th_entries h ! m = []" if "m < ?k" for m
  proof -
    have "\<forall>e'\<in>set (e # L). ?k \<le> HASH_KEY ?ts (snd e')" using srt by (auto intro: HASH_KEY_mono)
    then show ?thesis using that k nth_entries[OF tab, of m] by (force simp: bucket_of_def filter_empty_conv)
  qed
  have fb: "first_bucket (HASH_SIZE ?ts) 0 (th_entries h) = Some ?k"
    using k bk low by (intro first_bucket_Some) auto
  let ?h1 = "h\<lparr>th_entries := (th_entries h)[?k := bucket_of ?ts L ?k], th_count := th_count h - 1\<rparr>"
  have tab1: "thash_tab ?h1 L"
    using tab ts k srt by (intro thash_tab_update) (auto simp: bucket_of_def)
  obtain h' where "(if HASH_SHRINK_THRESHOLD ?h1 then typesafe_hash_shrink ?h1 else Some ?h1) = Some h'"
    "thash_wf h'" "thash_flat h' = L"
    using thash_shrink_room[OF tab1] ts cnt lt by (auto simp: unat_minus_1)
  then show ?thesis
    using Cons by (intro that[of h']) (auto simp: thash_pop_def fb bk Let_def split: if_splits)
qed

subsection \<open>A set of items with distinct keys\<close>

text \<open>
  What the table relies on: \<open>cmpfn\<close> returning 0 is an equivalence on valid keys, and equal keys
  have equal hash values. \<open>thash_ok\<close> is the invariant of a table of items with valid keys, no
  two of them equal under \<open>cmpfn\<close>, each stored with the hash value of its key.
\<close>

locale hash_keys =
  fixes cmpfn :: "'k \<Rightarrow> 'k \<Rightarrow> int" and hashfn :: "'k \<Rightarrow> u32" and valid :: "'k \<Rightarrow> bool"
  assumes cmp_refl: "valid a \<Longrightarrow> cmpfn a a = 0"
    and cmp_sym: "valid a \<Longrightarrow> valid b \<Longrightarrow> cmpfn a b = 0 \<Longrightarrow> cmpfn b a = 0"
    and cmp_trans: "valid a \<Longrightarrow> valid b \<Longrightarrow> valid c \<Longrightarrow> cmpfn a b = 0 \<Longrightarrow> cmpfn b c = 0 \<Longrightarrow> cmpfn a c = 0"
    and cmp_hash: "valid a \<Longrightarrow> valid b \<Longrightarrow> cmpfn a b = 0 \<Longrightarrow> hashfn a = hashfn b"

definition thash_items :: "'a thash \<Rightarrow> 'a list" where
  "thash_items h = map fst (thash_flat h)"

definition thash_ok ::
  "('k \<Rightarrow> 'k \<Rightarrow> int) \<Rightarrow> ('k \<Rightarrow> u32) \<Rightarrow> ('k \<Rightarrow> bool) \<Rightarrow> ('a \<Rightarrow> 'k) \<Rightarrow> 'a thash \<Rightarrow> bool" where
  "thash_ok cmpfn hashfn valid keyof h \<longleftrightarrow>
     thash_wf h \<and> distinct (thash_items h) \<and>
     (\<forall>(x, hv) \<in> set (thash_flat h). valid (keyof x) \<and> hv = hashfn (keyof x)) \<and>
     (\<forall>x \<in> set (thash_items h). \<forall>y \<in> set (thash_items h). cmpfn (keyof x) (keyof y) = 0 \<longrightarrow> x = y)"

lemma thash_ok_init: "thash_ok cmpfn hashfn valid keyof thash_init"
  by (simp add: thash_ok_def thash_wf_def thash_tab_def thash_items_def thash_flat_def thash_init_def)

lemma thash_ok_cong:
  assumes "\<And>x. x \<in> set (thash_items h) \<Longrightarrow> keyof x = keyof' x"
  shows "thash_ok cmpfn hashfn valid keyof h \<longleftrightarrow> thash_ok cmpfn hashfn valid keyof' h"
  using assms by (fastforce simp: thash_ok_def thash_items_def)

context hash_keys
begin

lemma find_iff:
  assumes ok: "thash_ok cmpfn hashfn valid keyof h" and k: "valid k"
  shows "thash_find cmpfn hashfn keyof h k = Some x \<longleftrightarrow>
    x \<in> set (thash_items h) \<and> cmpfn (keyof x) k = 0"
proof -
  let ?P = "\<lambda>e. snd e = hashfn k \<and> cmpfn (keyof (fst e)) k = 0"
  have wf: "thash_wf h" using ok by (simp add: thash_ok_def)
  have val: "valid (keyof y)" "hv = hashfn (keyof y)" if "(y, hv) \<in> set (thash_flat h)" for y hv
    using ok that by (auto simp: thash_ok_def)
  have uniq: "y = x" if "x \<in> set (thash_items h)" "y \<in> set (thash_items h)"
    "cmpfn (keyof x) k = 0" "cmpfn (keyof y) k = 0" for x y
  proof -
    have "valid (keyof x)" "valid (keyof y)" using val that(1,2) by (auto simp: thash_items_def)
    then have "cmpfn (keyof y) (keyof x) = 0" using that(3,4) k cmp_sym cmp_trans by blast
    then show ?thesis using ok that by (auto simp: thash_ok_def)
  qed
  show ?thesis
  proof
    assume "thash_find cmpfn hashfn keyof h k = Some x"
    then obtain e where "find ?P (thash_flat h) = Some e" "fst e = x"
      by (auto simp: thash_find_flat[OF wf])
    then show "x \<in> set (thash_items h) \<and> cmpfn (keyof x) k = 0"
      by (auto simp: find_Some_iff thash_items_def dest: nth_mem)
  next
    assume x: "x \<in> set (thash_items h) \<and> cmpfn (keyof x) k = 0"
    then obtain hv where hv: "(x, hv) \<in> set (thash_flat h)" by (auto simp: thash_items_def)
    then have "?P (x, hv)" using x val[OF hv] cmp_hash k by simp
    then obtain e where e: "find ?P (thash_flat h) = Some e"
      using hv by (cases "find ?P (thash_flat h)") (auto simp: find_None_iff)
    then have "fst e \<in> set (thash_items h)" "cmpfn (keyof (fst e)) k = 0"
      by (auto simp: find_Some_iff thash_items_def)
    with e x uniq show "thash_find cmpfn hashfn keyof h k = Some x"
      by (auto simp: thash_find_flat[OF wf])
  qed
qed

lemma find_None_iff:
  assumes "thash_ok cmpfn hashfn valid keyof h" "valid k"
  shows "thash_find cmpfn hashfn keyof h k = None \<longleftrightarrow>
    (\<forall>x \<in> set (thash_items h). cmpfn (keyof x) k \<noteq> 0)"
  using find_iff[OF assms] by (metis not_None_eq)

lemma add_new:
  assumes ok: "thash_ok cmpfn hashfn valid keyof h" and x: "valid (keyof x)"
    and new: "\<forall>y \<in> set (thash_items h). cmpfn (keyof y) (keyof x) \<noteq> 0"
    and room: "Suc (length (thash_items h)) < 2 ^ 30"
  obtains h' where "thash_add cmpfn hashfn keyof h x = Some (None, h')"
    "thash_ok cmpfn hashfn valid keyof h'" "mset (thash_items h') = add_mset x (mset (thash_items h))"
proof -
  have wf: "thash_wf h" and srt: "sorted (map snd (thash_flat h))"
    using ok by (auto simp: thash_ok_def thash_wf_def thash_tab_def)
  have miss: "find (\<lambda>e. snd e = hashfn (keyof x) \<and> cmpfn (keyof (fst e)) (keyof x) = 0) (thash_flat h) = None"
    using new by (auto simp: List.find_None_iff thash_items_def)
  obtain h' where h': "thash_add cmpfn hashfn keyof h x = Some (None, h')" "thash_wf h'"
    "thash_flat h' = bucket_insert x (hashfn (keyof x)) (thash_flat h)"
    using thash_add_flat[where hashfn = hashfn and cmpfn = cmpfn and keyof = keyof and item = x, OF wf _ miss[symmetric]] room by (auto simp: thash_items_def)
  have m: "mset (thash_items h') = add_mset x (mset (thash_items h))"
    using h'(3) srt by (simp add: thash_items_def set_bucket_insert)
  have s: "set (thash_items h') = insert x (set (thash_items h))"
    using arg_cong[OF m, of set_mset] by simp
  have "x \<notin> set (thash_items h)" using new cmp_refl[OF x] by auto
  then have "distinct (thash_items h')"
    using ok m by (metis distinct.simps(2) mset.simps(2) mset_eq_imp_distinct_iff thash_ok_def)
  moreover have "cmpfn (keyof x) (keyof y) \<noteq> 0" if "y \<in> set (thash_items h)" for y
    using that new x ok cmp_sym[of "keyof x" "keyof y"] by (fastforce simp: thash_ok_def thash_items_def)
  ultimately have "thash_ok cmpfn hashfn valid keyof h'"
    using ok h' x new s srt unfolding thash_ok_def by (auto simp: set_bucket_insert)
  with h' m show ?thesis using that by blast
qed

lemma add_existing:
  assumes ok: "thash_ok cmpfn hashfn valid keyof h" and x: "valid (keyof x)"
    and y: "y \<in> set (thash_items h)" "cmpfn (keyof y) (keyof x) = 0"
    and room: "Suc (length (thash_items h)) < 2 ^ 30"
  obtains h' where "thash_add cmpfn hashfn keyof h x = Some (Some y, h')"
    "thash_ok cmpfn hashfn valid keyof h'" "thash_items h' = thash_items h"
proof -
  have wf: "thash_wf h" using ok by (simp add: thash_ok_def)
  have "thash_find cmpfn hashfn keyof h (keyof x) = Some y" using find_iff[OF ok x] y by blast
  then obtain e where e: "find (\<lambda>e. snd e = hashfn (keyof x) \<and> cmpfn (keyof (fst e)) (keyof x) = 0)
      (thash_flat h) = Some e" "fst e = y" by (auto simp: thash_find_flat[OF wf])
  obtain h' where "thash_add cmpfn hashfn keyof h x = Some (Some y, h')" "thash_wf h'"
    "thash_flat h' = thash_flat h"
    using thash_add_flat[where hashfn = hashfn and cmpfn = cmpfn and keyof = keyof and item = x, OF wf _ e(1)[symmetric]] room e(2) by (auto simp: thash_items_def)
  then show ?thesis using ok that[of h'] by (simp add: thash_ok_def thash_items_def)
qed

lemma del_item:
  assumes ok: "thash_ok cmpfn hashfn valid keyof h"
  obtains h' where "thash_del h x (hashfn (keyof x)) =
      Some (if x \<in> set (thash_items h) then Some x else None, h')"
    "thash_ok cmpfn hashfn valid keyof h'" "thash_items h' = filter (\<lambda>y. y \<noteq> x) (thash_items h)"
proof -
  have "\<forall>e\<in>set (thash_flat h). fst e = x \<longrightarrow> snd e = hashfn (keyof x)" "thash_wf h"
    "distinct (map fst (thash_flat h))" using ok by (auto simp: thash_ok_def thash_items_def)
  then obtain h' where h': "thash_del h x (hashfn (keyof x)) =
      Some (if x \<in> set (thash_items h) then Some x else None, h')" "thash_wf h'"
    "thash_flat h' = filter (\<lambda>e. fst e \<noteq> x) (thash_flat h)"
    using thash_del_flat[of h x "hashfn (keyof x)"] by (auto simp: thash_items_def)
  then have it: "thash_items h' = filter (\<lambda>y. y \<noteq> x) (thash_items h)"
    by (simp add: thash_items_def filter_map comp_def)
  moreover have "thash_ok cmpfn hashfn valid keyof h'"
    using ok h' unfolding thash_ok_def it by auto
  ultimately show ?thesis using h' that by blast
qed

end

end
