(* ===== verification/Radix_Tree.thy ===== *)
theory Radix_Tree
  imports Frr_Prelude "HOL-Library.Tree" "HOL-Library.Multiset" "HOL-Library.List_Lexorder"
begin

text \<open>
  Binary trees whose nodes carry bit strings, the abstract shape of the routing table of
  lib/table.c: below a node with key \<open>K a\<close>, keys on the left continue it with a 0, keys on the
  right with a 1 (\<open>radix\<close>). A position in a tree is a context, the list of frames from the
  position up to the root (\<open>plug\<close>); the walks of the program are followed with it. The theory
  shows that the order of iteration (preorder) is the lexicographic order of the keys and where
  the keys with a given initial segment lie.
\<close>

subsection \<open>Radix trees\<close>

fun radix :: "('a \<Rightarrow> bool list) \<Rightarrow> 'a tree \<Rightarrow> bool" where
  "radix K Leaf \<longleftrightarrow> True"
| "radix K (Node l a r) \<longleftrightarrow>
     (\<forall>b \<in> set_tree l. prefix (K a @ [False]) (K b)) \<and>
     (\<forall>b \<in> set_tree r. prefix (K a @ [True]) (K b)) \<and> radix K l \<and> radix K r"

lemma radix_cong: "(\<And>a. a \<in> set_tree t \<Longrightarrow> K a = K' a) \<Longrightarrow> radix K t = radix K' t"
  by (induction t) auto

text \<open>Key order: a proper initial segment is smaller; otherwise the first different bit decides.\<close>

lemma less_extend: "prefix (k @ [b]) k' \<Longrightarrow> k < (k' :: bool list)"
  by (auto simp: prefix_def list_less_def lexord_append_rightI)

lemma less_branch: "prefix (k @ [False]) x \<Longrightarrow> prefix (k @ [True]) y \<Longrightarrow> x < (y :: bool list)"
  by (auto simp: prefix_def list_less_def lexord_append_left_rightI)

lemma less_cases:
  "x < (y :: bool list) \<Longrightarrow>
   strict_prefix x y \<or> (\<exists>k. prefix (k @ [False]) x \<and> prefix (k @ [True]) y)"
proof (induction x arbitrary: y)
  case (Cons b x)
  then obtain c y' where y: "y = c # y'" by (cases y) auto
  show ?case
  proof (cases "b = c")
    case True
    then have "x < y'" using Cons.prems y by simp
    then consider "strict_prefix x y'" | k where "prefix (k @ [False]) x" "prefix (k @ [True]) y'"
      using Cons.IH by blast
    then show ?thesis
    proof cases
      case 2
      then have "prefix ((b # k) @ [False]) (b # x)" "prefix ((b # k) @ [True]) y" using True y by simp_all
      then show ?thesis by blast
    qed (use True y in simp)
  next
    case False
    then have "prefix ([] @ [False]) (b # x)" "prefix ([] @ [True]) y" using Cons.prems y by auto
    then show ?thesis by blast
  qed
qed (simp add: strict_prefix_def)

lemma preorder_sorted: "radix K t \<Longrightarrow> sorted_wrt (<) (map K (preorder t))"
proof (induction t)
  case (Node l a r)
  then have "\<forall>b\<in>set_tree l \<union> set_tree r. K a < K b"
    by (auto intro: less_extend)
  moreover have "\<forall>b\<in>set_tree l. \<forall>c\<in>set_tree r. K b < K c"
    using Node.prems less_branch by auto
  ultimately show ?case using Node by (auto simp: sorted_wrt_append set_preorder)
qed simp

lemma preorder_K_inj: "radix K t \<Longrightarrow> inj_on K (set_tree t) \<and> distinct (preorder t)"
proof -
  assume "radix K t"
  then have "distinct (map K (preorder t))"
    using preorder_sorted strict_sorted_iff by blast
  then show ?thesis by (simp add: distinct_map set_preorder)
qed

subsection \<open>Contexts\<close>

text \<open>A frame is the side on which the hole lies, the node above it and the other subtree.\<close>

type_synonym 'a frame = "bool \<times> 'a \<times> 'a tree"

fun mk_node :: "bool \<Rightarrow> 'a tree \<Rightarrow> 'a \<Rightarrow> 'a tree \<Rightarrow> 'a tree" where
  "mk_node d t a sib = (if d then Node sib a t else Node t a sib)"

fun plug :: "'a frame list \<Rightarrow> 'a tree \<Rightarrow> 'a tree" where
  "plug [] t = t"
| "plug ((d, a, sib) # c) t = plug c (mk_node d t a sib)"

fun ctx_nodes :: "'a frame list \<Rightarrow> 'a set" where
  "ctx_nodes [] = {}"
| "ctx_nodes ((d, a, sib) # c) = insert a (set_tree sib \<union> ctx_nodes c)"

fun ctx_list :: "'a frame list \<Rightarrow> 'a list" where
  "ctx_list [] = []"
| "ctx_list ((d, a, sib) # c) = a # preorder sib @ ctx_list c"

lemma set_ctx_list: "set (ctx_list c) = ctx_nodes c"
  by (induction c rule: ctx_list.induct) (auto simp: set_preorder)

lemma set_tree_plug [simp]: "set_tree (plug c t) = ctx_nodes c \<union> set_tree t"
  by (induction c t rule: plug.induct) auto

lemma size_plug: "size (plug c t) = size t + length (ctx_list c)"
  by (induction c t rule: plug.induct) auto

lemma plug_append: "plug (c @ c') t = plug c' (plug c t)"
  by (induction c t rule: plug.induct) auto

lemma preorder_plug_mset:
  "mset (preorder (plug c t)) = mset (preorder t) + mset (ctx_list c)"
  by (induction c t rule: plug.induct) (auto simp: ac_simps)

lemma plug_at: "a \<in> set_tree t \<Longrightarrow> \<exists>c l r. t = plug c (Node l a r)"
proof (induction t)
  case (Node l x r)
  consider "a = x" | "a \<in> set_tree l" | "a \<in> set_tree r" using Node.prems by auto
  then show ?case
  proof cases
    case 1 then show ?thesis by (intro exI[of _ "[]"]) auto
  next
    case 2
    then obtain c l' r' where "l = plug c (Node l' a r')" using Node.IH(1) by blast
    then have "Node l x r = plug (c @ [(False, x, r)]) (Node l' a r')" by (simp add: plug_append)
    then show ?thesis by blast
  next
    case 3
    then obtain c l' r' where "r = plug c (Node l' a r')" using Node.IH(2) by blast
    then have "Node l x r = plug (c @ [(True, x, l)]) (Node l' a r')" by (simp add: plug_append)
    then show ?thesis by blast
  qed
qed simp

text \<open>What precedes and what follows the hole in preorder.\<close>

fun ctx_before :: "'a frame list \<Rightarrow> 'a list" where
  "ctx_before [] = []"
| "ctx_before ((d, a, sib) # c) = ctx_before c @ a # (if d then preorder sib else [])"

fun ctx_after :: "'a frame list \<Rightarrow> 'a list" where
  "ctx_after [] = []"
| "ctx_after ((d, a, sib) # c) = (if d then [] else preorder sib) @ ctx_after c"

lemma preorder_plug: "preorder (plug c t) = ctx_before c @ preorder t @ ctx_after c"
  by (induction c t rule: plug.induct) auto

text \<open>The keys that may stand in the hole, and the part of \<open>radix\<close> outside of it.\<close>

fun fits :: "('a \<Rightarrow> bool list) \<Rightarrow> 'a frame list \<Rightarrow> bool list \<Rightarrow> bool" where
  "fits K [] k \<longleftrightarrow> True"
| "fits K ((d, a, sib) # c) k \<longleftrightarrow> prefix (K a @ [d]) k \<and> fits K c k"

fun ctx_radix :: "('a \<Rightarrow> bool list) \<Rightarrow> 'a frame list \<Rightarrow> bool" where
  "ctx_radix K [] \<longleftrightarrow> True"
| "ctx_radix K ((d, a, sib) # c) \<longleftrightarrow>
     radix K sib \<and> (\<forall>b \<in> set_tree sib. prefix (K a @ [\<not> d]) (K b) \<and> fits K c (K b)) \<and>
     fits K c (K a) \<and> ctx_radix K c"

lemma fits_mono: "prefix k k' \<Longrightarrow> fits K c k \<Longrightarrow> fits K c k'"
  by (induction c rule: ctx_nodes.induct) (auto intro: prefix_order.trans)

lemma radix_plug:
  "radix K (plug c t) \<longleftrightarrow> radix K t \<and> (\<forall>b \<in> set_tree t. fits K c (K b)) \<and> ctx_radix K c"
proof (induction c t rule: plug.induct)
  case (2 d a sib c t)
  then show ?case by (cases d) auto
qed simp

lemma ctx_radix_cong:
  "(\<And>a. a \<in> ctx_nodes c \<Longrightarrow> K a = K' a) \<Longrightarrow> ctx_radix K c = ctx_radix K' c \<and> (\<forall>k. fits K c k = fits K' c k)"
proof (induction c rule: ctx_nodes.induct)
  case (2 d a sib c)
  then show ?case using radix_cong[of sib K K'] by auto
qed simp

end
