(* ===== verification/Route_Table.thy ===== *)
theory Route_Table
  imports Prefix Thash Radix_Tree
begin

text \<open>
  The routing table, lib/table.c and lib/table.h: a path-compressed radix tree of reference
  counted nodes with parent pointers, and a hash table of the same nodes for exact lookups.
  The state is an explicit store: addresses map to nodes, an address without a node is
  unallocated or freed, and following it is \<open>None\<close>, as is a failed \<^verbatim>\<open>assert\<close>. Loops and the
  recursion of \<^verbatim>\<open>route_node_delete\<close> are \<open>partial_function\<close>s, for which \<open>None\<close> is also
  divergence. Nodes are created and destroyed by the default delegate, and no \<^verbatim>\<open>cleanup\<close>
  hook is set. The pointer \<^verbatim>\<open>node->table\<close> always leads to the one table of the state.
\<close>

subsection \<open>State\<close>

type_synonym addr = nat

text \<open>\<^verbatim>\<open>struct route_node\<close>; \<open>rn_hashval\<close> is the hash value of its \<^verbatim>\<open>nodehash\<close> item.\<close>

record 'i route_node =
  rn_p :: prefix
  rn_parent :: "addr option"
  l_left :: "addr option"
  l_right :: "addr option"
  rn_lock :: u32
  rn_hashval :: u32
  rn_info :: "'i option"

text \<open>\<^verbatim>\<open>struct route_table\<close> with the store of its nodes; addresses from \<open>rt_brk\<close> on are fresh.\<close>

record 'i route_table =
  rt_mem :: "addr \<rightharpoonup> 'i route_node"
  rt_brk :: addr
  rt_top :: "addr option"
  rt_hash :: "addr thash"
  rt_count :: u64

definition rn_link :: "'i route_node \<Rightarrow> bool \<Rightarrow> addr option" where
  "rn_link n b = (if b then l_right n else l_left n)"

definition rn_set_link :: "'i route_node \<Rightarrow> bool \<Rightarrow> addr option \<Rightarrow> 'i route_node" where
  "rn_set_link n b v = (if b then n\<lparr>l_right := v\<rparr> else n\<lparr>l_left := v\<rparr>)"

definition rn_upd :: "'i route_table \<Rightarrow> addr \<Rightarrow> ('i route_node \<Rightarrow> 'i route_node) \<Rightarrow> 'i route_table option" where
  "rn_upd s a f = do { n \<leftarrow> rt_mem s a; Some (s\<lparr>rt_mem := (rt_mem s)(a \<mapsto> f n)\<rparr>) }"

text \<open>What the hash table compares: the prefix of the node an item is embedded in.\<close>

definition rn_keyof :: "'i route_table \<Rightarrow> addr \<Rightarrow> prefix" where
  "rn_keyof s a = (case rt_mem s a of Some n \<Rightarrow> rn_p n | None \<Rightarrow> prefix_zero)"

definition route_table_init :: "'i route_table" where
  "route_table_init = \<lparr>rt_mem = Map.empty, rt_brk = 0, rt_top = None, rt_hash = thash_init, rt_count = 0\<rparr>"

subsection \<open>Nodes\<close>

definition route_lock_node :: "'i route_table \<Rightarrow> addr \<Rightarrow> 'i route_table option" where
  "route_lock_node s a = rn_upd s a (\<lambda>n. n\<lparr>rn_lock := rn_lock n + 1\<rparr>)"

definition route_node_create :: "'i route_table \<Rightarrow> addr \<times> 'i route_table" where
  "route_node_create s =
     (rt_brk s,
      s\<lparr>rt_brk := rt_brk s + 1,
        rt_mem := (rt_mem s)(rt_brk s \<mapsto> \<lparr>rn_p = prefix_zero, rn_parent = None, l_left = None,
          l_right = None, rn_lock = 0, rn_hashval = 0, rn_info = None\<rparr>)\<rparr>)"

text \<open>\<^verbatim>\<open>rn_hash_node_add\<close>, \<open>_del\<close> and \<open>_find\<close>, the instances of the hash table operations with
  \<^verbatim>\<open>route_table_hash_cmp\<close> and \<^verbatim>\<open>prefix_hash_key\<close>.\<close>

definition rn_hash_node_add :: "'i route_table \<Rightarrow> addr \<Rightarrow> 'i route_table option" where
  "rn_hash_node_add s a =
     do { s \<leftarrow> rn_upd s a (\<lambda>n. n\<lparr>rn_hashval := prefix_hash_key (rn_p n)\<rparr>);
          (old, h) \<leftarrow> thash_add prefix_cmp prefix_hash_key (rn_keyof s) (rt_hash s) a;
          Some (s\<lparr>rt_hash := h\<rparr>) }"

definition rn_hash_node_del :: "'i route_table \<Rightarrow> addr \<Rightarrow> 'i route_table option" where
  "rn_hash_node_del s a =
     do { n \<leftarrow> rt_mem s a;
          (x, h) \<leftarrow> thash_del (rt_hash s) a (rn_hashval n);
          Some (s\<lparr>rt_hash := h\<rparr>) }"

definition rn_hash_node_find :: "'i route_table \<Rightarrow> prefix \<Rightarrow> addr option" where
  "rn_hash_node_find s p = thash_find prefix_cmp prefix_hash_key (rn_keyof s) (rt_hash s) p"

definition route_node_set :: "'i route_table \<Rightarrow> prefix \<Rightarrow> (addr \<times> 'i route_table) option" where
  "route_node_set s p =
     do { let (a, s) = route_node_create s;
          s \<leftarrow> rn_upd s a (\<lambda>n. n\<lparr>rn_p := prefix_copy (rn_p n) p\<rparr>);
          s \<leftarrow> rn_hash_node_add s a;
          Some (a, s) }"

definition route_node_free :: "'i route_table \<Rightarrow> addr \<Rightarrow> 'i route_table option" where
  "route_node_free s a =
     do { n \<leftarrow> rt_mem s a;
          Some (s\<lparr>rt_mem := (rt_mem s)(a := None)\<rparr>) }"

subsection \<open>Prefixes in the tree\<close>

text \<open>The two loops of \<^verbatim>\<open>route_common\<close>. The first copies equal bytes, at most \<open>n\<close> of them;
  the second advances bit by bit inside the byte where it stopped.\<close>

fun common_copy :: "nat \<Rightarrow> nat \<Rightarrow> u8 list \<Rightarrow> u8 list \<Rightarrow> u8 list \<Rightarrow> nat \<times> u8 list" where
  "common_copy 0 i np pp newp = (i, newp)"
| "common_copy (Suc n) i np pp newp =
     (if np ! i = pp ! i then common_copy n (Suc i) np pp (newp[i := np ! i]) else (i, newp))"

fun common_len :: "nat \<Rightarrow> nat \<Rightarrow> u8 \<Rightarrow> u8 \<Rightarrow> nat" where
  "common_len 0 len msk diff = len"
| "common_len (Suc n) len msk diff =
     (if msk AND diff = 0 then common_len n (len + 1) (drop_bit 1 msk) diff else len)"

definition route_common :: "prefix \<Rightarrow> prefix \<Rightarrow> prefix \<Rightarrow> prefix" where
  "route_common n p new =
     (let np = u_val n; pp = u_val p;
          (i, newp) = common_copy (prefixlen p div 8) 0 np pp (u_val new);
          len = i * 8
      in if len \<noteq> prefixlen p then
           (let diff = np ! i XOR pp ! i;
                len = common_len (prefixlen p - len) len 0x80 diff
            in new\<lparr>prefixlen := len, u_val := newp[i := np ! i AND maskbit ! (len mod 8)]\<rparr>)
         else new\<lparr>prefixlen := len, u_val := newp\<rparr>)"

definition set_link :: "'i route_table \<Rightarrow> addr \<Rightarrow> addr \<Rightarrow> 'i route_table option" where
  "set_link s node new =
     do { n \<leftarrow> rt_mem s node;
          w \<leftarrow> rt_mem s new;
          let bit = prefix_bit (u_val (rn_p w)) (prefixlen (rn_p n));
          s \<leftarrow> rn_upd s node (\<lambda>n. rn_set_link n bit (Some new));
          rn_upd s new (\<lambda>n. n\<lparr>rn_parent := Some node\<rparr>) }"

subsection \<open>Lookups\<close>

partial_function (option) match_walk ::
  "'i route_table \<Rightarrow> prefix \<Rightarrow> addr option \<Rightarrow> addr option \<Rightarrow> addr option option" where
  [code]: "match_walk s p node matched =
     (case node of
        None \<Rightarrow> Some matched
      | Some a \<Rightarrow>
          do { n \<leftarrow> rt_mem s a;
               if prefixlen (rn_p n) \<le> prefixlen p \<and> prefix_match (rn_p n) p then
                 (let matched = (if rn_info n \<noteq> None then Some a else matched)
                  in if prefixlen (rn_p n) = prefixlen p then Some matched
                     else match_walk s p (rn_link n (prefix_bit (u_val p) (prefixlen (rn_p n)))) matched)
               else Some matched })"

definition route_node_match :: "'i route_table \<Rightarrow> prefix \<Rightarrow> (addr option \<times> 'i route_table) option" where
  "route_node_match s p =
     do { matched \<leftarrow> match_walk s p (rt_top s) None;
          case matched of
            Some a \<Rightarrow> do { s \<leftarrow> route_lock_node s a; Some (Some a, s) }
          | None \<Rightarrow> Some (None, s) }"

text \<open>
  The search key of the exact lookups is a stack variable of which \<^verbatim>\<open>prefix_copy\<close> sets the
  bytes of the family; the remaining bytes are not read, and are 0 here.
\<close>

definition search_key :: "prefix \<Rightarrow> prefix option" where
  "search_key pu = apply_mask (prefix_copy prefix_zero pu)"

definition route_node_lookup :: "'i route_table \<Rightarrow> prefix \<Rightarrow> (addr option \<times> 'i route_table) option" where
  "route_node_lookup s pu =
     do { p \<leftarrow> search_key pu;
          case rn_hash_node_find s p of
            None \<Rightarrow> Some (None, s)
          | Some a \<Rightarrow>
              do { n \<leftarrow> rt_mem s a;
                   if rn_info n \<noteq> None then do { s \<leftarrow> route_lock_node s a; Some (Some a, s) }
                   else Some (None, s) } }"

definition route_node_lookup_maynull ::
  "'i route_table \<Rightarrow> prefix \<Rightarrow> (addr option \<times> 'i route_table) option" where
  "route_node_lookup_maynull s pu =
     do { p \<leftarrow> search_key pu;
          case rn_hash_node_find s p of
            None \<Rightarrow> Some (None, s)
          | Some a \<Rightarrow> do { s \<leftarrow> route_lock_node s a; Some (Some a, s) } }"

subsection \<open>Insertion\<close>

text \<open>The walk of \<^verbatim>\<open>route_node_get\<close>: \<open>Inl\<close> the node with the very prefix, or \<open>Inr\<close> the node
  that stopped the walk (if any) and the last matching node above it.\<close>

partial_function (option) get_walk ::
  "'i route_table \<Rightarrow> prefix \<Rightarrow> addr option \<Rightarrow> addr option \<Rightarrow> (addr + addr option \<times> addr option) option" where
  [code]: "get_walk s p node match =
     (case node of
        None \<Rightarrow> Some (Inr (None, match))
      | Some a \<Rightarrow>
          do { n \<leftarrow> rt_mem s a;
               if prefixlen (rn_p n) \<le> prefixlen p \<and> prefix_match (rn_p n) p then
                 if prefixlen (rn_p n) = prefixlen p then Some (Inl a)
                 else get_walk s p (rn_link n (prefix_bit (u_val p) (prefixlen (rn_p n)))) (Some a)
               else Some (Inr (Some a, match)) })"

definition link_below :: "'i route_table \<Rightarrow> addr option \<Rightarrow> addr \<Rightarrow> 'i route_table option" where
  "link_below s match new =
     (case match of Some a \<Rightarrow> set_link s a new | None \<Rightarrow> Some (s\<lparr>rt_top := Some new\<rparr>))"

text \<open>The branching node put above a node that is not on the path to \<^verbatim>\<open>p\<close>.\<close>

definition insert_above :: "'i route_table \<Rightarrow> prefix \<Rightarrow> addr \<Rightarrow> addr option \<Rightarrow> (addr \<times> 'i route_table) option" where
  "insert_above s p a match =
     do { let (new, s) = route_node_create s;
          n \<leftarrow> rt_mem s a;
          s \<leftarrow> rn_upd s new (\<lambda>w. w\<lparr>rn_p := (route_common (rn_p n) p (rn_p w))\<lparr>family := family p\<rparr>\<rparr>);
          s \<leftarrow> set_link s new a;
          s \<leftarrow> rn_hash_node_add s new;
          s \<leftarrow> link_below s match new;
          Some (new, s) }"

definition route_node_insert ::
  "'i route_table \<Rightarrow> prefix \<Rightarrow> addr option \<Rightarrow> addr option \<Rightarrow> (addr \<times> 'i route_table) option" where
  "route_node_insert s p node match =
     do { (new, s) \<leftarrow>
            (case node of
               None \<Rightarrow>
                 do { (new, s) \<leftarrow> route_node_set s p;
                      s \<leftarrow> link_below s match new;
                      Some (new, s) }
             | Some a \<Rightarrow>
                 do { (new, s) \<leftarrow> insert_above s p a match;
                      w \<leftarrow> rt_mem s new;
                      if prefixlen (rn_p w) \<noteq> prefixlen p then
                        do { (leaf, s) \<leftarrow> route_node_set s p;
                             s \<leftarrow> set_link s new leaf;
                             Some (leaf, s\<lparr>rt_count := rt_count s + 1\<rparr>) }
                      else Some (new, s) });
          let s = s\<lparr>rt_count := rt_count s + 1\<rparr>;
          s \<leftarrow> route_lock_node s new;
          Some (new, s) }"

definition route_node_get :: "'i route_table \<Rightarrow> prefix \<Rightarrow> (addr \<times> 'i route_table) option" where
  "route_node_get s pu =
     do { p \<leftarrow> search_key pu;
          hit \<leftarrow> (case rn_hash_node_find s p of
                    None \<Rightarrow> Some None
                  | Some a \<Rightarrow> do { n \<leftarrow> rt_mem s a; Some (if rn_info n \<noteq> None then Some a else None) });
          case hit of
            Some a \<Rightarrow> do { s \<leftarrow> route_lock_node s a; Some (a, s) }
          | None \<Rightarrow>
              do { w \<leftarrow> get_walk s p (rt_top s) None;
                   case w of
                     Inl a \<Rightarrow> do { s \<leftarrow> route_lock_node s a; Some (a, s) }
                   | Inr (node, match) \<Rightarrow> route_node_insert s p node match } }"

subsection \<open>Removal\<close>

text \<open>What \<^verbatim>\<open>route_node_delete\<close> does to a node with at most one child.\<close>

definition route_node_unlink ::
  "'i route_table \<Rightarrow> addr \<Rightarrow> addr option \<Rightarrow> addr option \<Rightarrow> 'i route_table option" where
  "route_node_unlink s a child parent =
     do { s \<leftarrow> (case child of None \<Rightarrow> Some s | Some c \<Rightarrow> rn_upd s c (\<lambda>w. w\<lparr>rn_parent := parent\<rparr>));
          s \<leftarrow> (case parent of
                  None \<Rightarrow> Some (s\<lparr>rt_top := child\<rparr>)
                | Some q \<Rightarrow> rn_upd s q (\<lambda>w. if l_left w = Some a then w\<lparr>l_left := child\<rparr>
                                             else w\<lparr>l_right := child\<rparr>));
          s \<leftarrow> rn_hash_node_del (s\<lparr>rt_count := rt_count s - 1\<rparr>) a;
          route_node_free s a }"

partial_function (option) route_node_delete :: "'i route_table \<Rightarrow> addr \<Rightarrow> 'i route_table option" where
  [code]: "route_node_delete s a =
     do { n \<leftarrow> rt_mem s a;
          cassert (rn_lock n = 0);
          if l_left n \<noteq> None \<and> l_right n \<noteq> None then Some s
          else do {
            s \<leftarrow> route_node_unlink s a (if l_left n \<noteq> None then l_left n else l_right n) (rn_parent n);
            case rn_parent n of
              None \<Rightarrow> Some s
            | Some q \<Rightarrow>
                do { w \<leftarrow> rt_mem s q;
                     if rn_lock w = 0 then route_node_delete s q else Some s } } }"

definition route_unlock_node :: "'i route_table \<Rightarrow> addr \<Rightarrow> 'i route_table option" where
  "route_unlock_node s a =
     do { n \<leftarrow> rt_mem s a;
          cassert (rn_lock n > 0);
          s \<leftarrow> rn_upd s a (\<lambda>n. n\<lparr>rn_lock := rn_lock n - 1\<rparr>);
          if rn_lock n - 1 = 0 then route_node_delete s a else Some s }"

subsection \<open>Iteration\<close>

definition route_top :: "'i route_table \<Rightarrow> (addr option \<times> 'i route_table) option" where
  "route_top s =
     (case rt_top s of
        None \<Rightarrow> Some (None, s)
      | Some a \<Rightarrow> do { s \<leftarrow> route_lock_node s a; Some (Some a, s) })"

text \<open>The loop going upwards, shared by \<^verbatim>\<open>route_get_subtree_next\<close> and \<^verbatim>\<open>route_next\<close>.\<close>

partial_function (option) route_get_subtree_next :: "'i route_table \<Rightarrow> addr \<Rightarrow> addr option option" where
  [code]: "route_get_subtree_next s a =
     do { n \<leftarrow> rt_mem s a;
          case rn_parent n of
            None \<Rightarrow> Some None
          | Some q \<Rightarrow>
              do { w \<leftarrow> rt_mem s q;
                   if l_left w = Some a \<and> l_right w \<noteq> None then Some (l_right w)
                   else route_get_subtree_next s q } }"

text \<open>Moving the lock from one node to the next: the new node is locked first.\<close>

definition lock_next :: "'i route_table \<Rightarrow> addr \<Rightarrow> addr option \<Rightarrow> (addr option \<times> 'i route_table) option" where
  "lock_next s start nxt =
     do { s \<leftarrow> (case nxt of None \<Rightarrow> Some s | Some b \<Rightarrow> route_lock_node s b);
          s \<leftarrow> route_unlock_node s start;
          Some (nxt, s) }"

definition route_next :: "'i route_table \<Rightarrow> addr \<Rightarrow> (addr option \<times> 'i route_table) option" where
  "route_next s a =
     do { n \<leftarrow> rt_mem s a;
          if l_left n \<noteq> None then lock_next s a (l_left n)
          else if l_right n \<noteq> None then lock_next s a (l_right n)
          else do { nxt \<leftarrow> route_get_subtree_next s a; lock_next s a nxt } }"

partial_function (option) subtree_next_until ::
  "'i route_table \<Rightarrow> addr \<Rightarrow> addr \<Rightarrow> addr option option" where
  [code]: "subtree_next_until s limit a =
     do { n \<leftarrow> rt_mem s a;
          case rn_parent n of
            None \<Rightarrow> Some None
          | Some q \<Rightarrow>
              if a = limit then Some None
              else do { w \<leftarrow> rt_mem s q;
                        if l_left w = Some a \<and> l_right w \<noteq> None then Some (l_right w)
                        else subtree_next_until s limit q } }"

definition route_next_until :: "'i route_table \<Rightarrow> addr \<Rightarrow> addr \<Rightarrow> (addr option \<times> 'i route_table) option" where
  "route_next_until s a limit =
     do { n \<leftarrow> rt_mem s a;
          if l_left n \<noteq> None then lock_next s a (l_left n)
          else if l_right n \<noteq> None then lock_next s a (l_right n)
          else do { nxt \<leftarrow> subtree_next_until s limit a; lock_next s a nxt } }"

definition route_table_prefix_iter_cmp :: "prefix \<Rightarrow> prefix \<Rightarrow> int option" where
  "route_table_prefix_iter_cmp p1 p2 =
     (if prefixlen p1 \<le> prefixlen p2 \<and> prefix_match p1 p2
      then Some (if prefixlen p1 = prefixlen p2 then 0 else -1)
      else if \<not> prefixlen p1 \<le> prefixlen p2 \<and> prefix_match p2 p1 then Some 1
      else (let common = prefixlen (route_common p1 p2 prefix_zero)
            in do {
              cassert (common < prefixlen p1);
              cassert (common < prefixlen p2);
              if prefix_bit (u_val p1) common
              then do { cassert (\<not> prefix_bit (u_val p2) common); Some 1 }
              else do { cassert (prefix_bit (u_val p2) common); Some (-1) } }))"

partial_function (option) get_next_walk ::
  "'i route_table \<Rightarrow> prefix \<Rightarrow> addr option \<Rightarrow> (addr option \<times> 'i route_table) option" where
  [code]: "get_next_walk s p node =
     (case node of
        None \<Rightarrow> Some (None, s)
      | Some a \<Rightarrow>
          do { n \<leftarrow> rt_mem s a;
               if (if prefixlen (rn_p n) < prefixlen p then prefix_match (rn_p n) p
                   else prefix_match p (rn_p n)) then
                 if prefixlen (rn_p n) = prefixlen p then
                   do { s \<leftarrow> route_lock_node s a;
                        (nxt, s) \<leftarrow> route_next s a;
                        case nxt of
                          None \<Rightarrow> Some (None, s)
                        | Some b \<Rightarrow> do { s \<leftarrow> route_unlock_node s b; Some (Some b, s) } }
                 else if prefixlen (rn_p n) > prefixlen p then Some (Some a, s)
                 else (case rn_link n (prefix_bit (u_val p) (prefixlen (rn_p n))) of
                         Some b \<Rightarrow> get_next_walk s p (Some b)
                       | None \<Rightarrow>
                           if l_right n \<noteq> None then Some (l_right n, s)
                           else do { nxt \<leftarrow> route_get_subtree_next s a; Some (nxt, s) })
               else
                 do { cmp \<leftarrow> route_table_prefix_iter_cmp (rn_p n) p;
                      if cmp > 0 then Some (Some a, s)
                      else do { cassert (cmp < 0);
                                nxt \<leftarrow> route_get_subtree_next s a;
                                Some (nxt, s) } } })"

definition route_table_get_next_internal ::
  "'i route_table \<Rightarrow> prefix \<Rightarrow> (addr option \<times> 'i route_table) option" where
  "route_table_get_next_internal s p = get_next_walk s p (rt_top s)"

definition route_table_get_next ::
  "'i route_table \<Rightarrow> prefix \<Rightarrow> (addr option \<times> 'i route_table) option" where
  "route_table_get_next s p =
     do { (node, s) \<leftarrow> route_table_get_next_internal s p;
          case node of
            None \<Rightarrow> Some (None, s)
          | Some a \<Rightarrow>
              do { n \<leftarrow> rt_mem s a;
                   cmp \<leftarrow> route_table_prefix_iter_cmp (rn_p n) p;
                   cassert (cmp > 0);
                   s \<leftarrow> route_lock_node s a;
                   Some (Some a, s) } }"

subsection \<open>Iterators\<close>

datatype iter_state = RT_ITER_STATE_INIT | RT_ITER_STATE_ITERATING | RT_ITER_STATE_PAUSED | RT_ITER_STATE_DONE

record route_table_iter =
  it_state :: iter_state
  it_current :: "addr option"
  it_pause_prefix :: prefix

definition route_table_iter_init :: route_table_iter where
  "route_table_iter_init =
     \<lparr>it_state = RT_ITER_STATE_INIT, it_current = None, it_pause_prefix = prefix_zero\<rparr>"

definition route_table_iter_next ::
  "'i route_table \<Rightarrow> route_table_iter \<Rightarrow> (addr option \<times> route_table_iter \<times> 'i route_table) option" where
  "route_table_iter_next s it =
     (if it_state it = RT_ITER_STATE_DONE then Some (None, it, s)
      else do {
        (node, s) \<leftarrow>
          (case it_state it of
             RT_ITER_STATE_INIT \<Rightarrow> route_top s
           | RT_ITER_STATE_ITERATING \<Rightarrow> do { a \<leftarrow> it_current it; route_next s a }
           | _ \<Rightarrow> route_table_get_next s (it_pause_prefix it));
        Some (node,
              it\<lparr>it_current := node,
                 it_state := (if node \<noteq> None then RT_ITER_STATE_ITERATING else RT_ITER_STATE_DONE)\<rparr>,
              s) })"

definition route_table_iter_pause ::
  "'i route_table \<Rightarrow> route_table_iter \<Rightarrow> (route_table_iter \<times> 'i route_table) option" where
  "route_table_iter_pause s it =
     (case it_state it of
        RT_ITER_STATE_ITERATING \<Rightarrow>
          do { a \<leftarrow> it_current it;
               n \<leftarrow> rt_mem s a;
               let it = it\<lparr>it_pause_prefix := prefix_copy (it_pause_prefix it) (rn_p n)\<rparr>;
               s \<leftarrow> route_unlock_node s a;
               Some (it\<lparr>it_current := None, it_state := RT_ITER_STATE_PAUSED\<rparr>, s) }
      | _ \<Rightarrow> Some (it, s))"

definition route_table_iter_cleanup ::
  "'i route_table \<Rightarrow> route_table_iter \<Rightarrow> (route_table_iter \<times> 'i route_table) option" where
  "route_table_iter_cleanup s it =
     do { (it, s) \<leftarrow>
            (if it_state it = RT_ITER_STATE_ITERATING
             then do { a \<leftarrow> it_current it; s \<leftarrow> route_unlock_node s a; Some (it\<lparr>it_current := None\<rparr>, s) }
             else Some (it, s));
          cassert (it_current it = None);
          Some (it\<lparr>it_state := RT_ITER_STATE_DONE\<rparr>, s) }"

definition route_table_iter_is_done :: "route_table_iter \<Rightarrow> bool" where
  "route_table_iter_is_done it \<longleftrightarrow> it_state it = RT_ITER_STATE_DONE"

definition route_table_iter_started :: "route_table_iter \<Rightarrow> bool" where
  "route_table_iter_started it \<longleftrightarrow> it_state it \<noteq> RT_ITER_STATE_INIT"

subsection \<open>Bulk deletion\<close>

partial_function (option) free_walk :: "'i route_table \<Rightarrow> addr \<Rightarrow> 'i route_table option" where
  [code]: "free_walk s a =
     do { n \<leftarrow> rt_mem s a;
          case l_left n of
            Some b \<Rightarrow> free_walk s b
          | None \<Rightarrow>
              (case l_right n of
                 Some b \<Rightarrow> free_walk s b
               | None \<Rightarrow>
                   do { s \<leftarrow> rn_upd (s\<lparr>rt_count := rt_count s - 1\<rparr>) a (\<lambda>n. n\<lparr>rn_lock := 0\<rparr>);
                        s \<leftarrow> rn_hash_node_del s a;
                        s \<leftarrow> route_node_free s a;
                        case rn_parent n of
                          None \<Rightarrow> Some s
                        | Some q \<Rightarrow>
                            do { s \<leftarrow> rn_upd s q (\<lambda>w. if l_left w = Some a then w\<lparr>l_left := None\<rparr>
                                                          else w\<lparr>l_right := None\<rparr>);
                                 free_walk s q } }) }"

definition route_table_free :: "'i route_table \<Rightarrow> 'i route_table option" where
  "route_table_free s =
     do { s \<leftarrow> (case rt_top s of None \<Rightarrow> Some s | Some a \<Rightarrow> free_walk s a);
          cassert (rt_count s = 0);
          h \<leftarrow> thash_fini (rt_hash s);
          Some (s\<lparr>rt_hash := h\<rparr>) }"

end
