(* ===== verification/Route_Inv.thy ===== *)
theory Route_Inv
  imports Route_Table
begin

text \<open>
  The invariant of the routing table of \<open>Route_Table\<close>: the store holds exactly the nodes of a
  radix tree, linked both ways, and the hash table holds the same nodes. The theory relates the
  store to trees and contexts, shows which updates keep the invariant, and derives the lookups.
\<close>

subsection \<open>Common prefixes\<close>

lemma common_copy_spec:
  assumes "common_copy n i np pp newp = (i', newp')" "i + n \<le> length newp"
  shows "i \<le> i' \<and> i' \<le> i + n \<and> (\<forall>k. i \<le> k \<and> k < i' \<longrightarrow> np ! k = pp ! k) \<and>
    (i' < i + n \<longrightarrow> np ! i' \<noteq> pp ! i') \<and> length newp' = length newp \<and>
    (\<forall>k. newp' ! k = (if i \<le> k \<and> k < i' then np ! k else newp ! k))"
  using assms
proof (induction n i np pp newp rule: common_copy.induct)
  case (2 n i np pp newp)
  show ?case
  proof (cases "np ! i = pp ! i")
    case True
    with "2.prems" have "common_copy n (Suc i) np pp (newp[i := np ! i]) = (i', newp')" by simp
    from "2.IH"[OF True this] "2.prems"(2)
    have IH: "Suc i \<le> i'" "i' \<le> Suc i + n" "\<And>k. Suc i \<le> k \<Longrightarrow> k < i' \<Longrightarrow> np ! k = pp ! k"
      "i' < Suc i + n \<Longrightarrow> np ! i' \<noteq> pp ! i'" "length newp' = length newp"
      "\<And>k. newp' ! k = (if Suc i \<le> k \<and> k < i' then np ! k else newp[i := np ! i] ! k)" by simp_all
    have "np ! k = pp ! k" if "i \<le> k" "k < i'" for k
      using that True IH(3)[of k] by (cases "k = i") auto
    moreover have "newp' ! k = (if i \<le> k \<and> k < i' then np ! k else newp ! k)" for k
      using IH(1) IH(6)[of k] "2.prems"(2) by (cases "k = i") auto
    ultimately show ?thesis using IH(1,2,4,5) by auto
  qed (use 2 in auto)
qed auto

lemma common_len_spec:
  assumes "n + j \<le> 8 \<or> (\<exists>k. j \<le> k \<and> k \<le> 7 \<and> bit diff (7 - k))" "n > 0 \<longrightarrow> msk = 2 ^ (7 - j)"
  shows "\<exists>m. common_len n len msk diff = len + m \<and> m \<le> n \<and> (m > 0 \<longrightarrow> j + m \<le> 8) \<and>
    (\<forall>k<m. \<not> bit diff (7 - (j + k))) \<and> (m < n \<longrightarrow> j + m \<le> 7 \<and> bit diff (7 - (j + m)))"
  using assms
proof (induction n arbitrary: j len msk)
  case (Suc n)
  have j: "j \<le> 7" using Suc.prems(1) by auto
  have msk: "msk = 2 ^ (7 - j)" using Suc.prems(2) by simp
  show ?case
  proof (cases "bit diff (7 - j)")
    case True
    then have "msk AND diff \<noteq> 0" using msk by (simp add: and.commute and_exp_eq_0_iff_not_bit)
    then show ?thesis using True j by (intro exI[of _ 0]) simp
  next
    case False
    then have z: "msk AND diff = 0" using msk by (simp add: and.commute and_exp_eq_0_iff_not_bit)
    have "n + Suc j \<le> 8 \<or> (\<exists>k. Suc j \<le> k \<and> k \<le> 7 \<and> bit diff (7 - k))"
      using Suc.prems(1)
    proof
      assume "\<exists>k. j \<le> k \<and> k \<le> 7 \<and> bit diff (7 - k)"
      then obtain k where "j \<le> k" "k \<le> 7" "bit diff (7 - k)" by blast
      then have "Suc j \<le> k" "k \<le> 7 \<and> bit diff (7 - k)" using False by (auto simp: Suc_le_eq le_less)
      then show ?thesis by blast
    qed simp
    moreover have "n > 0 \<longrightarrow> drop_bit 1 msk = 2 ^ (7 - Suc j)"
    proof
      assume "n > 0"
      then have "j < 7" using calculation by auto
      then have "bit (drop_bit 1 msk) i = bit (2 ^ (7 - Suc j) :: u8) i" if "i < 8" for i
        using that unfolding msk bit_drop_bit_eq bit_exp_iff by auto
      then show "drop_bit 1 msk = 2 ^ (7 - Suc j)" by (intro bit_word_eqI) simp
    qed
    ultimately obtain m where m: "common_len n (len + 1) (drop_bit 1 msk) diff = len + 1 + m" "m \<le> n"
      "m > 0 \<longrightarrow> Suc j + m \<le> 8"
      "\<forall>k<m. \<not> bit diff (7 - (Suc j + k))" "m < n \<longrightarrow> Suc j + m \<le> 7 \<and> bit diff (7 - (Suc j + m))"
      using Suc.IH by blast
    have "\<forall>k<Suc m. \<not> bit diff (7 - (j + k))" using m(4) False by (auto simp: less_Suc_eq_0_disj)
    then show ?thesis using z m j by (intro exI[of _ "Suc m"]) (cases m; auto)
  qed
qed simp

lemma route_common_bytes:
  assumes ok: "prefix_ok n" "prefix_ok p"
  obtains i m where "m < 8" "prefixlen (route_common n p prefix_zero) = i * 8 + m" "i * 8 + m \<le> prefixlen p"
    "\<And>k. k < i \<Longrightarrow> u_val n ! k = u_val p ! k"
    "\<And>k. k < m \<Longrightarrow> bit (u_val n ! i) (7 - k) = bit (u_val p ! i) (7 - k)"
    "i * 8 + m < prefixlen p \<Longrightarrow> bit (u_val n ! i) (7 - m) \<noteq> bit (u_val p ! i) (7 - m)"
    "length (u_val (route_common n p prefix_zero)) = 16"
    "\<And>k. k < 16 \<Longrightarrow> u_val (route_common n p prefix_zero) ! k =
       (if k < i then u_val n ! k else if k = i then u_val n ! i AND maskbit ! m else 0)"
proof -
  let ?np = "u_val n" and ?pp = "u_val p" and ?r = "route_common n p prefix_zero"
  have l: "prefixlen p \<le> 128" using ok prefix_ok_len by auto
  obtain i newp where c: "common_copy (prefixlen p div 8) 0 ?np ?pp (replicate 16 0) = (i, newp)"
    by fastforce
  have i: "i \<le> prefixlen p div 8" "\<And>k. k < i \<Longrightarrow> ?np ! k = ?pp ! k"
    "i < prefixlen p div 8 \<Longrightarrow> ?np ! i \<noteq> ?pp ! i" "length newp = 16"
    "\<And>k. newp ! k = (if k < i then ?np ! k else replicate 16 0 ! k)"
    using common_copy_spec[OF c] l by auto
  show ?thesis
  proof (cases "i * 8 = prefixlen p")
    case True
    then have "?r = prefix_zero\<lparr>prefixlen := i * 8, u_val := newp\<rparr>"
      using c by (simp add: route_common_def prefix_zero_def)
    then show ?thesis using that[of 0 i] True i by (simp add: maskbit_def)
  next
    case False
    define diff where "diff = ?np ! i XOR ?pp ! i"
    define n' where "n' = prefixlen p - i * 8"
    have le: "i * 8 \<le> prefixlen p" "0 < n'" "n' < 8 \<longleftrightarrow> i = prefixlen p div 8"
      using i(1) False by (auto simp: n'_def)
    have dbit: "\<exists>k \<le> 7. bit diff (7 - k)" if "8 \<le> n'"
    proof -
      have "?np ! i \<noteq> ?pp ! i" using i(1,3) le(3) that by auto
      then obtain k where "k < 8" "bit (?np ! i) (7 - k) \<noteq> bit (?pp ! i) (7 - k)"
        using byte_eq_iff by blast
      then show ?thesis by (intro exI[of _ k]) (auto simp: diff_def bit_xor_iff)
    qed
    then obtain m where m: "common_len n' (i * 8) 0x80 diff = i * 8 + m" "m \<le> n'" "0 < m \<longrightarrow> m \<le> 8"
      "\<forall>k<m. \<not> bit diff (7 - k)" "m < n' \<longrightarrow> m \<le> 7 \<and> bit diff (7 - m)"
      using common_len_spec[of n' 0 diff "0x80" "i * 8"] by force
    have "m < 8"
    proof (rule ccontr)
      assume "\<not> m < 8"
      then have "8 \<le> n'" "m = 8" using m(2,3) by auto
      with dbit m(4) show False by auto
    qed
    have r: "?r = prefix_zero\<lparr>prefixlen := i * 8 + m, u_val := newp[i := ?np ! i AND maskbit ! m]\<rparr>"
      using c False m(1) \<open>m < 8\<close> by (simp add: route_common_def prefix_zero_def Let_def diff_def n'_def)
    have "i * 8 + m < prefixlen p \<longleftrightarrow> m < n'" using le by (auto simp: n'_def)
    moreover have "i < 16" using le l by (simp add: n'_def)
    ultimately show ?thesis
      using that[of m i] r m i \<open>m < 8\<close> le by (auto simp: diff_def bit_xor_iff n'_def nth_list_update)
  qed
qed

lemma digit_less_iff:
  assumes "m < 8"
  shows "(x :: nat) < q * 8 + m \<longleftrightarrow> x div 8 < q \<or> x div 8 = q \<and> x mod 8 < m"
proof -
  define a b where "a = x div 8" and "b = x mod 8"
  have x: "x = a * 8 + b" "b < 8" by (simp_all add: a_def b_def)
  consider "a < q" | "a = q" | "q < a" by linarith
  then have "x < q * 8 + m \<longleftrightarrow> a < q \<or> a = q \<and> b < m" using x assms by cases linarith+
  then show ?thesis by (simp add: a_def b_def)
qed

lemma route_common_spec:
  assumes ok: "prefix_ok n" "prefix_ok p" and r: "r = route_common n p prefix_zero"
  shows "prefixlen r \<le> prefixlen p" "length (u_val r) = 16"
    "i < prefixlen r \<Longrightarrow> bits_of (u_val n) ! i = bits_of (u_val p) ! i"
    "prefixlen r < prefixlen p \<Longrightarrow> bits_of (u_val n) ! prefixlen r \<noteq> bits_of (u_val p) ! prefixlen r"
    "i < 128 \<Longrightarrow> bits_of (u_val r) ! i \<longleftrightarrow> i < prefixlen r \<and> bits_of (u_val n) ! i"
proof -
  have l: "length (u_val n) = 16" "length (u_val p) = 16" "prefixlen p \<le> 128"
    using ok prefix_ok_len by (auto simp: prefix_ok_def)
  obtain q m where q: "m < 8" "prefixlen r = q * 8 + m" "q * 8 + m \<le> prefixlen p"
    "\<And>k. k < q \<Longrightarrow> u_val n ! k = u_val p ! k"
    "\<And>k. k < m \<Longrightarrow> bit (u_val n ! q) (7 - k) = bit (u_val p ! q) (7 - k)"
    "q * 8 + m < prefixlen p \<Longrightarrow> bit (u_val n ! q) (7 - m) \<noteq> bit (u_val p ! q) (7 - m)"
    "length (u_val r) = 16"
    "\<And>k. k < 16 \<Longrightarrow> u_val r ! k = (if k < q then u_val n ! k else if k = q then u_val n ! q AND maskbit ! m else 0)"
    by (rule route_common_bytes[OF ok, folded r]) (rule that)
  show "prefixlen r \<le> prefixlen p" "length (u_val r) = 16" using q by simp_all
  note pos = digit_less_iff[OF q(1)]
  show "bits_of (u_val n) ! i = bits_of (u_val p) ! i" if "i < prefixlen r"
  proof -
    have "i < 8 * length (u_val n)" "i < 8 * length (u_val p)" using that q(2,3) l by linarith+
    then show ?thesis using pos[of i] that q(2,4,5) by (auto simp: nth_bits_of)
  qed
  show "bits_of (u_val n) ! prefixlen r \<noteq> bits_of (u_val p) ! prefixlen r" if "prefixlen r < prefixlen p"
  proof -
    have "prefixlen r < 8 * length (u_val n)" "prefixlen r < 8 * length (u_val p)" using that l by linarith+
    then show ?thesis using that q(1,2,6) by (simp add: nth_bits_of)
  qed
  show "bits_of (u_val r) ! i \<longleftrightarrow> i < prefixlen r \<and> bits_of (u_val n) ! i" if "i < 128"
  proof -
    have i: "i < 8 * length (u_val n)" "i < 8 * length (u_val r)" "i div 8 < 16" "i mod 8 < 8"
      using that q(7) l by simp_all
    consider "i div 8 < q" | "i div 8 = q" | "q < i div 8" by linarith
    then show ?thesis
    proof cases
      case 2
      then show ?thesis
        using i q(1,2,8) pos[of i] bit_maskbit[of m "i mod 8"] by (auto simp: nth_bits_of bit_and_iff)
    qed (use i q(2,8) pos[of i] in \<open>auto simp: nth_bits_of\<close>)
  qed
qed

lemma prefix_bit_key: "prefix_ok p \<Longrightarrow> i < prefixlen p \<Longrightarrow> prefix_bit (u_val p) i = key p ! i"
  using prefix_ok_len[of p] by (simp add: prefix_bit_bits_of prefix_ok_def key_def)

lemma prefix_snocI: "prefix xs ys \<Longrightarrow> length xs < length ys \<Longrightarrow> prefix (xs @ [ys ! length xs]) ys"
  by (metis append_one_prefix)

lemma prefix_snoc_nth: "prefix (xs @ [b]) ys \<Longrightarrow> ys ! length xs = b"
  by (auto simp: prefix_def nth_append)

lemma route_common_insert:
  assumes ok: "prefix_ok n" "prefix_ok p" "family n = family p" and no: "\<not> prefix (key n) (key p)"
    and r: "r = (route_common n p prefix_zero)\<lparr>family := family p\<rparr>"
  obtains b where "prefix_ok r" "masked r" "family r = family p" "prefix (key r @ [b]) (key n)"
    "prefixlen r = prefixlen p \<and> key r = key p \<or> prefixlen r < prefixlen p \<and> prefix (key r @ [\<not> b]) (key p)"
proof -
  let ?c = "route_common n p prefix_zero"
  note c = route_common_spec[OF ok(1,2) refl]
  have len: "prefixlen r = prefixlen ?c" "u_val r = u_val ?c" "family r = family p" by (simp_all add: r)
  have bn: "prefixlen n \<le> 128" "prefixlen p \<le> 128" "length (u_val n) = 16" "length (u_val p) = 16"
    using ok prefix_ok_len by (auto simp: prefix_ok_def)
  have rok: "prefix_ok r" using c(1,2) ok(2) by (simp add: prefix_ok_def len)
  have fb: "8 * fam_bytes (family p) \<le> 128" by (cases "family p") simp_all
  have msk: "masked r" using c(5) fb by (auto simp: masked_def len)
  have kr: "key r = take (prefixlen r) (bits_of (u_val n))"
    using c(1,2,5) bn by (intro nth_equalityI) (auto simp: key_def len)
  have kp: "take (prefixlen r) (bits_of (u_val p)) = key r"
    unfolding kr using c(1,3) bn by (intro nth_equalityI) (auto simp: len)
  have pre_p: "prefix (key r) (key p)"
    unfolding kp[symmetric] key_def[of p] using c(1) len(1) by (metis min.absorb1 take_is_prefix take_take)
  have "prefixlen r < prefixlen n"
  proof (rule ccontr)
    assume "\<not> prefixlen r < prefixlen n"
    then have "prefix (key n) (key r)"
      unfolding kr key_def[of n] by (metis min.absorb1 not_less take_is_prefix take_take)
    with pre_p no show False using prefix_order.trans by blast
  qed
  then have pre_n: "prefix (key r) (key n)"
    unfolding kr key_def[of n] by (metis min.absorb1 less_imp_le take_is_prefix take_take)
  define b where "b = key n ! prefixlen r"
  have 1: "prefix (key r @ [b]) (key n)"
    using prefix_snocI[OF pre_n] \<open>prefixlen r < prefixlen n\<close> rok ok(1) by (simp add: b_def)
  have 2: "prefixlen r = prefixlen p \<and> key r = key p \<or> prefixlen r < prefixlen p \<and> prefix (key r @ [\<not> b]) (key p)"
  proof (cases "prefixlen r = prefixlen p")
    case True
    then show ?thesis using kp by (simp add: key_def)
  next
    case False
    then have lt: "prefixlen r < prefixlen p" using c(1) len(1) by simp
    then have "key p ! prefixlen r = (\<not> b)"
      using c(4) len(1) \<open>prefixlen r < prefixlen n\<close> by (auto simp: b_def key_def)
    then show ?thesis using prefix_snocI[OF pre_p] lt rok ok(2) by simp
  qed
  show ?thesis using that rok msk len(3) 1 2 by blast
qed

subsection \<open>Trees in the store\<close>

fun tree_at :: "(addr \<rightharpoonup> 'i route_node) \<Rightarrow> addr option \<Rightarrow> addr option \<Rightarrow> addr tree \<Rightarrow> bool" where
  "tree_at m par lk Leaf \<longleftrightarrow> lk = None"
| "tree_at m par lk (Node l a r) \<longleftrightarrow> lk = Some a \<and>
     (case m a of None \<Rightarrow> False
      | Some n \<Rightarrow> rn_parent n = par \<and> tree_at m (Some a) (l_left n) l \<and> tree_at m (Some a) (l_right n) r)"

fun ctx_at :: "(addr \<rightharpoonup> 'i route_node) \<Rightarrow> addr option \<Rightarrow> addr frame list \<Rightarrow> addr option \<Rightarrow> addr option \<Rightarrow> bool" where
  "ctx_at m tp [] par hole \<longleftrightarrow> par = None \<and> hole = tp"
| "ctx_at m tp ((d, a, sib) # c) par hole \<longleftrightarrow> par = Some a \<and>
     (case m a of None \<Rightarrow> False
      | Some n \<Rightarrow> rn_link n d = hole \<and> tree_at m (Some a) (rn_link n (\<not> d)) sib \<and> ctx_at m tp c (rn_parent n) (Some a))"

lemma tree_at_plug:
  "tree_at m None tp (plug c t) \<longleftrightarrow> (\<exists>par hole. ctx_at m tp c par hole \<and> tree_at m par hole t)"
proof (induction c arbitrary: t)
  case (Cons f c)
  obtain d a sib where f: "f = (d, a, sib)" by (cases f)
  show ?case unfolding f by (cases d) (auto simp: Cons rn_link_def split: option.splits)
qed auto

lemma ctx_at_det: "ctx_at m tp c par hole \<Longrightarrow> par = (case c of [] \<Rightarrow> None | (d, a, sib) # _ \<Rightarrow> Some a)"
  by (cases c) auto

text \<open>Only the link fields of the nodes matter.\<close>

definition same_links :: "'i route_node option \<Rightarrow> 'i route_node option \<Rightarrow> bool" where
  "same_links x y \<longleftrightarrow> map_option (\<lambda>n. (rn_parent n, l_left n, l_right n)) x =
                       map_option (\<lambda>n. (rn_parent n, l_left n, l_right n)) y"

lemma tree_at_cong:
  "(\<And>a. a \<in> set_tree t \<Longrightarrow> same_links (m a) (m' a)) \<Longrightarrow> tree_at m par lk t = tree_at m' par lk t"
proof (induction t arbitrary: par lk)
  case (Node l a r)
  have "same_links (m a) (m' a)" using Node.prems by simp
  moreover have "tree_at m x y l = tree_at m' x y l" "tree_at m x y r = tree_at m' x y r" for x y
    using Node by simp_all
  ultimately show ?case by (cases "m a"; cases "m' a") (simp_all add: same_links_def)
qed simp

lemma ctx_at_cong:
  "(\<And>a. a \<in> ctx_nodes c \<Longrightarrow> same_links (m a) (m' a)) \<Longrightarrow> ctx_at m tp c par hole = ctx_at m' tp c par hole"
proof (induction c arbitrary: par hole)
  case (Cons f c)
  obtain d a sib where f: "f = (d, a, sib)" by (cases f)
  have "same_links (m a) (m' a)" using Cons.prems by (simp add: f)
  moreover have "tree_at m x y sib = tree_at m' x y sib" for x y
    using Cons.prems by (intro tree_at_cong) (simp add: f)
  moreover have "ctx_at m tp c x y = ctx_at m' tp c x y" for x y using Cons by (simp add: f)
  ultimately show ?case
    by (cases "m a"; cases "m' a") (simp_all add: f same_links_def rn_link_def)
qed simp

lemma tree_at_dom: "tree_at m par lk t \<Longrightarrow> set_tree t \<subseteq> dom m"
  by (induction t arbitrary: par lk) (fastforce split: option.splits)+

lemma ctx_at_dom: "ctx_at m tp c par hole \<Longrightarrow> ctx_nodes c \<subseteq> dom m"
proof (induction c arbitrary: par hole)
  case (Cons f c)
  obtain d a sib where f: "f = (d, a, sib)" by (cases f)
  show ?case using Cons.prems Cons.IH tree_at_dom by (fastforce simp: f split: option.splits)
qed simp

subsection \<open>The invariant\<close>

definition prefix_valid :: "prefix \<Rightarrow> bool" where
  "prefix_valid p \<longleftrightarrow> prefix_ok p \<and> masked p"

interpretation rn_hash: hash_keys prefix_cmp prefix_hash_key prefix_valid
proof
  fix a b c :: prefix
  assume v: "prefix_valid a" "prefix_valid b" "prefix_valid c"
  then have ok: "prefix_ok a" "prefix_ok b" "prefix_ok c" "masked a" "masked b"
    by (simp_all add: prefix_valid_def)
  show "prefix_cmp a a = 0" using ok by (simp add: prefix_cmp_eq_0)
  show "prefix_cmp b a = 0" if "prefix_cmp a b = 0" using that ok by (simp add: prefix_cmp_eq_0)
  show "prefix_cmp a c = 0" if "prefix_cmp a b = 0" "prefix_cmp b c = 0"
    using that ok by (simp add: prefix_cmp_eq_0)
  show "prefix_hash_key a = prefix_hash_key b" if "prefix_cmp a b = 0"
    using that ok by (intro prefix_hash_key_cong)
qed

definition rt_key :: "'i route_table \<Rightarrow> addr \<Rightarrow> bool list" where
  "rt_key s a = key (rn_keyof s a)"

definition rn_ok :: "family \<Rightarrow> 'i route_node \<Rightarrow> bool" where
  "rn_ok f n \<longleftrightarrow> prefix_valid (rn_p n) \<and> family (rn_p n) = f \<and> rn_hashval n = prefix_hash_key (rn_p n)"

text \<open>
  \<open>rt_inv f s t\<close>: the nodes of the table are exactly the nodes of the store and form the radix
  tree \<open>t\<close>; all prefixes are masked prefixes of family \<open>f\<close>; the hash table holds the same nodes.
\<close>

definition rt_inv :: "family \<Rightarrow> 'i route_table \<Rightarrow> addr tree \<Rightarrow> bool" where
  "rt_inv f s t \<longleftrightarrow>
     (f = AF_INET \<or> f = AF_INET6) \<and>
     tree_at (rt_mem s) None (rt_top s) t \<and> radix (rt_key s) t \<and> dom (rt_mem s) = set_tree t \<and>
     (\<forall>a \<in> set_tree t. a < rt_brk s \<and> rn_ok f (the (rt_mem s a))) \<and>
     thash_ok prefix_cmp prefix_hash_key prefix_valid (rn_keyof s) (rt_hash s) \<and>
     set (thash_items (rt_hash s)) = set_tree t \<and>
     rt_count s = of_nat (size t)"

text \<open>No unlocked node can be spared: it has two children.\<close>

definition rt_compact :: "'i route_table \<Rightarrow> bool" where
  "rt_compact s \<longleftrightarrow>
     (\<forall>a n. rt_mem s a = Some n \<longrightarrow> rn_lock n = 0 \<longrightarrow> l_left n \<noteq> None \<and> l_right n \<noteq> None)"

definition core :: "'i route_node \<Rightarrow> prefix \<times> addr option \<times> addr option \<times> addr option \<times> u32" where
  "core n = (rn_p n, rn_parent n, l_left n, l_right n, rn_hashval n)"

definition same_core :: "(addr \<rightharpoonup> 'i route_node) \<Rightarrow> (addr \<rightharpoonup> 'i route_node) \<Rightarrow> bool" where
  "same_core m m' \<longleftrightarrow> (\<forall>a. map_option core (m a) = map_option core (m' a))"

lemma same_coreD:
  assumes "same_core m m'"
  shows "same_links (m a) (m' a)" "dom m = dom m'"
    "map_option core (m a) = map_option core (m' a)"
    "m a = Some n \<Longrightarrow> \<exists>n'. m' a = Some n' \<and> core n' = core n"
proof -
  have c: "map_option core (m a) = map_option core (m' a)" for a using assms by (simp add: same_core_def)
  then show "map_option core (m a) = map_option core (m' a)" .
  have "m a = None \<longleftrightarrow> m' a = None" for a using c[of a] by (cases "m a"; cases "m' a") simp_all
  then show "dom m = dom m'" by (simp add: dom_def)
  show "same_links (m a) (m' a)"
    using c[of a] by (cases "m a"; cases "m' a") (simp_all add: same_links_def core_def)
  show "\<exists>n'. m' a = Some n' \<and> core n' = core n" if "m a = Some n"
    using c[of a] that by (cases "m' a") simp_all
qed

lemma rt_inv_same_core:
  assumes inv: "rt_inv f s t" and c: "same_core (rt_mem s) (rt_mem s')"
    and eq: "rt_brk s' = rt_brk s" "rt_top s' = rt_top s" "rt_hash s' = rt_hash s" "rt_count s' = rt_count s"
  shows "rt_inv f s' t" "rt_key s' = rt_key s" "rn_keyof s' = rn_keyof s"
proof -
  show k: "rn_keyof s' = rn_keyof s"
  proof
    fix a
    have "map_option core (rt_mem s a) = map_option core (rt_mem s' a)" using same_coreD(3)[OF c] .
    then show "rn_keyof s' a = rn_keyof s a"
      by (cases "rt_mem s a"; cases "rt_mem s' a") (auto simp: rn_keyof_def core_def)
  qed
  then show rk: "rt_key s' = rt_key s" by (simp add: rt_key_def fun_eq_iff)
  have "rn_ok f (the (rt_mem s' a))" if "a \<in> set_tree t" for a
  proof -
    obtain n where "rt_mem s a = Some n" "rn_ok f n" using inv \<open>a \<in> set_tree t\<close> by (fastforce simp: rt_inv_def)
    then show ?thesis using same_coreD(4)[OF c, of a n] by (auto simp: rn_ok_def core_def)
  qed
  moreover have "tree_at (rt_mem s') None (rt_top s) t"
    using inv tree_at_cong[of t "rt_mem s" "rt_mem s'"] same_coreD(1)[OF c] by (simp add: rt_inv_def)
  ultimately show "rt_inv f s' t"
    using inv same_coreD(2)[OF c] by (simp add: rt_inv_def k rk eq)
qed

lemma rt_invD:
  assumes "rt_inv f s t"
  shows "tree_at (rt_mem s) None (rt_top s) t" "radix (rt_key s) t" "dom (rt_mem s) = set_tree t"
    "a \<in> set_tree t \<Longrightarrow> \<exists>n. rt_mem s a = Some n \<and> rn_ok f n \<and> rt_key s a = key (rn_p n) \<and> a < rt_brk s"
    "rt_mem s a = Some n \<Longrightarrow> a \<in> set_tree t \<and> rn_ok f n \<and> rt_key s a = key (rn_p n) \<and> a < rt_brk s"
proof -
  show "tree_at (rt_mem s) None (rt_top s) t" "radix (rt_key s) t" and d: "dom (rt_mem s) = set_tree t"
    using assms by (simp_all add: rt_inv_def)
  have x: "a \<in> set_tree t \<and> rn_ok f n \<and> rt_key s a = key (rn_p n) \<and> a < rt_brk s"
    if m: "rt_mem s a = Some n" for n
  proof -
    have "a \<in> set_tree t" using d m by blast
    moreover have "a < rt_brk s \<and> rn_ok f (the (rt_mem s a))"
      using assms \<open>a \<in> set_tree t\<close> unfolding rt_inv_def by blast
    ultimately show ?thesis using m by (simp add: rt_key_def rn_keyof_def)
  qed
  then show "rt_mem s a = Some n \<Longrightarrow> a \<in> set_tree t \<and> rn_ok f n \<and> rt_key s a = key (rn_p n) \<and> a < rt_brk s" .
  show "a \<in> set_tree t \<Longrightarrow> \<exists>n. rt_mem s a = Some n \<and> rn_ok f n \<and> rt_key s a = key (rn_p n) \<and> a < rt_brk s"
    using x d by blast
qed

lemma rn_ok_simps:
  assumes "rn_ok f n"
  shows "prefix_ok (rn_p n)" "masked (rn_p n)" "prefix_valid (rn_p n)" "family (rn_p n) = f"
    "rn_hashval n = prefix_hash_key (rn_p n)" "length (key (rn_p n)) = prefixlen (rn_p n)"
  using assms by (simp_all add: rn_ok_def prefix_valid_def)

lemma rt_inv_init: "f = AF_INET \<or> f = AF_INET6 \<Longrightarrow> rt_inv f route_table_init Leaf"
  by (simp add: rt_inv_def route_table_init_def thash_ok_init)
     (simp add: thash_items_def thash_flat_def thash_init_def)

subsection \<open>Exact lookup\<close>

lemma prefix_copy_bits:
  assumes "prefix_ok pu"
  shows "take (prefixlen pu) (bits_of (take (fam_bytes (family pu)) (u_val pu) @ zs)) =
    take (prefixlen pu) (bits_of (u_val pu))"
proof -
  let ?n = "fam_bytes (family pu)"
  have "prefixlen pu \<le> length (bits_of (take ?n (u_val pu)))"
    using assms by (cases "family pu") (auto simp: prefix_ok_def)
  then have "take (prefixlen pu) (bits_of (take ?n (u_val pu) @ ys)) =
      take (prefixlen pu) (bits_of (take ?n (u_val pu)))" for ys
    by (simp add: bits_of_append)
  from this[of zs] this[of "drop ?n (u_val pu)"] show ?thesis by simp
qed

lemma search_key_spec:
  assumes "prefix_ok pu" "family pu = AF_INET \<or> family pu = AF_INET6"
  obtains p where "search_key pu = Some p" "prefix_valid p" "family p = family pu"
    "prefixlen p = prefixlen pu" "key p = key pu"
proof -
  let ?c = "prefix_copy prefix_zero pu"
  have "take (prefixlen pu) (bits_of (take (fam_bytes (family pu)) (u_val pu) @ zs)) = key pu" for zs
    using assms prefix_copy_bits by (simp add: key_def)
  then have ok: "prefix_ok ?c" "family ?c = family pu" "prefixlen ?c = prefixlen pu" and "key ?c = key pu"
    using assms by (auto simp: prefix_copy_def prefix_ok_def Let_def prefix_zero_def key_def)
  obtain p where "apply_mask ?c = Some p" "prefix_ok p" "family p = family ?c" "prefixlen p = prefixlen ?c"
    "key p = key ?c" "masked p" using apply_mask_spec[OF ok(1)] assms(2) ok(2) by metis
  then show ?thesis using ok \<open>key ?c = key pu\<close> by (intro that[of p]) (simp_all add: search_key_def prefix_valid_def)
qed

lemma rn_hash_node_find_iff:
  assumes inv: "rt_inv f s t" and p: "prefix_valid p" "family p = f"
  shows "rn_hash_node_find s p = Some a \<longleftrightarrow> a \<in> set_tree t \<and> rt_key s a = key p"
proof -
  have "rn_hash_node_find s p = Some a \<longleftrightarrow>
      a \<in> set (thash_items (rt_hash s)) \<and> prefix_cmp (rn_keyof s a) p = 0"
    unfolding rn_hash_node_find_def using inv p by (intro rn_hash.find_iff) (auto simp: rt_inv_def)
  also have "\<dots> \<longleftrightarrow> a \<in> set_tree t \<and> prefix_cmp (rn_keyof s a) p = 0"
    using inv by (simp add: rt_inv_def)
  also have "\<dots> \<longleftrightarrow> a \<in> set_tree t \<and> rt_key s a = key p"
    using rt_invD(4)[OF inv, of a] p
    by (auto simp: rt_key_def rn_keyof_def rn_ok_def prefix_valid_def prefix_cmp_eq_0)
  finally show ?thesis .
qed

lemma rn_hash_node_find_None_iff:
  assumes "rt_inv f s t" "prefix_valid p" "family p = f"
  shows "rn_hash_node_find s p = None \<longleftrightarrow> (\<forall>a \<in> set_tree t. rt_key s a \<noteq> key p)"
  using rn_hash_node_find_iff[OF assms] by (metis not_None_eq)

subsection \<open>Locking\<close>

lemma route_lock_node_inv:
  assumes inv: "rt_inv f s t" and n: "rt_mem s a = Some n"
  defines "s' \<equiv> s\<lparr>rt_mem := (rt_mem s)(a \<mapsto> n\<lparr>rn_lock := rn_lock n + 1\<rparr>)\<rparr>"
  shows "route_lock_node s a = Some s'" "rt_inv f s' t" "rt_key s' = rt_key s"
    "rt_compact s \<Longrightarrow> rn_lock n + 1 \<noteq> 0 \<Longrightarrow> rt_compact s'"
proof -
  have c: "same_core (rt_mem s) (rt_mem s')"
    unfolding s'_def using n by (simp add: same_core_def core_def)
  show "route_lock_node s a = Some s'" using n by (simp add: route_lock_node_def rn_upd_def s'_def)
  show "rt_inv f s' t" "rt_key s' = rt_key s"
    using rt_inv_same_core[OF inv c] by (simp_all add: s'_def)
  show "rt_compact s \<Longrightarrow> rn_lock n + 1 \<noteq> 0 \<Longrightarrow> rt_compact s'" using n by (auto simp: rt_compact_def s'_def)
qed

definition has_info :: "'i route_table \<Rightarrow> addr \<Rightarrow> bool" where
  "has_info s a \<longleftrightarrow> (case rt_mem s a of None \<Rightarrow> False | Some n \<Rightarrow> rn_info n \<noteq> None)"

subsection \<open>Longest match\<close>

definition covering :: "'i route_table \<Rightarrow> addr set \<Rightarrow> bool list \<Rightarrow> addr set" where
  "covering s A k = {a \<in> A. has_info s a \<and> Sublist.prefix (rt_key s a) k}"

lemma covering_outside: "(\<forall>b \<in> A. \<not> Sublist.prefix (rt_key s b) k) \<Longrightarrow> covering s A k = {}"
  by (auto simp: covering_def)

lemma covering_node:
  assumes "radix (rt_key s) (Node l a r)"
  shows "covering s (set_tree (Node l a r)) k =
    (if Sublist.prefix (rt_key s a) k then
       (if has_info s a then {a} else {}) \<union>
       (if rt_key s a = k then {}
        else covering s (set_tree (if k ! length (rt_key s a) then r else l)) k)
     else {})"
proof -
  let ?K = "rt_key s"
  have lr: "\<And>b. b \<in> set_tree l \<Longrightarrow> Sublist.prefix (?K a @ [False]) (?K b)"
    "\<And>b. b \<in> set_tree r \<Longrightarrow> Sublist.prefix (?K a @ [True]) (?K b)" using assms by auto
  have below: "Sublist.prefix (?K a) k \<and> ?K a \<noteq> k \<and> k ! length (?K a) = d"
    if "Sublist.prefix (?K a @ [d]) (?K b)" "Sublist.prefix (?K b) k" for b d
  proof -
    have "Sublist.prefix (?K a @ [d]) k" using that prefix_order.trans by blast
    then show ?thesis using prefix_snoc_nth by (metis append_prefixD not_Cons_self2 prefix_order.eq_iff prefix_snoc same_prefix_nil)
  qed
  show ?thesis using below[OF lr(1)] below[OF lr(2)] by (auto simp: covering_def)
qed

lemma match_walk_spec:
  assumes "tree_at (rt_mem s) par lk t" "radix (rt_key s) t" "prefix_ok p"
    "\<And>a. a \<in> set_tree t \<Longrightarrow> \<exists>n. rt_mem s a = Some n \<and> prefix_ok (rn_p n) \<and> rt_key s a = key (rn_p n)"
  defines "C \<equiv> covering s (set_tree t) (key p)"
  shows "\<exists>r. match_walk s p lk matched = Some r \<and>
    (if C = {} then r = matched else \<exists>a \<in> C. r = Some a \<and> (\<forall>b \<in> C. Sublist.prefix (rt_key s b) (rt_key s a)))"
  using assms(1,2,4) unfolding C_def
proof (induction t arbitrary: par lk matched)
  case Leaf
  then show ?case by (simp add: match_walk.simps covering_def)
next
  case (Node l a r)
  obtain n where n: "rt_mem s a = Some n" "prefix_ok (rn_p n)" "rt_key s a = key (rn_p n)"
    using Node.prems(3) by auto
  have t: "lk = Some a" "tree_at (rt_mem s) (Some a) (l_left n) l" "tree_at (rt_mem s) (Some a) (l_right n) r"
    using Node.prems(1) n(1) by simp_all
  have lk: "length (key p) = prefixlen p" "length (key (rn_p n)) = prefixlen (rn_p n)"
    using assms(3) n(2) by simp_all
  have m: "prefixlen (rn_p n) \<le> prefixlen p \<and> prefix_match (rn_p n) p \<longleftrightarrow> Sublist.prefix (rt_key s a) (key p)"
    using prefix_match_key[OF n(2) assms(3)] lk by (auto simp: n(3) dest: prefix_length_le)
  let ?C = "\<lambda>t. covering s (set_tree t) (key p)"
  note cov = covering_node[OF Node.prems(2), of "key p"]
  have inf: "has_info s a \<longleftrightarrow> rn_info n \<noteq> None" using n(1) by (simp add: has_info_def)
  consider "\<not> Sublist.prefix (rt_key s a) (key p)" | "rt_key s a = key p"
    | "Sublist.prefix (rt_key s a) (key p)" "rt_key s a \<noteq> key p" by blast
  then show ?case
  proof cases
    case 1
    then have "?C (Node l a r) = {}" by (simp only: cov if_False)
    then show ?thesis using 1 n(1) t(1) m by (subst match_walk.simps) auto
  next
    case 2
    then have "prefixlen (rn_p n) = prefixlen p" using lk n(3) by simp
    moreover have "?C (Node l a r) = (if has_info s a then {a} else {})" unfolding cov using 2 by simp
    ultimately show ?thesis using 2 n(1) t(1) m inf by (subst match_walk.simps) simp
  next
    case 3
    then have lt: "prefixlen (rn_p n) < prefixlen p"
      using lk n(3) by (metis prefix_length_le le_neq_implies_less not_equal_is_parallel parallelE prefix_order.order_refl)
    let ?b = "prefix_bit (u_val p) (prefixlen (rn_p n))"
    define m' where "m' = (if rn_info n \<noteq> None then Some a else matched)"
    have bit: "?b = key p ! length (rt_key s a)"
      using prefix_bit_key[OF assms(3) lt] lk n(3) by simp
    let ?ch = "if ?b then r else l"
    have ch: "tree_at (rt_mem s) (Some a) (rn_link n ?b) ?ch" "radix (rt_key s) ?ch"
      using t Node.prems(2) by (simp_all add: rn_link_def)
    have "\<exists>r'. match_walk s p (rn_link n ?b) m' = Some r' \<and> (if ?C ?ch = {} then r' = m'
       else \<exists>x \<in> ?C ?ch. r' = Some x \<and> (\<forall>b \<in> ?C ?ch. Sublist.prefix (rt_key s b) (rt_key s x)))"
    proof (cases ?b)
      case True
      then show ?thesis using Node.IH(2)[of "Some a" "rn_link n ?b" m'] ch Node.prems(3) by simp
    next
      case False
      then show ?thesis using Node.IH(1)[of "Some a" "rn_link n ?b" m'] ch Node.prems(3) by simp
    qed
    then obtain r' where r': "match_walk s p (rn_link n ?b) m' = Some r'"
      "if ?C ?ch = {} then r' = m'
       else \<exists>x \<in> ?C ?ch. r' = Some x \<and> (\<forall>b \<in> ?C ?ch. Sublist.prefix (rt_key s b) (rt_key s x))"
      by blast
    have ext: "Sublist.prefix (rt_key s a) (rt_key s x)" if "x \<in> ?C ?ch" for x
      using that Node.prems(2) by (auto simp: covering_def split: if_splits dest: append_prefixD)
    have walk: "match_walk s p lk matched = Some r'"
      using n(1) t(1) m 3 lt r'(1) by (subst match_walk.simps) (simp add: Let_def m'_def)
    have C: "?C (Node l a r) = (if has_info s a then {a} else {}) \<union> ?C ?ch"
      unfolding cov using 3 by (simp add: bit)
    show ?thesis
      using r'(2) ext unfolding walk C inf m'_def by (auto split: if_splits)
  qed
qed

lemma route_node_match_spec:
  assumes inv: "rt_inv f s t" and p: "prefix_ok p"
  defines "C \<equiv> covering s (set_tree t) (key p)"
  shows "C = {} \<Longrightarrow> route_node_match s p = Some (None, s)"
    "C \<noteq> {} \<Longrightarrow> \<exists>a n. a \<in> C \<and> rt_mem s a = Some n \<and>
       route_node_match s p = Some (Some a, s\<lparr>rt_mem := (rt_mem s)(a \<mapsto> n\<lparr>rn_lock := rn_lock n + 1\<rparr>)\<rparr>) \<and>
       (\<forall>b \<in> C. Sublist.prefix (rt_key s b) (rt_key s a))"
proof -
  have "\<exists>n. rt_mem s a = Some n \<and> prefix_ok (rn_p n) \<and> rt_key s a = key (rn_p n)" if "a \<in> set_tree t" for a
    using rt_invD(4)[OF inv that] rn_ok_simps(1) by blast
  then obtain r where r: "match_walk s p (rt_top s) None = Some r"
    "if C = {} then r = None else \<exists>a \<in> C. r = Some a \<and> (\<forall>b \<in> C. Sublist.prefix (rt_key s b) (rt_key s a))"
    using match_walk_spec[OF rt_invD(1,2)[OF inv] p, of None] unfolding C_def by blast
  show "C = {} \<Longrightarrow> route_node_match s p = Some (None, s)" using r by (simp add: route_node_match_def)
  assume "C \<noteq> {}"
  with r(2) obtain a where a: "a \<in> C" "r = Some a" "\<forall>b \<in> C. Sublist.prefix (rt_key s b) (rt_key s a)" by auto
  then obtain n where n: "rt_mem s a = Some n" using rt_invD(4)[OF inv] by (auto simp: C_def covering_def)
  then show "\<exists>a n. a \<in> C \<and> rt_mem s a = Some n \<and>
       route_node_match s p = Some (Some a, s\<lparr>rt_mem := (rt_mem s)(a \<mapsto> n\<lparr>rn_lock := rn_lock n + 1\<rparr>)\<rparr>) \<and>
       (\<forall>b \<in> C. Sublist.prefix (rt_key s b) (rt_key s a))"
    using a r(1) route_lock_node_inv(1)[OF inv n] by (intro exI[of _ a] exI[of _ n]) (simp add: route_node_match_def)
qed

subsection \<open>The walk to the place of a prefix\<close>

lemma fits_not_in_ctx: "fits K c k \<Longrightarrow> ctx_radix K c \<Longrightarrow> b \<in> ctx_nodes c \<Longrightarrow> K b \<noteq> k"
proof (induction c rule: ctx_nodes.induct)
  case (2 d a sib c)
  then have k: "Sublist.prefix (K a @ [d]) k" by simp
  have "K a \<noteq> k" using k by (auto dest: prefix_length_le)
  moreover have "K b \<noteq> k" if "b \<in> set_tree sib"
  proof
    assume "K b = k"
    then have "Sublist.prefix (K a @ [\<not> d]) k" using "2.prems"(2) that by auto
    with k show False using prefix_snoc_nth[of "K a"] by blast
  qed
  ultimately show ?case using 2 by auto
qed simp

lemma not_below: "radix K (Node l a r) \<Longrightarrow> \<not> Sublist.prefix (K a) k \<Longrightarrow> b \<in> set_tree (Node l a r) \<Longrightarrow> \<not> Sublist.prefix (K b) k"
  by (auto dest: append_prefixD intro: prefix_order.trans)

text \<open>Where the walk for \<open>p\<close> stops without finding it: a position of the tree \<open>t0\<close> at which the
  key of \<open>p\<close> fits and whose subtree is empty or has a root that does not cover \<open>p\<close>.\<close>

definition stop_at ::
  "'i route_table \<Rightarrow> addr frame list \<Rightarrow> addr tree \<Rightarrow> prefix \<Rightarrow> addr option \<Rightarrow> addr option \<Rightarrow> bool" where
  "stop_at s c t p node match \<longleftrightarrow>
     ctx_at (rt_mem s) (rt_top s) c match node \<and> tree_at (rt_mem s) match node t \<and>
     fits (rt_key s) c (key p) \<and>
     (case t of Leaf \<Rightarrow> node = None | Node _ a _ \<Rightarrow> node = Some a \<and> \<not> Sublist.prefix (rt_key s a) (key p))"

lemma get_walk_spec:
  assumes "ctx_at (rt_mem s) (rt_top s) c par lk" "tree_at (rt_mem s) par lk t" "fits (rt_key s) c (key p)" "prefix_ok p"
    "\<And>a. a \<in> set_tree t \<Longrightarrow> \<exists>n. rt_mem s a = Some n \<and> prefix_ok (rn_p n) \<and> rt_key s a = key (rn_p n)"
  shows "(\<exists>a \<in> set_tree t. get_walk s p lk par = Some (Inl a) \<and> rt_key s a = key p) \<or>
    (\<exists>c' t' node match. get_walk s p lk par = Some (Inr (node, match)) \<and>
       plug c' t' = plug c t \<and> stop_at s c' t' p node match)"
  using assms(1-3,5)
proof (induction t arbitrary: c par lk)
  case Leaf
  then have "get_walk s p lk par = Some (Inr (None, par))" by (subst get_walk.simps) simp
  moreover have "stop_at s c Leaf p None par" using Leaf by (simp add: stop_at_def)
  ultimately show ?case by blast
next
  case (Node l a r)
  obtain n where n: "rt_mem s a = Some n" "prefix_ok (rn_p n)" "rt_key s a = key (rn_p n)"
    using Node.prems(4) by auto
  have t: "lk = Some a" "tree_at (rt_mem s) (Some a) (l_left n) l" "tree_at (rt_mem s) (Some a) (l_right n) r"
    "rn_parent n = par" using Node.prems(2) n(1) by simp_all
  have lk: "length (key p) = prefixlen p" "length (key (rn_p n)) = prefixlen (rn_p n)"
    using assms(4) n(2) by simp_all
  have m: "prefixlen (rn_p n) \<le> prefixlen p \<and> prefix_match (rn_p n) p \<longleftrightarrow> Sublist.prefix (rt_key s a) (key p)"
    using prefix_match_key[OF n(2) assms(4)] lk by (auto simp: n(3) dest: prefix_length_le)
  consider "\<not> Sublist.prefix (rt_key s a) (key p)" | "rt_key s a = key p"
    | "Sublist.prefix (rt_key s a) (key p)" "rt_key s a \<noteq> key p" by blast
  then show ?case
  proof cases
    case 1
    then have "get_walk s p lk par = Some (Inr (lk, par))"
      using n(1) t(1) m by (subst get_walk.simps) auto
    moreover have "stop_at s c (Node l a r) p lk par"
      using Node.prems(1-3) 1 t(1) by (simp add: stop_at_def)
    ultimately show ?thesis by blast
  next
    case 2
    then have "get_walk s p lk par = Some (Inl a)"
      using n(1,3) t(1) m lk by (subst get_walk.simps) auto
    then show ?thesis using 2 by auto
  next
    case 3
    then have lt: "prefixlen (rn_p n) < prefixlen p"
      using lk n(3) by (metis prefix_length_le le_neq_implies_less not_equal_is_parallel parallelE prefix_order.order_refl)
    let ?b = "prefix_bit (u_val p) (prefixlen (rn_p n))"
    have bit: "?b = key p ! length (rt_key s a)"
      using prefix_bit_key[OF assms(4) lt] lk n(3) by simp
    have walk: "get_walk s p lk par = get_walk s p (rn_link n ?b) (Some a)"
      using n(1) t(1) m 3 lt by (subst get_walk.simps) auto
    let ?ch = "if ?b then r else l" and ?sib = "if ?b then l else r"
    let ?c = "(?b, a, ?sib) # c"
    have c: "ctx_at (rt_mem s) (rt_top s) ?c (Some a) (rn_link n ?b)" "tree_at (rt_mem s) (Some a) (rn_link n ?b) ?ch"
      using Node.prems(1) t n(1) by (simp_all add: rn_link_def)
    have "Sublist.prefix (rt_key s a @ [?b]) (key p)"
      unfolding bit by (rule prefix_snocI[OF 3(1)]) (use lk lt n(3) in simp)
    then have f: "fits (rt_key s) ?c (key p)" using Node.prems(3) by simp
    have pl: "plug ?c ?ch = plug c (Node l a r)" by simp
    have sub: "set_tree ?ch \<subseteq> set_tree (Node l a r)" by auto
    have "(\<exists>x \<in> set_tree ?ch. get_walk s p (rn_link n ?b) (Some a) = Some (Inl x) \<and> rt_key s x = key p) \<or>
      (\<exists>c' t' node match. get_walk s p (rn_link n ?b) (Some a) = Some (Inr (node, match)) \<and>
         plug c' t' = plug ?c ?ch \<and> stop_at s c' t' p node match)"
    proof (cases ?b)
      case True
      then show ?thesis using Node.IH(2)[of ?c "Some a" "rn_link n ?b"] c f Node.prems(4) sub by simp
    next
      case False
      then show ?thesis using Node.IH(1)[of ?c "Some a" "rn_link n ?b"] c f Node.prems(4) sub by simp
    qed
    then show ?thesis unfolding walk pl using sub by blast
  qed
qed

subsection \<open>The hash table of nodes\<close>

definition hash_rep :: "'i route_table \<Rightarrow> addr set \<Rightarrow> bool" where
  "hash_rep s A \<longleftrightarrow> thash_ok prefix_cmp prefix_hash_key prefix_valid (rn_keyof s) (rt_hash s) \<and>
     set (thash_items (rt_hash s)) = A"

lemma hash_rep_finite: "hash_rep s A \<Longrightarrow> finite A \<and> length (thash_items (rt_hash s)) = card A"
  by (auto simp: hash_rep_def thash_ok_def distinct_card)

lemma hash_rep_cong:
  assumes "hash_rep s A" "rt_hash s' = rt_hash s" "\<And>a. a \<in> A \<Longrightarrow> rn_keyof s' a = rn_keyof s a"
  shows "hash_rep s' A"
  using assms thash_ok_cong[of "rt_hash s" "rn_keyof s'" "rn_keyof s"] by (simp add: hash_rep_def)

lemma rn_hash_node_add_spec:
  assumes rep: "hash_rep s A" and a: "a \<notin> A" "rt_mem s a = Some n" "prefix_valid (rn_p n)"
    and new: "\<And>x. x \<in> A \<Longrightarrow> prefix_cmp (rn_keyof s x) (rn_p n) \<noteq> 0" and room: "Suc (card A) < 2 ^ 30"
  obtains h where
    "rn_hash_node_add s a =
       Some (s\<lparr>rt_mem := (rt_mem s)(a \<mapsto> n\<lparr>rn_hashval := prefix_hash_key (rn_p n)\<rparr>), rt_hash := h\<rparr>)"
    "hash_rep (s\<lparr>rt_mem := (rt_mem s)(a \<mapsto> n\<lparr>rn_hashval := prefix_hash_key (rn_p n)\<rparr>), rt_hash := h\<rparr>) (insert a A)"
proof -
  let ?s = "s\<lparr>rt_mem := (rt_mem s)(a \<mapsto> n\<lparr>rn_hashval := prefix_hash_key (rn_p n)\<rparr>)\<rparr>"
  have k: "rn_keyof ?s = rn_keyof s" "rn_keyof s a = rn_p n" using a(2) by (auto simp: rn_keyof_def fun_eq_iff)
  have ok: "thash_ok prefix_cmp prefix_hash_key prefix_valid (rn_keyof ?s) (rt_hash s)"
    "set (thash_items (rt_hash s)) = A" using rep by (simp_all add: hash_rep_def k(1))
  have "prefix_valid (rn_keyof ?s a)" "\<forall>y \<in> set (thash_items (rt_hash s)). prefix_cmp (rn_keyof ?s y) (rn_keyof ?s a) \<noteq> 0"
    "Suc (length (thash_items (rt_hash s))) < 2 ^ 30"
    using a new room hash_rep_finite[OF rep] ok(2) by (simp_all add: k)
  then obtain h where h: "thash_add prefix_cmp prefix_hash_key (rn_keyof ?s) (rt_hash s) a = Some (None, h)"
    "thash_ok prefix_cmp prefix_hash_key prefix_valid (rn_keyof ?s) h"
    "mset (thash_items h) = add_mset a (mset (thash_items (rt_hash s)))"
    using rn_hash.add_new[OF ok(1)] by blast
  have "set (thash_items h) = insert a A" using arg_cong[OF h(3), of set_mset] ok(2) by simp
  moreover have "rn_keyof (?s\<lparr>rt_hash := h\<rparr>) = rn_keyof ?s" by (simp add: rn_keyof_def fun_eq_iff)
  ultimately have "hash_rep (?s\<lparr>rt_hash := h\<rparr>) (insert a A)" using h(2) by (simp add: hash_rep_def)
  moreover have "rn_hash_node_add s a = Some (?s\<lparr>rt_hash := h\<rparr>)"
    using a(2) h(1) by (simp add: rn_hash_node_add_def rn_upd_def)
  ultimately show ?thesis using that[of h] by simp
qed

lemma rn_hash_node_del_spec:
  assumes rep: "hash_rep s A" and a: "a \<in> A" "rt_mem s a = Some n" "rn_hashval n = prefix_hash_key (rn_p n)"
  obtains h where "rn_hash_node_del s a = Some (s\<lparr>rt_hash := h\<rparr>)" "hash_rep (s\<lparr>rt_hash := h\<rparr>) (A - {a})"
proof -
  have ok: "thash_ok prefix_cmp prefix_hash_key prefix_valid (rn_keyof s) (rt_hash s)"
    "set (thash_items (rt_hash s)) = A" using rep by (simp_all add: hash_rep_def)
  have k: "rn_keyof s a = rn_p n" using a(2) by (simp add: rn_keyof_def)
  obtain h where h: "thash_del (rt_hash s) a (prefix_hash_key (rn_keyof s a)) = Some (Some a, h)"
    "thash_ok prefix_cmp prefix_hash_key prefix_valid (rn_keyof s) h"
    "thash_items h = filter (\<lambda>y. y \<noteq> a) (thash_items (rt_hash s))"
    using rn_hash.del_item[OF ok(1), of a] a(1) ok(2) by auto
  have "rn_keyof (s\<lparr>rt_hash := h\<rparr>) = rn_keyof s" by (simp add: rn_keyof_def fun_eq_iff)
  then have "hash_rep (s\<lparr>rt_hash := h\<rparr>) (A - {a})" using h(2,3) ok(2) by (auto simp: hash_rep_def)
  moreover have "rn_hash_node_del s a = Some (s\<lparr>rt_hash := h\<rparr>)"
    using a h(1) k by (simp add: rn_hash_node_del_def)
  ultimately show ?thesis using that by blast
qed

text \<open>A new node with a prefix: in a copy of the prefix, only the bytes of the family differ from 0.\<close>

definition fresh_node :: "prefix \<Rightarrow> 'i route_node" where
  "fresh_node p = \<lparr>rn_p = p, rn_parent = None, l_left = None, l_right = None, rn_lock = 0,
     rn_hashval = prefix_hash_key p, rn_info = None\<rparr>"

lemma prefix_copy_zero:
  assumes "prefix_valid p"
  shows "prefix_valid (prefix_copy prefix_zero p)" "key (prefix_copy prefix_zero p) = key p"
    "prefixlen (prefix_copy prefix_zero p) = prefixlen p" "family (prefix_copy prefix_zero p) = family p"
proof -
  let ?n = "fam_bytes (family p)" and ?q = "prefix_copy prefix_zero p"
  have len: "length (u_val p) = 16" and ok: "prefix_ok p" using assms by (simp_all add: prefix_valid_def prefix_ok_def)
  have uv: "u_val ?q = take ?n (u_val p) @ drop ?n (replicate 16 0)"
    by (simp add: prefix_copy_def Let_def prefix_zero_def)
  show l: "prefixlen ?q = prefixlen p" "family ?q = family p" by (simp_all add: prefix_copy_def Let_def)
  show "key ?q = key p" unfolding key_def l uv using prefix_copy_bits[OF ok] .
  have n: "?n \<le> 16" by (cases "family p") simp_all
  have lq: "length (u_val ?q) = 16" unfolding uv using n len by simp
  have "bits_of (u_val ?q) ! i = bits_of (u_val p) ! i" if "i < 8 * ?n" for i
  proof -
    have "i < length (bits_of (take ?n (u_val p)))" using that len n by simp
    then have "bits_of (take ?n (u_val p) @ ys) ! i = bits_of (take ?n (u_val p)) ! i" for ys
      by (simp add: bits_of_append nth_append)
    from this[of "drop ?n (u_val p)"] this[of "drop ?n (replicate 16 0)"] show ?thesis by (simp add: uv)
  qed
  then have "masked ?q" using assms by (simp add: prefix_valid_def masked_def l)
  moreover have "prefix_ok ?q" using ok lq by (simp add: prefix_ok_def l)
  ultimately show "prefix_valid ?q" by (simp add: prefix_valid_def)
qed

lemma route_node_set_spec:
  fixes s :: "'i route_table"
  assumes rep: "hash_rep s A" "rt_brk s \<notin> A" and p: "prefix_valid p" "family p = f"
    and A: "\<And>x. x \<in> A \<Longrightarrow> prefix_ok (rn_keyof s x) \<and> family (rn_keyof s x) = f \<and> rt_key s x \<noteq> key p"
    and room: "Suc (card A) < 2 ^ 30"
  obtains h where
    "route_node_set s p = Some (rt_brk s, s\<lparr>rt_brk := rt_brk s + 1,
       rt_mem := (rt_mem s)(rt_brk s \<mapsto> fresh_node (prefix_copy prefix_zero p)), rt_hash := h\<rparr>)"
    "hash_rep (s\<lparr>rt_brk := rt_brk s + 1,
       rt_mem := (rt_mem s)(rt_brk s \<mapsto> fresh_node (prefix_copy prefix_zero p)), rt_hash := h\<rparr>) (insert (rt_brk s) A)"
proof -
  let ?a = "rt_brk s" and ?p = "prefix_copy prefix_zero p"
  let ?n = "(fresh_node ?p :: 'i route_node)\<lparr>rn_hashval := 0\<rparr>"
  let ?s = "s\<lparr>rt_brk := rt_brk s + 1, rt_mem := (rt_mem s)(?a \<mapsto> ?n)\<rparr>"
  note cp = prefix_copy_zero[OF p(1)]
  have keyof: "rn_keyof ?s x = rn_keyof s x" if "x \<in> A" for x
    using that rep(2) by (auto simp: rn_keyof_def)
  have rep': "hash_rep ?s A" by (rule hash_rep_cong[OF rep(1)]) (simp, rule keyof)
  have new: "prefix_cmp (rn_keyof ?s x) (rn_p ?n) \<noteq> 0" if "x \<in> A" for x
    unfolding keyof[OF that]
    using A[OF that] cp p by (simp add: prefix_cmp_eq_0 prefix_valid_def rt_key_def fresh_node_def)
  have v: "prefix_valid (rn_p ?n)" using cp(1) by (simp add: fresh_node_def)
  have look: "rt_mem ?s ?a = Some ?n" by simp
  obtain h where h: "rn_hash_node_add ?s ?a =
       Some (?s\<lparr>rt_mem := (rt_mem ?s)(?a \<mapsto> ?n\<lparr>rn_hashval := prefix_hash_key (rn_p ?n)\<rparr>), rt_hash := h\<rparr>)"
    "hash_rep (?s\<lparr>rt_mem := (rt_mem ?s)(?a \<mapsto> ?n\<lparr>rn_hashval := prefix_hash_key (rn_p ?n)\<rparr>), rt_hash := h\<rparr>) (insert ?a A)"
    using rn_hash_node_add_spec[OF rep' rep(2) look v new room] by blast
  have "?n\<lparr>rn_hashval := prefix_hash_key (rn_p ?n)\<rparr> = fresh_node ?p" by (simp add: fresh_node_def)
  then show ?thesis
    using that[of h] h by (simp add: route_node_set_def route_node_create_def rn_upd_def fresh_node_def)
qed

subsection \<open>Linking\<close>

lemma rn_link_set [simp]:
  "rn_link (rn_set_link n d v) d' = (if d' = d then v else rn_link n d')"
  "rn_parent (rn_set_link n d v) = rn_parent n" "rn_p (rn_set_link n d v) = rn_p n"
  "rn_lock (rn_set_link n d v) = rn_lock n" "rn_hashval (rn_set_link n d v) = rn_hashval n"
  "rn_info (rn_set_link n d v) = rn_info n"
  by (auto simp: rn_link_def rn_set_link_def)

lemma tree_at_upd_other: "b \<notin> set_tree t \<Longrightarrow> tree_at (m(b := x)) par lk t = tree_at m par lk t"
  by (intro tree_at_cong) (auto simp: same_links_def)

lemma ctx_at_upd_other: "b \<notin> ctx_nodes c \<Longrightarrow> ctx_at (m(b := x)) tp c par hole = ctx_at m tp c par hole"
  by (intro ctx_at_cong) (auto simp: same_links_def)

text \<open>The store after the hole of a context is filled with another link.\<close>

definition fill :: "addr frame list \<Rightarrow> addr option \<Rightarrow> 'i route_table \<Rightarrow> 'i route_table" where
  "fill c v s = (case c of [] \<Rightarrow> s\<lparr>rt_top := v\<rparr>
     | (d, a, sib) # _ \<Rightarrow> s\<lparr>rt_mem := (rt_mem s)(a := map_option (\<lambda>n. rn_set_link n d v) (rt_mem s a))\<rparr>)"

lemma ctx_at_fill:
  assumes "ctx_at (rt_mem s) (rt_top s) c par hole" "distinct (ctx_list c)"
  shows "ctx_at (rt_mem (fill c v s)) (rt_top (fill c v s)) c par v"
proof (cases c)
  case (Cons fr c')
  obtain d a sib where fr: "fr = (d, a, sib)" by (cases fr)
  have "a \<notin> set_tree sib" "a \<notin> ctx_nodes c'"
    using assms(2) by (auto simp: Cons fr set_ctx_list set_preorder)
  then show ?thesis
    using assms(1) by (auto simp: Cons fr fill_def tree_at_upd_other ctx_at_upd_other split: option.splits)
qed (use assms in \<open>simp add: fill_def\<close>)

lemma fill_frame:
  "rt_brk (fill c v s) = rt_brk s" "rt_hash (fill c v s) = rt_hash s" "rt_count (fill c v s) = rt_count s"
  "b \<notin> ctx_nodes c \<Longrightarrow> rt_mem (fill c v s) b = rt_mem s b"
  "dom (rt_mem (fill c v s)) = dom (rt_mem s)"
  "rn_keyof (fill c v s) = rn_keyof s"
  by (auto simp: fill_def rn_keyof_def fun_eq_iff split: list.splits option.splits prod.splits if_splits)

lemma link_below_spec:
  assumes c: "ctx_at (rt_mem s) (rt_top s) c match hole" and w: "rt_mem s new = Some w" "new \<notin> ctx_nodes c"
    and ok: "prefix_ok (rn_p w)" "fits (rt_key s) c (key (rn_p w))" "rn_parent w = None"
    "\<And>a. a \<in> ctx_nodes c \<Longrightarrow> prefix_ok (rn_keyof s a)"
  shows "link_below s match new =
    Some ((fill c (Some new) s)\<lparr>rt_mem := (rt_mem (fill c (Some new) s))(new \<mapsto> w\<lparr>rn_parent := match\<rparr>)\<rparr>)"
proof (cases c)
  case Nil
  then have "match = None" using c by simp
  moreover have "w\<lparr>rn_parent := None\<rparr> = w" using ok(3) by simp
  ultimately show ?thesis using w by (simp add: link_below_def fill_def Nil fun_upd_idem)
next
  case (Cons fr c')
  obtain d a sib where fr: "fr = (d, a, sib)" by (cases fr)
  obtain n where n: "rt_mem s a = Some n" "match = Some a" using c by (auto simp: Cons fr split: option.splits)
  have an: "a \<noteq> new" using w(2) by (auto simp: Cons fr)
  have ka: "rt_key s a = key (rn_p n)" "prefix_ok (rn_p n)"
    using n(1) ok(4)[of a] by (auto simp: rt_key_def rn_keyof_def Cons fr)
  have pre: "Sublist.prefix (key (rn_p n) @ [d]) (key (rn_p w))" using ok(2) by (simp add: Cons fr ka(1))
  then have "length (key (rn_p n)) < length (key (rn_p w))" by (auto dest: prefix_length_le)
  then have "prefixlen (rn_p n) < prefixlen (rn_p w)" using ok(1) ka(2) by simp
  then have "prefix_bit (u_val (rn_p w)) (prefixlen (rn_p n)) = d"
    using prefix_bit_key[OF ok(1)] prefix_snoc_nth[OF pre] ka(2) by simp
  then show ?thesis
    using n w an by (simp add: link_below_def set_link_def rn_upd_def fill_def Cons fr)
qed

end
