(* ===== verification/Route_Insert.thy ===== *)
theory Route_Insert
  imports Route_Inv
begin

text \<open>
  Insertion into the route table: \<^verbatim>\<open>route_node_get\<close> of \<^verbatim>\<open>lib/table.c\<close>. A node is put at the place where
  the walk stopped, as a leaf, above the node that stopped it, or below a new branching node; each
  case keeps the invariant of \<open>Route_Inv\<close> and every node that was there.
\<close>


subsection \<open>Insertion\<close>

lemma rt_inv_alt:
  "rt_inv f s t \<longleftrightarrow> (f = AF_INET \<or> f = AF_INET6) \<and>
     tree_at (rt_mem s) None (rt_top s) t \<and> radix (rt_key s) t \<and> dom (rt_mem s) = set_tree t \<and>
     (\<forall>a n. rt_mem s a = Some n \<longrightarrow> a < rt_brk s \<and> rn_ok f n) \<and> hash_rep s (set_tree t) \<and>
     rt_count s = of_nat (size t)"
proof -
  have "(\<forall>a \<in> set_tree t. a < rt_brk s \<and> rn_ok f (the (rt_mem s a))) \<longleftrightarrow>
      (\<forall>a n. rt_mem s a = Some n \<longrightarrow> a < rt_brk s \<and> rn_ok f n)" if "dom (rt_mem s) = set_tree t"
    unfolding that[symmetric] by (auto simp: dom_def)
  then show ?thesis unfolding rt_inv_def hash_rep_def by blast
qed

text \<open>Nodes that stay keep their prefix, their lock and what the user attached to them.\<close>

definition meta :: "'i route_node \<Rightarrow> prefix \<times> u32 \<times> u32 \<times> 'i option" where
  "meta n = (rn_p n, rn_hashval n, rn_lock n, rn_info n)"

definition keeps :: "addr set \<Rightarrow> 'i route_table \<Rightarrow> 'i route_table \<Rightarrow> bool" where
  "keeps A s s' \<longleftrightarrow> (\<forall>a \<in> A. map_option meta (rt_mem s' a) = map_option meta (rt_mem s a))"

lemma keepsD:
  assumes "keeps A s s'" "a \<in> A"
  shows "rn_keyof s' a = rn_keyof s a" "rt_key s' a = rt_key s a" "has_info s' a = has_info s a"
    "rt_mem s' a = Some n' \<Longrightarrow> \<exists>n. rt_mem s a = Some n \<and> meta n' = meta n"
    "rt_mem s a = Some n \<Longrightarrow> \<exists>n'. rt_mem s' a = Some n' \<and> meta n' = meta n"
    "a \<in> dom (rt_mem s') \<longleftrightarrow> a \<in> dom (rt_mem s)"
proof -
  have m: "map_option meta (rt_mem s' a) = map_option meta (rt_mem s a)"
    using assms by (simp add: keeps_def)
  then have "rn_keyof s' a = rn_keyof s a \<and> has_info s' a = has_info s a"
    by (cases "rt_mem s' a"; cases "rt_mem s a") (simp_all add: rn_keyof_def has_info_def meta_def)
  then show "rn_keyof s' a = rn_keyof s a" "rt_key s' a = rt_key s a" "has_info s' a = has_info s a"
    by (simp_all add: rt_key_def)
  show "rt_mem s' a = Some n' \<Longrightarrow> \<exists>n. rt_mem s a = Some n \<and> meta n' = meta n"
    using m by (cases "rt_mem s a") simp_all
  show "rt_mem s a = Some n \<Longrightarrow> \<exists>n'. rt_mem s' a = Some n' \<and> meta n' = meta n" using m by auto
  show "a \<in> dom (rt_mem s') \<longleftrightarrow> a \<in> dom (rt_mem s)"
    using m by (cases "rt_mem s' a"; cases "rt_mem s a") (simp_all add: domIff)
qed

lemma rn_ok_meta: "meta n' = meta n \<Longrightarrow> rn_ok f n' = rn_ok f n"
  by (simp add: meta_def rn_ok_def)

lemma keeps_refl: "keeps A s s"
  by (simp add: keeps_def)

lemma keeps_trans: "keeps A s s' \<Longrightarrow> keeps A s' s'' \<Longrightarrow> keeps A s s''"
  by (simp add: keeps_def)

lemma keeps_mono: "keeps A s s' \<Longrightarrow> B \<subseteq> A \<Longrightarrow> keeps B s s'"
  by (auto simp: keeps_def)

lemma keeps_fill: "keeps A (s :: 'i route_table) (fill c v s)"
proof (cases c)
  case (Cons fr c')
  obtain d a sib where fr: "fr = (d, a, sib)" by (cases fr)
  have "map_option meta (map_option (\<lambda>n. rn_set_link n d v) x) = map_option meta x" for x :: "'i route_node option"
    by (cases x) (simp_all add: meta_def)
  then show ?thesis by (simp add: keeps_def fill_def Cons fr)
qed (simp add: keeps_def fill_def)

lemma plug_distinct:
  assumes "radix K (plug c t)"
  shows "distinct (ctx_list c)" "set_tree t \<inter> ctx_nodes c = {}" "distinct (preorder t)"
proof -
  have "mset (preorder (plug c t)) = mset (preorder t @ ctx_list c)" by (simp add: preorder_plug_mset)
  then have "distinct (preorder t @ ctx_list c)"
    using preorder_K_inj[OF assms] mset_eq_imp_distinct_iff by blast
  then show "distinct (ctx_list c)" "set_tree t \<inter> ctx_nodes c = {}" "distinct (preorder t)"
    by (auto simp: set_ctx_list set_preorder)
qed

lemma card_set_tree: "radix K t \<Longrightarrow> card (set_tree t) = size t"
  using preorder_K_inj[of K t] distinct_card[of "preorder t"] by (simp add: set_preorder)

lemma stop_at_facts:
  assumes inv: "rt_inv f s (plug c t)" and st: "stop_at s c t p node match"
  shows "ctx_radix (rt_key s) c" "radix (rt_key s) t" "rt_brk s \<notin> set_tree (plug c t)"
    "x \<in> set_tree (plug c t) \<Longrightarrow> prefix_ok (rn_keyof s x) \<and> family (rn_keyof s x) = f \<and> rt_key s x \<noteq> key p"
proof -
  have rad: "radix (rt_key s) (plug c t)" using rt_invD(2)[OF inv] .
  then show r: "ctx_radix (rt_key s) c" "radix (rt_key s) t" by (simp_all add: radix_plug)
  show "rt_brk s \<notin> set_tree (plug c t)" using rt_invD(4)[OF inv] by blast
  have "rt_key s x \<noteq> key p" if "x \<in> set_tree (plug c t)"
  proof (cases "x \<in> ctx_nodes c")
    case True
    then show ?thesis using st by (intro fits_not_in_ctx[OF _ r(1)]) (simp_all add: stop_at_def)
  next
    case False
    then have x: "x \<in> set_tree t" using that by simp
    then obtain l a rr where t: "t = Node l a rr" by (cases t) auto
    have "\<not> Sublist.prefix (rt_key s x) (key p)"
      by (rule not_below[of _ l a rr]) (use st r(2) x in \<open>simp_all add: stop_at_def t\<close>)
    then show ?thesis by auto
  qed
  moreover have "prefix_ok (rn_keyof s x) \<and> family (rn_keyof s x) = f" if x: "x \<in> set_tree (plug c t)"
  proof -
    obtain n where "rt_mem s x = Some n" "rn_ok f n" using rt_invD(4)[OF inv x] by blast
    then show ?thesis using rn_ok_simps(1,4)[of f n] by (simp add: rn_keyof_def)
  qed
  ultimately show "x \<in> set_tree (plug c t) \<Longrightarrow> prefix_ok (rn_keyof s x) \<and> family (rn_keyof s x) = f \<and> rt_key s x \<noteq> key p"
    by blast
qed

text \<open>Nodes that should have been removed: not locked, and a child is missing.\<close>

definition spare :: "'i route_table \<Rightarrow> addr \<Rightarrow> bool" where
  "spare s a \<longleftrightarrow> (case rt_mem s a of None \<Rightarrow> False
     | Some n \<Rightarrow> rn_lock n = 0 \<and> (l_left n = None \<or> l_right n = None))"

lemma rt_compact_spare: "rt_compact s \<longleftrightarrow> (\<forall>a. \<not> spare s a)"
  unfolding rt_compact_def spare_def by (auto split: option.splits)

lemma spare_fill:
  assumes c: "ctx_at (rt_mem s) (rt_top s) c par hole" and x: "spare (fill c (Some v) s) x"
  shows "spare s x" "c = (d, x, sib) # c' \<Longrightarrow> sib = Leaf"
proof -
  have "spare s x \<and> (\<forall>d sib c'. c = (d, x, sib) # c' \<longrightarrow> sib = Leaf)"
  proof (cases c)
    case Nil
    then show ?thesis using x by (simp add: fill_def spare_def)
  next
    case (Cons fr c')
    obtain d a sib where fr: "fr = (d, a, sib)" by (cases fr)
    obtain n where n: "rt_mem s a = Some n" "tree_at (rt_mem s) (Some a) (rn_link n (\<not> d)) sib"
      using c by (auto simp: Cons fr split: option.splits)
    show ?thesis
    proof (cases "x = a")
      case True
      then have "rn_lock n = 0" "rn_link n (\<not> d) = None"
        using x n(1) by (cases d; auto simp: spare_def fill_def Cons fr rn_set_link_def rn_link_def)+
      then show ?thesis using n True by (cases d; cases sib) (auto simp: Cons fr spare_def rn_link_def)
    qed (use x in \<open>auto simp: Cons fr fill_def spare_def\<close>)
  qed
  then show "spare s x" "c = (d, x, sib) # c' \<Longrightarrow> sib = Leaf" by blast+
qed

lemma attach:
  assumes c: "ctx_at (rt_mem s) (rt_top s) c match hole" "distinct (ctx_list c)"
    and w: "rt_mem s new = Some w" "rn_parent w = None" "prefix_ok (rn_p w)" "fits (rt_key s) c (key (rn_p w))"
    and ok: "\<And>a. a \<in> ctx_nodes c \<Longrightarrow> prefix_ok (rn_keyof s a)"
    and sub: "tree_at (rt_mem s) (Some new) (l_left w) l" "tree_at (rt_mem s) (Some new) (l_right w) r"
    and disj: "new \<notin> ctx_nodes c" "(set_tree l \<union> set_tree r) \<inter> insert new (ctx_nodes c) = {}"
  obtains s' where "link_below s match new = Some s'"
    "tree_at (rt_mem s') None (rt_top s') (plug c (Node l new r))" "keeps UNIV s s'"
    "rt_brk s' = rt_brk s" "rt_hash s' = rt_hash s" "rt_count s' = rt_count s"
    "rt_mem s' new = Some (w\<lparr>rn_parent := match\<rparr>)"
    "\<And>x. spare s' x \<Longrightarrow> spare s x \<and> (\<forall>d sib c'. c = (d, x, sib) # c' \<longrightarrow> sib = Leaf)"
proof -
  let ?f = "fill c (Some new) s"
  define s' where "s' = ?f\<lparr>rt_mem := (rt_mem ?f)(new \<mapsto> w\<lparr>rn_parent := match\<rparr>)\<rparr>"
  have lb: "link_below s match new = Some s'"
    unfolding s'_def using c(1) w disj(1) ok by (intro link_below_spec)
  have c': "ctx_at (rt_mem s') (rt_top s') c match (Some new)"
    using ctx_at_fill[OF c] disj(1) by (simp add: s'_def ctx_at_upd_other)
  have same: "rt_mem s' b = rt_mem s b" if "b \<in> set_tree l \<union> set_tree r" for b
  proof -
    have "b \<noteq> new" "b \<notin> ctx_nodes c" using that disj(2) by auto
    then show ?thesis by (simp add: s'_def fill_frame(4))
  qed
  have "tree_at (rt_mem s') (Some new) (l_left w) l" "tree_at (rt_mem s') (Some new) (l_right w) r"
    using sub tree_at_cong[of l "rt_mem s'" "rt_mem s"] tree_at_cong[of r "rt_mem s'" "rt_mem s"] same
    by (simp_all add: same_links_def)
  then have t: "tree_at (rt_mem s') None (rt_top s') (plug c (Node l new r))"
    unfolding tree_at_plug using c' by (intro exI[of _ match] exI[of _ "Some new"]) (simp add: s'_def)
  have k: "keeps UNIV s s'"
    using keeps_fill[of UNIV s c "Some new"] w(1) by (auto simp: keeps_def s'_def meta_def)
  have sp: "spare s x \<and> (\<forall>d sib c'. c = (d, x, sib) # c' \<longrightarrow> sib = Leaf)" if x: "spare s' x" for x
  proof (cases "x = new")
    case True
    then show ?thesis using x w(1) disj(1) by (auto simp: spare_def s'_def)
  next
    case False
    then have "spare ?f x" using x by (simp add: spare_def s'_def)
    from spare_fill[OF c(1) this] show ?thesis by blast
  qed
  show ?thesis by (rule that[OF lb t k _ _ _ _ sp]) (simp_all add: s'_def fill_frame)
qed

lemma rt_inv_add_node:
  assumes inv: "rt_inv f s t" and k: "keeps (set_tree t) s s'" and new: "new \<notin> set_tree t"
    and t': "tree_at (rt_mem s') None (rt_top s') t'" "set_tree t' = insert new (set_tree t)" "size t' = Suc (size t)"
    and rad: "radix (rt_key s') t'" and w: "rt_mem s' new = Some w" "rn_ok f w"
    and dom: "dom (rt_mem s') = insert new (dom (rt_mem s))" and brk: "rt_brk s' = rt_brk s + 1" "new = rt_brk s"
    and h: "hash_rep s' (insert new (set_tree t))" and cnt: "rt_count s' = rt_count s + 1"
  shows "rt_inv f s' t'"
  unfolding rt_inv_alt
proof (intro conjI allI impI)
  show "f = AF_INET \<or> f = AF_INET6" using inv by (simp add: rt_inv_alt)
  show "dom (rt_mem s') = set_tree t'" using dom t'(2) rt_invD(3)[OF inv] by simp
  show "rt_count s' = of_nat (size t')" using inv cnt t'(3) by (simp add: rt_inv_alt)
  show "a < rt_brk s'" "rn_ok f n" if m: "rt_mem s' a = Some n" for a n
  proof -
    have "a < rt_brk s' \<and> rn_ok f n"
    proof (cases "a = new")
      case False
      then have "a \<in> set_tree t" using m dom rt_invD(3)[OF inv] by blast
      then obtain n' where "rt_mem s a = Some n'" "meta n = meta n'" using keepsD(4)[OF k _ m] by blast
      then show ?thesis using rt_invD(5)[OF inv, of a n'] rn_ok_meta[of n n' f] brk(1) by simp
    qed (use m w brk in simp)
    then show "a < rt_brk s'" "rn_ok f n" by simp_all
  qed
qed (use t' rad h in simp_all)

lemma stop_at_keys:
  assumes inv: "rt_inv f s (plug c t)" and st: "stop_at s c t p node match"
    and same: "\<And>b. b \<in> ctx_nodes c \<Longrightarrow> rt_key s1 b = rt_key s b"
  shows "fits (rt_key s1) c k \<longleftrightarrow> fits (rt_key s) c k" "ctx_radix (rt_key s1) c"
  using ctx_radix_cong[of c "rt_key s1" "rt_key s", OF same] stop_at_facts(1)[OF inv st] by blast+

lemma insert_leaf:
  fixes s :: "'i route_table"
  assumes inv: "rt_inv f s (plug c Leaf)" and st: "stop_at s c Leaf p None match"
    and p: "prefix_valid p" "family p = f" and room: "Suc (size (plug c Leaf)) < 2 ^ 30"
    and new: "new = rt_brk s"
  obtains s' n where "route_node_insert s p None match = Some (new, s')"
    "rt_inv f s' (plug c (Node Leaf new Leaf))" "rt_key s' new = key p" "keeps (set_tree (plug c Leaf)) s s'"
    "rt_mem s' new = Some n" "rn_lock n = 1" "rn_info n = None"
    "\<And>x. spare s' x \<Longrightarrow> spare s x \<and> (\<forall>d sib c'. c = (d, x, sib) # c' \<longrightarrow> sib = Leaf)"
proof -
  let ?A = "set_tree (plug c Leaf)" and ?N = "fresh_node (prefix_copy prefix_zero p) :: 'i route_node"
  have i: "radix (rt_key s) (plug c Leaf)" "dom (rt_mem s) = ?A" "hash_rep s ?A" using inv by (auto simp: rt_inv_alt)
  have st': "ctx_at (rt_mem s) (rt_top s) c match None" "fits (rt_key s) c (key p)" using st by (auto simp: stop_at_def)
  note facts = stop_at_facts[OF inv st] and cp = prefix_copy_zero[OF p(1)]
  have newA: "new \<notin> ?A" "new \<notin> ctx_nodes c" using facts(3) by (auto simp: new)
  have card: "Suc (card ?A) < 2 ^ 30" using room card_set_tree[OF i(1)] by simp
  obtain h where h: "route_node_set s p = Some (new, s\<lparr>rt_brk := new + 1, rt_mem := (rt_mem s)(new \<mapsto> ?N), rt_hash := h\<rparr>)"
    "hash_rep (s\<lparr>rt_brk := new + 1, rt_mem := (rt_mem s)(new \<mapsto> ?N), rt_hash := h\<rparr>) (insert new ?A)"
    using route_node_set_spec[OF i(3) newA(1)[unfolded new] p facts(4) card] unfolding new by blast
  define s1 where "s1 = s\<lparr>rt_brk := new + 1, rt_mem := (rt_mem s)(new \<mapsto> ?N), rt_hash := h\<rparr>"
  have k1: "keeps (UNIV - {new}) s s1" by (simp add: keeps_def s1_def)
  have same: "rt_key s1 b = rt_key s b" "rn_keyof s1 b = rn_keyof s b" if "b \<in> ctx_nodes c" for b
    using that newA(2) keepsD(1,2)[OF k1, of b] by auto
  note keys = stop_at_keys[OF inv st same(1)]
  have c1: "ctx_at (rt_mem s1) (rt_top s1) c match None"
    using st'(1) newA(2) by (simp add: s1_def ctx_at_upd_other)
  have w: "rt_mem s1 new = Some ?N" "rn_parent ?N = None" "prefix_ok (rn_p ?N)" "fits (rt_key s1) c (key (rn_p ?N))"
    using cp keys(1) st'(2) by (simp_all add: s1_def fresh_node_def prefix_valid_def)
  have lr: "tree_at (rt_mem s1) (Some new) (l_left ?N) Leaf" "tree_at (rt_mem s1) (Some new) (l_right ?N) Leaf"
    by (simp_all add: fresh_node_def)
  have ok: "prefix_ok (rn_keyof s1 b)" if "b \<in> ctx_nodes c" for b using facts(4)[of b] same(2) that by simp
  obtain s2 where s2: "link_below s1 match new = Some s2"
    "tree_at (rt_mem s2) None (rt_top s2) (plug c (Node Leaf new Leaf))" "keeps UNIV s1 s2"
    "rt_brk s2 = rt_brk s1" "rt_hash s2 = rt_hash s1" "rt_count s2 = rt_count s1"
    "rt_mem s2 new = Some (?N\<lparr>rn_parent := match\<rparr>)"
    "\<And>x. spare s2 x \<Longrightarrow> spare s1 x \<and> (\<forall>d sib c'. c = (d, x, sib) # c' \<longrightarrow> sib = Leaf)"
    using attach[OF c1 plug_distinct(1)[OF i(1)] w ok lr newA(2)] by auto
  define s3 where "s3 = s2\<lparr>rt_mem := (rt_mem s2)(new \<mapsto> ?N\<lparr>rn_parent := match, rn_lock := 1\<rparr>), rt_count := rt_count s + 1\<rparr>"
  have ins: "route_node_insert s p None match = Some (new, s3)"
    using h(1)[folded s1_def] s2(1,6,7)
    by (simp add: route_node_insert_def route_lock_node_def rn_upd_def s3_def s1_def fresh_node_def)
  have k3: "keeps (UNIV - {new}) s s3"
    using k1 s2(3) by (auto simp: keeps_def s3_def)
  have keyof3: "rn_keyof s3 b = rn_keyof s1 b" for b
    using keepsD(1)[OF s2(3), of b] s2(7) by (cases "b = new") (auto simp: rn_keyof_def s3_def)
  then have K3: "rt_key s3 = rt_key s1" by (simp add: rt_key_def fun_eq_iff)
  have K: "rt_key s1 new = key p" using cp by (simp add: s1_def rt_key_def rn_keyof_def fresh_node_def)
  have dom: "dom (rt_mem s3) = insert new (dom (rt_mem s))"
    using keepsD(6)[OF s2(3)] by (auto simp: s3_def s1_def dom_def)
  have inv3: "rt_inv f s3 (plug c (Node Leaf new Leaf))"
  proof (rule rt_inv_add_node[OF inv keeps_mono[OF k3] newA(1)])
    show "tree_at (rt_mem s3) None (rt_top s3) (plug c (Node Leaf new Leaf))"
      using s2(2,7) tree_at_cong[of "plug c (Node Leaf new Leaf)" "rt_mem s3" "rt_mem s2"]
      by (simp add: s3_def same_links_def)
    show "radix (rt_key s3) (plug c (Node Leaf new Leaf))"
      using keys st'(2) K by (simp add: radix_plug K3)
    show "rt_mem s3 new = Some (?N\<lparr>rn_parent := match, rn_lock := 1\<rparr>)" by (simp add: s3_def)
    show "rn_ok f (?N\<lparr>rn_parent := match, rn_lock := 1\<rparr>)" using cp p by (simp add: rn_ok_def fresh_node_def)
    show "hash_rep s3 (insert new ?A)"
      by (rule hash_rep_cong[OF h(2)[folded s1_def]]) (simp add: s3_def s2(5), rule keyof3)
  qed (use newA(1) new dom in \<open>auto simp: s3_def s2(4) s1_def size_plug\<close>)
  have sp: "spare s x \<and> (\<forall>d sib c'. c = (d, x, sib) # c' \<longrightarrow> sib = Leaf)" if x: "spare s3 x" for x
  proof -
    have "x \<noteq> new" using x by (auto simp: spare_def s3_def)
    then have "spare s2 x" using x by (simp add: spare_def s3_def)
    from s2(8)[OF this] \<open>x \<noteq> new\<close> show ?thesis by (simp add: spare_def s1_def)
  qed
  show ?thesis
    by (rule that[OF ins inv3 _ keeps_mono[OF k3] _ _ _ sp])
       (use K K3 newA(1) in \<open>auto simp: s3_def fresh_node_def\<close>)
qed
lemma prefix_of_common:
  assumes "Sublist.prefix z x" "Sublist.prefix z y" "Sublist.prefix (k @ [b]) x" "Sublist.prefix (k @ [\<not> b]) y"
  shows "Sublist.prefix z k"
proof (rule ccontr)
  assume "\<not> Sublist.prefix z k"
  moreover have "Sublist.prefix k x" using assms(3) append_prefixD by blast
  ultimately have "Sublist.prefix k z" "k \<noteq> z" using assms(1) prefix_same_cases by blast+
  then obtain zs where "z = k @ zs" "zs \<noteq> []" by (auto simp: prefix_def)
  then obtain e u where "z = k @ e # u" by (cases zs) auto
  then have "Sublist.prefix (k @ [e]) z" by simp
  then have "Sublist.prefix (k @ [e]) x" "Sublist.prefix (k @ [e]) y" using assms(1,2) prefix_order.trans by blast+
  with assms(3,4) show False using prefix_snoc_nth[of k] by blast
qed

lemma fits_common:
  "fits K c x \<Longrightarrow> fits K c y \<Longrightarrow> Sublist.prefix (k @ [b]) x \<Longrightarrow> Sublist.prefix (k @ [\<not> b]) y \<Longrightarrow> fits K c k"
  by (induction c rule: ctx_nodes.induct) (auto intro: prefix_of_common)

text \<open>The part of \<^verbatim>\<open>route_node_get\<close> that puts a node for the common prefix above node \<open>a\<close>.\<close>

lemma common_key:
  assumes inv: "rt_inv f s (plug c (Node l a r))" and st: "stop_at s c (Node l a r) p (Some a) match"
    and p: "prefix_valid p" "family p = f" and n: "rt_mem s a = Some n"
    and q: "q = (route_common (rn_p n) p prefix_zero)\<lparr>family := family p\<rparr>"
  obtains b where "prefix_valid q" "family q = f" "Sublist.prefix (key q @ [b]) (key (rn_p n))"
    "prefixlen q = prefixlen p \<and> key q = key p \<or> prefixlen q \<noteq> prefixlen p \<and> Sublist.prefix (key q @ [\<not> b]) (key p)"
    "prefix_bit (u_val (rn_p n)) (prefixlen q) = b" "fits (rt_key s) c (key q)"
    "\<And>x. x \<in> set_tree (plug c (Node l a r)) \<Longrightarrow> rt_key s x \<noteq> key q"
proof -
  let ?t = "Node l a r"
  note facts = stop_at_facts[OF inv st]
  have st': "fits (rt_key s) c (key p)" "\<not> Sublist.prefix (rt_key s a) (key p)" using st by (auto simp: stop_at_def)
  have n': "rn_ok f n" "rt_key s a = key (rn_p n)" using rt_invD(5)[OF inv n] by auto
  obtain b where b: "prefix_ok q" "masked q" "family q = family p" "Sublist.prefix (key q @ [b]) (key (rn_p n))"
    "prefixlen q = prefixlen p \<and> key q = key p \<or> prefixlen q < prefixlen p \<and> Sublist.prefix (key q @ [\<not> b]) (key p)"
    using route_common_insert[OF rn_ok_simps(1)[OF n'(1)] _ _ _ q] p st'(2) n' rn_ok_simps(4)[OF n'(1)]
    by (auto simp: prefix_valid_def)
  have bit: "prefix_bit (u_val (rn_p n)) (prefixlen q) = b"
  proof -
    have "length (key q) < length (key (rn_p n))" using b(4) by (auto dest: prefix_length_le)
    then have "prefixlen q < prefixlen (rn_p n)" using b(1) rn_ok_simps(6)[OF n'(1)] by simp
    then show ?thesis using prefix_bit_key[OF rn_ok_simps(1)[OF n'(1)]] prefix_snoc_nth[OF b(4)] b(1) by simp
  qed
  have fq: "fits (rt_key s) c (key q)"
    using b(5)
  proof
    assume "prefixlen q < prefixlen p \<and> Sublist.prefix (key q @ [\<not> b]) (key p)"
    moreover have "fits (rt_key s) c (key (rn_p n))" using rt_invD(2)[OF inv] n'(2) by (simp add: radix_plug)
    ultimately show ?thesis using fits_common[OF _ st'(1) b(4)] by blast
  qed (use st'(1) in simp)
  have kq: "rt_key s x \<noteq> key q" if "x \<in> set_tree (plug c ?t)" for x
  proof (cases "x \<in> ctx_nodes c")
    case False
    then have "x \<in> set_tree ?t" using that by simp
    then have "Sublist.prefix (rt_key s a) (rt_key s x)" using facts(2) by (auto dest: append_prefixD)
    then have "Sublist.prefix (key q @ [b]) (rt_key s x)" using b(4) n'(2) prefix_order.trans by metis
    then show ?thesis by (auto dest: prefix_length_le)
  qed (use fits_not_in_ctx[OF fq facts(1)] in blast)
  show ?thesis by (rule that[OF _ _ b(4) _ bit fq kq]) (use b p in \<open>auto simp: prefix_valid_def\<close>)
qed

text \<open>The node for the common prefix with its link to \<open>a\<close>, before it is linked from above.\<close>

lemma map_option_pair: "map_option (Pair a) x = do { s \<leftarrow> x; Some (a, s) }"
  by (cases x) auto

lemma insert_above_hash:
  fixes s :: "'i route_table"
  assumes inv: "rt_inv f s (plug c (Node l a r))" and n: "rt_mem s a = Some n" and new: "new = rt_brk s"
    and q: "q = (route_common (rn_p n) p prefix_zero)\<lparr>family := family p\<rparr>" "prefix_valid q" "family q = f"
    and bit: "prefix_bit (u_val (rn_p n)) (prefixlen q) = b"
    and kq: "\<And>x. x \<in> set_tree (plug c (Node l a r)) \<Longrightarrow> rt_key s x \<noteq> key q"
    and room: "Suc (size (plug c (Node l a r))) < 2 ^ 30"
    and W: "W = rn_set_link (fresh_node q) b (Some a)"
  obtains h where
    "insert_above s p a match = map_option (Pair new) (link_below (s\<lparr>rt_brk := new + 1,
       rt_mem := (rt_mem s)(a \<mapsto> n\<lparr>rn_parent := Some new\<rparr>, new \<mapsto> W), rt_hash := h\<rparr>) match new)"
    "hash_rep (s\<lparr>rt_brk := new + 1,
       rt_mem := (rt_mem s)(a \<mapsto> n\<lparr>rn_parent := Some new\<rparr>, new \<mapsto> W), rt_hash := h\<rparr>)
       (insert new (set_tree (plug c (Node l a r))))"
proof -
  let ?A = "set_tree (plug c (Node l a r))" and ?W = "W\<lparr>rn_hashval := 0\<rparr>"
  have newA: "new \<notin> ?A" "new \<noteq> a" using rt_invD(4)[OF inv] new by auto
  define s1 where "s1 = s\<lparr>rt_brk := new + 1, rt_mem := (rt_mem s)(a \<mapsto> n\<lparr>rn_parent := Some new\<rparr>, new \<mapsto> ?W)\<rparr>"
  have bit': "prefix_bit (u_val (rn_p n)) (prefixlen (route_common (rn_p n) p prefix_zero)) = b"
    using bit by (simp add: q(1))
  have pre: "insert_above s p a match = do { s \<leftarrow> rn_hash_node_add s1 new; map_option (Pair new) (link_below s match new) }"
    using n newA(2) bit'
    by (simp add: insert_above_def route_node_create_def rn_upd_def set_link_def s1_def W new
        fresh_node_def rn_set_link_def q(1)[symmetric] fun_upd_twist map_option_pair)
  have keyof: "rn_keyof s1 x = rn_keyof s x" if "x \<in> ?A" for x
    using that newA(1) n by (auto simp: s1_def rn_keyof_def)
  have rep: "hash_rep s1 ?A"
    by (rule hash_rep_cong[of s]) (use inv keyof in \<open>auto simp: rt_inv_alt s1_def\<close>)
  have look: "rt_mem s1 new = Some ?W" by (simp add: s1_def)
  have v: "prefix_valid (rn_p ?W)" using q(2) by (simp add: W fresh_node_def)
  have diff: "prefix_cmp (rn_keyof s1 x) (rn_p ?W) \<noteq> 0" if x: "x \<in> ?A" for x
  proof -
    obtain m where "rt_mem s x = Some m" "rn_ok f m" using rt_invD(4)[OF inv x] by blast
    then have "prefix_ok (rn_keyof s x)" "rn_keyof s x = rn_p m" using rn_ok_simps(1)[of f m] by (simp_all add: rn_keyof_def)
    then show ?thesis using kq[OF x] q(2) unfolding keyof[OF x]
      by (simp add: prefix_cmp_eq_0 prefix_valid_def W fresh_node_def rt_key_def)
  qed
  have card: "Suc (card ?A) < 2 ^ 30" using room card_set_tree[OF rt_invD(2)[OF inv]] by simp
  have "?W\<lparr>rn_hashval := prefix_hash_key (rn_p ?W)\<rparr> = W" by (simp add: W fresh_node_def rn_set_link_def)
  then obtain h where "rn_hash_node_add s1 new = Some (s1\<lparr>rt_mem := (rt_mem s1)(new \<mapsto> W), rt_hash := h\<rparr>)"
    "hash_rep (s1\<lparr>rt_mem := (rt_mem s1)(new \<mapsto> W), rt_hash := h\<rparr>) (insert new ?A)"
    using rn_hash_node_add_spec[OF rep newA(1) look v diff card] by auto
  then show ?thesis using pre that[of h] by (simp add: s1_def)
qed

lemma insert_above_spec:
  fixes s :: "'i route_table"
  assumes inv: "rt_inv f s (plug c (Node l a r))" and st: "stop_at s c (Node l a r) p (Some a) match"
    and p: "prefix_valid p" "family p = f" and room: "Suc (size (plug c (Node l a r))) < 2 ^ 30"
    and new: "new = rt_brk s"
  obtains s' w b where "insert_above s p a match = Some (new, s')" "rt_count s' = rt_count s"
    "rt_inv f (s'\<lparr>rt_count := rt_count s + 1\<rparr>) (plug c (mk_node b (Node l a r) new Leaf))"
    "keeps (set_tree (plug c (Node l a r))) s s'" "rt_mem s' new = Some w" "rn_lock w = 0" "rn_info w = None"
    "prefixlen (rn_p w) = prefixlen p \<and> key (rn_p w) = key p \<or>
     prefixlen (rn_p w) \<noteq> prefixlen p \<and> Sublist.prefix (key (rn_p w) @ [\<not> b]) (key p)"
    "\<And>x. spare s' x \<Longrightarrow> x \<noteq> new \<Longrightarrow> spare s x"
proof -
  let ?t = "Node l a r" and ?A = "set_tree (plug c (Node l a r))"
  have rad: "radix (rt_key s) (plug c ?t)" using rt_invD(2)[OF inv] .
  have st': "ctx_at (rt_mem s) (rt_top s) c match (Some a)" "tree_at (rt_mem s) match (Some a) ?t"
    using st by (auto simp: stop_at_def)
  note facts = stop_at_facts[OF inv st] and dist = plug_distinct[OF rad]
  have newA: "new \<notin> ?A" using facts(3) new by simp
  obtain n where n: "rt_mem s a = Some n" using rt_invD(4)[OF inv, of a] by auto
  define q where "q = (route_common (rn_p n) p prefix_zero)\<lparr>family := family p\<rparr>"
  obtain b where q: "prefix_valid q" "family q = f" "Sublist.prefix (key q @ [b]) (key (rn_p n))"
    "prefixlen q = prefixlen p \<and> key q = key p \<or> prefixlen q \<noteq> prefixlen p \<and> Sublist.prefix (key q @ [\<not> b]) (key p)"
    "prefix_bit (u_val (rn_p n)) (prefixlen q) = b" "fits (rt_key s) c (key q)" "\<And>x. x \<in> ?A \<Longrightarrow> rt_key s x \<noteq> key q"
    using common_key[OF inv st p n q_def] by blast
  define W where "W = (rn_set_link (fresh_node q) b (Some a) :: 'i route_node)"
  obtain h where h: "insert_above s p a match = map_option (Pair new) (link_below (s\<lparr>rt_brk := new + 1,
       rt_mem := (rt_mem s)(a \<mapsto> n\<lparr>rn_parent := Some new\<rparr>, new \<mapsto> W), rt_hash := h\<rparr>) match new)"
    "hash_rep (s\<lparr>rt_brk := new + 1, rt_mem := (rt_mem s)(a \<mapsto> n\<lparr>rn_parent := Some new\<rparr>, new \<mapsto> W), rt_hash := h\<rparr>) (insert new ?A)"
    using insert_above_hash[OF inv n new q_def q(1,2,5,7) room W_def] by blast
  define s2 where "s2 = s\<lparr>rt_brk := new + 1, rt_mem := (rt_mem s)(a \<mapsto> n\<lparr>rn_parent := Some new\<rparr>, new \<mapsto> W), rt_hash := h\<rparr>"
  have k2: "keeps (UNIV - {new}) s s2" using n by (auto simp: keeps_def s2_def meta_def)
  have nctx: "a \<notin> ctx_nodes c" "new \<notin> ctx_nodes c" "new \<noteq> a" "a \<notin> set_tree l \<union> set_tree r" "new \<notin> set_tree l \<union> set_tree r"
    using dist(2,3) newA by (auto simp: set_preorder)
  have same: "rt_key s2 x = rt_key s x" "rn_keyof s2 x = rn_keyof s x" if "x \<noteq> new" for x
    using keepsD(1,2)[OF k2, of x] that by simp_all
  have K: "rt_key s2 new = key q" by (simp add: s2_def rt_key_def rn_keyof_def W_def fresh_node_def)
  have samec: "rt_key s2 x = rt_key s x" if "x \<in> ctx_nodes c" for x using same(1)[of x] that nctx(2) by auto
  note keys = stop_at_keys[OF inv st samec]
  have c2: "ctx_at (rt_mem s2) (rt_top s2) c match (Some a)"
    using st'(1) nctx(1,2) by (simp add: s2_def ctx_at_upd_other)
  have t2: "tree_at (rt_mem s2) (Some new) (Some a) ?t"
    using st'(2) n nctx(3-5) by (simp add: s2_def tree_at_upd_other)
  have w: "rt_mem s2 new = Some W" "rn_parent W = None" "prefix_ok (rn_p W)" "fits (rt_key s2) c (key (rn_p W))"
    using q(1,6) keys(1) by (simp_all add: s2_def W_def fresh_node_def prefix_valid_def)
  have ok: "prefix_ok (rn_keyof s2 x)" if "x \<in> ctx_nodes c" for x
  proof -
    have "x \<noteq> new" using that nctx(2) by blast
    then show ?thesis using facts(4)[of x] same(2)[of x] that by simp
  qed
  let ?l = "if b then Leaf else ?t" and ?r = "if b then ?t else Leaf"
  have lr: "tree_at (rt_mem s2) (Some new) (l_left W) ?l" "tree_at (rt_mem s2) (Some new) (l_right W) ?r"
    using t2 by (simp_all add: W_def rn_set_link_def fresh_node_def)
  have mk: "mk_node b ?t new Leaf = Node ?l new ?r" by simp
  have dj: "(set_tree ?l \<union> set_tree ?r) \<inter> insert new (ctx_nodes c) = {}" using dist(2) nctx by auto
  have rad2: "radix (rt_key s2) (plug c (Node ?l new ?r))"
  proof -
    have sm: "rt_key s2 x = rt_key s x" if "x \<in> set_tree ?t" for x using that same(1)[of x] nctx(3,5) by auto
    have "Sublist.prefix (key q @ [b]) (rt_key s2 x)" if "x \<in> set_tree ?t" for x
    proof -
      have "Sublist.prefix (rt_key s a) (rt_key s x)" using that facts(2) by (auto dest: append_prefixD)
      moreover have "rt_key s a = key (rn_p n)" using rt_invD(5)[OF inv n] by blast
      ultimately show ?thesis using q(3) sm[OF that] prefix_order.trans by metis
    qed
    moreover have "radix (rt_key s2) ?t" using radix_cong[of ?t "rt_key s2" "rt_key s"] sm facts(2) by blast
    moreover have "fits (rt_key s2) c (rt_key s2 x)" if "x \<in> set_tree ?t" for x
    proof -
      have "fits (rt_key s) c (rt_key s x)" using rad that unfolding radix_plug by blast
      then show ?thesis using keys(1) sm[OF that] by simp
    qed
    ultimately show ?thesis using keys q(6) K unfolding radix_plug by (cases b) auto
  qed
  obtain s3 where s3: "link_below s2 match new = Some s3"
    "tree_at (rt_mem s3) None (rt_top s3) (plug c (Node ?l new ?r))" "keeps UNIV s2 s3"
    "rt_brk s3 = rt_brk s2" "rt_hash s3 = rt_hash s2" "rt_count s3 = rt_count s2"
    "rt_mem s3 new = Some (W\<lparr>rn_parent := match\<rparr>)"
    "\<And>x. spare s3 x \<Longrightarrow> spare s2 x \<and> (\<forall>d sib c'. c = (d, x, sib) # c' \<longrightarrow> sib = Leaf)"
    using attach[OF c2 dist(1) w ok lr nctx(2) dj] by blast
  have k3: "keeps (UNIV - {new}) s s3" using keeps_trans[OF k2 keeps_mono[OF s3(3)]] by simp
  have keyof3: "rn_keyof s3 = rn_keyof s2" "rt_key s3 = rt_key s2"
    using keepsD(1,2)[OF s3(3)] by (simp_all add: fun_eq_iff)
  let ?s' = "s3\<lparr>rt_count := rt_count s + 1\<rparr>"
  have keyof': "rn_keyof ?s' = rn_keyof s2" "rt_key ?s' = rt_key s2"
    using keyof3 by (simp_all add: rn_keyof_def rt_key_def fun_eq_iff)
  have "rt_inv f ?s' (plug c (Node ?l new ?r))"
  proof (rule rt_inv_add_node[OF inv _ newA])
    show "keeps ?A s ?s'" using k3 newA by (auto simp: keeps_def)
    show "radix (rt_key ?s') (plug c (Node ?l new ?r))" unfolding keyof'(2) by (fact rad2)
    show "rt_mem ?s' new = Some (W\<lparr>rn_parent := match\<rparr>)" using s3(7) by simp
    show "rn_ok f (W\<lparr>rn_parent := match\<rparr>)" using q(1,2) by (simp add: rn_ok_def W_def fresh_node_def)
    show "dom (rt_mem ?s') = insert new (dom (rt_mem s))"
      using keepsD(6)[OF s3(3)] n by (auto simp: s2_def dom_def)
    show "hash_rep ?s' (insert new ?A)"
      by (rule hash_rep_cong[OF h(2)[folded s2_def]]) (simp_all add: keyof' s3(5))
  qed (use s3(2,4) new in \<open>auto simp: s2_def size_plug\<close>)
  then have inv': "rt_inv f ?s' (plug c (mk_node b ?t new Leaf))" unfolding mk .
  show ?thesis
  proof (rule that)
    show "insert_above s p a match = Some (new, s3)" using h(1) s3(1) by (simp add: s2_def)
    show "rt_inv f ?s' (plug c (mk_node b ?t new Leaf))" by (fact inv')
    show "keeps ?A s s3" using k3 newA by (auto simp: keeps_def)
    show "spare s x" if "spare s3 x" "x \<noteq> new" for x
      using s3(8)[OF that(1)] that(2) n by (auto simp: spare_def s2_def split: if_splits)
  qed (use s3(6,7) q(4) in \<open>auto simp: s2_def W_def fresh_node_def\<close>)
qed

text \<open>The counter is only counted.\<close>

abbreviation with_count :: "'i route_table \<Rightarrow> u64 \<Rightarrow> 'i route_table" where
  "with_count s k \<equiv> s\<lparr>rt_count := k\<rparr>"

lemma rn_keyof_count: "rn_keyof (with_count s k) = rn_keyof s"
  by (simp add: rn_keyof_def fun_eq_iff)

lemma rn_upd_count: "rn_upd (with_count s k) a g = map_option (\<lambda>s. with_count s k) (rn_upd s a g)"
  by (cases "rt_mem s a") (simp_all add: rn_upd_def)

lemma route_node_set_count:
  "route_node_set (with_count s k) p = map_option (\<lambda>(a, s). (a, with_count s k)) (route_node_set s p)"
proof -
  have hash: "rn_hash_node_add (with_count s k) a = map_option (\<lambda>s. with_count s k) (rn_hash_node_add s a)"
    for a and s :: "'a route_table"
    unfolding rn_hash_node_add_def rn_upd_count
    by (cases "rn_upd s a (\<lambda>n. n\<lparr>rn_hashval := prefix_hash_key (rn_p n)\<rparr>)")
       (auto simp: rn_keyof_count split: bind_splits)
  have create: "route_node_create (with_count s k) = map_prod id (\<lambda>s. with_count s k) (route_node_create s)"
    by (simp add: route_node_create_def)
  show ?thesis unfolding route_node_set_def create
    by (auto simp: rn_upd_count hash split: prod.splits bind_splits)
qed

lemma set_link_count: "set_link (with_count s k) a b = map_option (\<lambda>s. with_count s k) (set_link s a b)"
  unfolding set_link_def by (auto simp: rn_upd_count split: bind_splits)

lemma count_kept:
  "route_node_set s p = Some (a, s') \<Longrightarrow> rt_count s' = rt_count s"
  "set_link s b c = Some s' \<Longrightarrow> rt_count s' = rt_count s"
  using route_node_set_count[where s = s and k = "rt_count s" and p = p]
    set_link_count[where s = s and k = "rt_count s" and a = b and b = c]
  by (auto dest: arg_cong[where f = rt_count])

lemma insert_below_new:
  assumes "insert_above s p a match = Some (new, s1)" "rt_mem s1 new = Some w" "prefixlen (rn_p w) \<noteq> prefixlen p"
  shows "route_node_insert s p (Some a) match = route_node_insert (with_count s1 (rt_count s1 + 1)) p None (Some new)"
  using assms
  by (auto simp: route_node_insert_def route_node_set_count link_below_def set_link_count count_kept
      split: bind_splits)

definition inserted ::
  "family \<Rightarrow> 'i route_table \<Rightarrow> addr tree \<Rightarrow> prefix \<Rightarrow> addr \<Rightarrow> 'i route_table \<Rightarrow> addr tree \<Rightarrow> bool" where
  "inserted f s t p a s' t' \<longleftrightarrow>
     rt_inv f s' t' \<and> a \<in> set_tree t' - set_tree t \<and> rt_key s' a = key p \<and> keeps (set_tree t) s s' \<and>
     set_tree t \<subseteq> set_tree t' \<and> size t' \<le> size t + 2 \<and>
     (\<forall>x \<in> set_tree t' - set_tree t. \<exists>n. rt_mem s' x = Some n \<and> rn_info n = None \<and>
        rn_lock n = (if x = a then 1 else 0)) \<and> (rt_compact s \<longrightarrow> rt_compact s')"

lemma insert_at_leaf:
  assumes inv: "rt_inv f s (plug c Leaf)" and st: "stop_at s c Leaf p None match"
    and p: "prefix_valid p" "family p = f" and room: "Suc (size (plug c Leaf)) < 2 ^ 30"
  shows "\<exists>a s' t'. route_node_insert s p None match = Some (a, s') \<and> inserted f s (plug c Leaf) p a s' t'"
proof -
  obtain s' n where r: "route_node_insert s p None match = Some (rt_brk s, s')"
    "rt_inv f s' (plug c (Node Leaf (rt_brk s) Leaf))" "rt_key s' (rt_brk s) = key p" "keeps (set_tree (plug c Leaf)) s s'"
    "rt_mem s' (rt_brk s) = Some n" "rn_lock n = 1" "rn_info n = None"
    "\<And>x. spare s' x \<Longrightarrow> spare s x \<and> (\<forall>d sib c'. c = (d, x, sib) # c' \<longrightarrow> sib = Leaf)"
    using insert_leaf[OF inv st p room refl] by blast
  have "inserted f s (plug c Leaf) p (rt_brk s) s' (plug c (Node Leaf (rt_brk s) Leaf))"
    unfolding inserted_def
  proof (intro conjI)
    show "rt_compact s \<longrightarrow> rt_compact s'" using r(8) by (auto simp: rt_compact_spare)
    show "\<forall>x \<in> set_tree (plug c (Node Leaf (rt_brk s) Leaf)) - set_tree (plug c Leaf).
        \<exists>n. rt_mem s' x = Some n \<and> rn_info n = None \<and> rn_lock n = (if x = rt_brk s then 1 else 0)"
      using r(5,6,7) by auto
    show "rt_brk s \<in> set_tree (plug c (Node Leaf (rt_brk s) Leaf)) - set_tree (plug c Leaf)"
      using stop_at_facts(3)[OF inv st] by simp
  qed (use r in \<open>auto simp: size_plug\<close>)
  then show ?thesis using r(1) by blast
qed

lemma insert_equal:
  assumes inv: "rt_inv f (with_count s1 k) t'" and t': "set_tree t' = insert new (set_tree t)" "new \<notin> set_tree t" "size t' = Suc (size t)"
    and w: "rt_mem s1 new = Some w" "rn_lock w = 0" "rn_info w = None" "prefixlen (rn_p w) = prefixlen p" "key (rn_p w) = key p"
    and keeps: "keeps (set_tree t) s s1"
    and spare: "\<And>x. spare s1 x \<Longrightarrow> x \<noteq> new \<Longrightarrow> spare s x"
    and above: "insert_above s p a match = Some (new, s1)" and k: "k = rt_count s1 + 1"
  shows "\<exists>a' s'. route_node_insert s p (Some a) match = Some (a', s') \<and> inserted f s t p a' s' t'"
proof -
  let ?s = "with_count s1 k" and ?w = "w\<lparr>rn_lock := rn_lock w + 1\<rparr>"
  let ?s' = "?s\<lparr>rt_mem := (rt_mem ?s)(new \<mapsto> ?w)\<rparr>"
  have l: "rt_mem ?s new = Some w" using w(1) by simp
  have ins: "route_node_insert s p (Some a) match = Some (new, ?s')"
    using above w(1,4) by (simp add: route_node_insert_def k route_lock_node_def rn_upd_def)
  have "inserted f s t p new ?s' t'"
    unfolding inserted_def
  proof (intro conjI)
    show "rt_inv f ?s' t'" using route_lock_node_inv(2)[OF inv l] by simp
    show "rt_key ?s' new = key p" using w(5) by (simp add: rt_key_def rn_keyof_def)
    show "keeps (set_tree t) s ?s'" using keeps t'(2) by (auto simp: keeps_def)
    show "rt_compact s \<longrightarrow> rt_compact ?s'"
      unfolding rt_compact_spare
    proof (intro impI allI notI)
      fix x assume a: "\<forall>x. \<not> spare s x" "spare ?s' x"
      then have "x \<noteq> new" using w(2) by (auto simp: spare_def)
      then show False using a spare[of x] by (auto simp: spare_def)
    qed
  qed (use t' w in auto)
  then show ?thesis using ins by blast
qed

lemma inserted_trans:
  assumes i: "inserted f s1 t1 p a s' t'" and t1: "set_tree t1 = insert new (set_tree t)" "new \<notin> set_tree t" "size t' = Suc (size t1)" "size t1 = Suc (size t)"
    and keeps: "keeps (set_tree t) s s1" and w: "rt_mem s1 new = Some w" "rn_lock w = 0" "rn_info w = None"
    and cpt: "rt_compact s \<longrightarrow> rt_compact s'"
  shows "inserted f s t p a s' t'"
  unfolding inserted_def
proof (intro conjI)
  have k: "keeps (set_tree t1) s1 s'" using i by (simp add: inserted_def)
  show "keeps (set_tree t) s s'" using keeps_trans[OF keeps keeps_mono[OF k]] t1(1) by auto
  obtain n where n: "rt_mem s' new = Some n" "meta n = meta w" using keepsD(5)[OF k _ w(1)] t1(1) by auto
  then have "rn_info n = None" "rn_lock n = 0" using w(2,3) by (simp_all add: meta_def)
  moreover have "new \<noteq> a" using i t1(1) by (auto simp: inserted_def)
  ultimately have "\<exists>n. rt_mem s' x = Some n \<and> rn_info n = None \<and> rn_lock n = (if x = a then 1 else 0)"
    if "x \<in> set_tree t' - set_tree t" for x
    using i t1(1) n(1) that unfolding inserted_def by (cases "x = new") simp_all
  then show "\<forall>x \<in> set_tree t' - set_tree t. \<exists>n. rt_mem s' x = Some n \<and> rn_info n = None \<and> rn_lock n = (if x = a then 1 else 0)"
    by blast
qed (use i t1 cpt in \<open>auto simp: inserted_def\<close>)

lemma insert_branch:
  fixes s1 :: "'i route_table"
  assumes inv: "rt_inv f s1 (plug c (mk_node b (Node l a r) new Leaf))"
    and w: "rt_mem s1 new = Some w" "rn_lock w = 0" "rn_info w = None"
    and keeps: "keeps (set_tree (plug c (Node l a r))) s s1"
    and fit: "fits (rt_key s) c (key p)" "Sublist.prefix (key (rn_p w) @ [\<not> b]) (key p)"
    and p: "prefix_valid p" "family p = f"
    and room: "Suc (Suc (size (plug c (Node l a r)))) < 2 ^ 30"
    and spare: "\<And>x. spare s1 x \<Longrightarrow> x \<noteq> new \<Longrightarrow> spare s x" and new: "new \<notin> set_tree (plug c (Node l a r))"
  shows "\<exists>a' s' t'. route_node_insert s1 p None (Some new) = Some (a', s') \<and>
           inserted f s (plug c (Node l a r)) p a' s' t'"
proof -
  let ?t = "Node l a r" and ?c = "(\<not> b, new, Node l a r) # c" and ?brk = "rt_brk s1"
  have pl: "plug c (mk_node b ?t new Leaf) = plug ?c Leaf" by simp
  have inv': "rt_inv f s1 (plug ?c Leaf)" using inv unfolding pl .
  have kw: "rt_key s1 new = key (rn_p w)" using rt_invD(5)[OF inv w(1)] by blast
  have "rt_key s1 x = rt_key s x" if "x \<in> ctx_nodes c" for x
    using keepsD(2)[OF keeps, of x] that by simp
  then have "fits (rt_key s1) c (key p)" using ctx_radix_cong[of c "rt_key s1" "rt_key s"] fit(1) by blast
  moreover obtain par where "ctx_at (rt_mem s1) (rt_top s1) ?c par None"
    using rt_invD(1)[OF inv'] unfolding tree_at_plug by auto
  ultimately have st: "stop_at s1 ?c Leaf p None (Some new)" using fit(2) kw by (simp add: stop_at_def)
  have room': "Suc (size (plug ?c Leaf)) < 2 ^ 30" using room by (simp add: size_plug)
  obtain s' n where r: "route_node_insert s1 p None (Some new) = Some (?brk, s')"
    "rt_inv f s' (plug ?c (Node Leaf ?brk Leaf))" "rt_key s' ?brk = key p" "keeps (set_tree (plug ?c Leaf)) s1 s'"
    "rt_mem s' ?brk = Some n" "rn_lock n = 1" "rn_info n = None"
    "\<And>x. spare s' x \<Longrightarrow> spare s1 x \<and> (\<forall>d sib c'. ?c = (d, x, sib) # c' \<longrightarrow> sib = Leaf)"
    using insert_leaf[OF inv' st p room' refl] by blast
  have fresh: "?brk \<notin> set_tree (plug ?c Leaf)" using stop_at_facts(3)[OF inv' st] .
  have "inserted f s1 (plug ?c Leaf) p ?brk s' (plug ?c (Node Leaf ?brk Leaf))"
    unfolding inserted_def
  proof (intro conjI)
    show "rt_compact s1 \<longrightarrow> rt_compact s'" using r(8) by (auto simp: rt_compact_spare)
    show "\<forall>x \<in> set_tree (plug ?c (Node Leaf ?brk Leaf)) - set_tree (plug ?c Leaf).
        \<exists>n. rt_mem s' x = Some n \<and> rn_info n = None \<and> rn_lock n = (if x = ?brk then 1 else 0)"
      using r(5,6,7) by auto
  qed (use r fresh in \<open>auto simp: size_plug\<close>)
  moreover have set: "set_tree (plug ?c Leaf) = insert new (set_tree (plug c ?t))" by auto
  moreover have size: "size (plug ?c (Node Leaf ?brk Leaf)) = Suc (size (plug ?c Leaf))"
    "size (plug ?c Leaf) = Suc (size (plug c ?t))" by (auto simp: size_plug)
  moreover have "\<not> spare s' x" if s: "rt_compact s" for x
  proof
    assume x: "spare s' x"
    then have "x \<noteq> new" using r(8)[OF x] by auto
    then show False using r(8)[OF x] spare[of x] s by (auto simp: rt_compact_spare)
  qed
  then have "rt_compact s \<longrightarrow> rt_compact s'" by (simp add: rt_compact_spare)
  ultimately have "inserted f s (plug c ?t) p ?brk s' (plug ?c (Node Leaf ?brk Leaf))"
    using inserted_trans[OF _ set new size keeps w] by blast
  then show ?thesis using r(1) by blast
qed

lemma route_node_insert_spec:
  fixes s :: "'i route_table"
  assumes inv: "rt_inv f s (plug c t)" and st: "stop_at s c t p node match"
    and p: "prefix_valid p" "family p = f" and room: "Suc (Suc (size (plug c t))) < 2 ^ 30"
  shows "\<exists>a s' t'. route_node_insert s p node match = Some (a, s') \<and> inserted f s (plug c t) p a s' t'"
proof (cases t)
  case Leaf
  moreover from this have "node = None" using st by (simp add: stop_at_def)
  ultimately show ?thesis using insert_at_leaf[of f s c p match] assms by simp
next
  case (Node l a r)
  let ?new = "rt_brk s" and ?t = "Node l a r"
  have node: "node = Some a" and fit: "fits (rt_key s) c (key p)" using st Node by (auto simp: stop_at_def)
  note inv' = inv[unfolded Node] and st' = st[unfolded Node node]
  have fresh: "?new \<notin> set_tree (plug c ?t)" by (rule stop_at_facts(3)[OF inv' st'])
  have room': "Suc (size (plug c ?t)) < 2 ^ 30" using room Node by simp
  obtain s1 w b where r: "insert_above s p a match = Some (?new, s1)" "rt_count s1 = rt_count s"
    "rt_inv f (s1\<lparr>rt_count := rt_count s + 1\<rparr>) (plug c (mk_node b ?t ?new Leaf))"
    "keeps (set_tree (plug c ?t)) s s1" "rt_mem s1 ?new = Some w" "rn_lock w = 0" "rn_info w = None"
    "prefixlen (rn_p w) = prefixlen p \<and> key (rn_p w) = key p \<or>
     prefixlen (rn_p w) \<noteq> prefixlen p \<and> Sublist.prefix (key (rn_p w) @ [\<not> b]) (key p)"
    "\<And>x. spare s1 x \<Longrightarrow> x \<noteq> ?new \<Longrightarrow> spare s x"
    by (rule insert_above_spec[OF inv' st' p room' refl]) (rule that)
  have set: "set_tree (plug c (mk_node b ?t ?new Leaf)) = insert ?new (set_tree (plug c ?t))"
    "size (plug c (mk_node b ?t ?new Leaf)) = Suc (size (plug c ?t))" "rt_count s + 1 = rt_count s1 + 1"
    by (auto simp: size_plug r(2))
  show ?thesis
  proof (cases "prefixlen (rn_p w) = prefixlen p")
    case True
    then have "key (rn_p w) = key p" using r(8) by simp
    then show ?thesis unfolding node Node
      using insert_equal[OF r(3) _ fresh _ r(5,6,7) True _ r(4,9,1)] r(2) set by blast
  next
    case False
    let ?s1 = "with_count s1 (rt_count s + 1)"
    have "\<exists>a' s' t'. route_node_insert ?s1 p None (Some ?new) = Some (a', s') \<and> inserted f s (plug c ?t) p a' s' t'"
    proof (rule insert_branch[OF r(3)])
      show "keeps (set_tree (plug c ?t)) s ?s1" using r(4) by (simp add: keeps_def)
      show "spare s x" if "spare ?s1 x" "x \<noteq> ?new" for x using that r(9) by (simp add: spare_def)
      show "Sublist.prefix (key (rn_p w) @ [\<not> b]) (key p)" using False r(8) by blast
      show "rt_mem ?s1 ?new = Some w" using r(5) by simp
      show "Suc (Suc (size (plug c ?t))) < 2 ^ 30" using room Node by simp
    qed (fact r(6) r(7) fit p fresh)+
    then show ?thesis using insert_below_new[OF r(1,5) False] r(2) by (simp add: node Node)
  qed
qed

lemma route_node_get_found:
  assumes inv: "rt_inv f s t" and p: "prefix_ok pu" "family pu = f" and a: "a \<in> set_tree t" "rt_key s a = key pu"
  shows "route_node_get s pu = do { s' \<leftarrow> route_lock_node s a; Some (a, s') }"
proof -
  have f: "f = AF_INET \<or> f = AF_INET6" using inv by (simp add: rt_inv_alt)
  obtain q where q: "search_key pu = Some q" "prefix_valid q" "family q = family pu" "key q = key pu"
    using search_key_spec[of pu] p f by metis
  have find: "rn_hash_node_find s q = Some a" using rn_hash_node_find_iff[OF inv q(2)] q p a by simp
  obtain n where n: "rt_mem s a = Some n" using rt_invD(4)[OF inv a(1)] by blast
  have uniq: "b = a" if "b \<in> set_tree t" "rt_key s b = key q" for b
    using rn_hash_node_find_iff[OF inv q(2), of b] find that q p by simp
  have inj: "get_walk s q (rt_top s) None = Some (Inl a)"
  proof -
    have ex: "\<exists>n. rt_mem s b = Some n \<and> prefix_ok (rn_p n) \<and> rt_key s b = key (rn_p n)" if "b \<in> set_tree t" for b
      using rt_invD(4)[OF inv that] rn_ok_simps(1) by blast
    have "stop_at s c' t' q node match \<Longrightarrow> plug c' t' = t \<Longrightarrow> False" for c' t' node match
      using stop_at_facts(4)[of f s c' t' q node match a] inv a q(4) by auto
    then show ?thesis
      using get_walk_spec[of s "[]" None "rt_top s" t q] rt_invD(1)[OF inv] ex q(2) uniq by (fastforce simp: prefix_valid_def)
  qed
  show ?thesis using q(1) find n inj by (simp add: route_node_get_def)
qed

lemma route_node_get_new:
  assumes inv: "rt_inv f s t" and p: "prefix_ok pu" "family pu = f" and a: "\<And>a. a \<in> set_tree t \<Longrightarrow> rt_key s a \<noteq> key pu"
    and room: "size t + 2 < 2 ^ 30"
  shows "\<exists>a s' t'. route_node_get s pu = Some (a, s') \<and> inserted f s t pu a s' t'"
proof -
  have f: "f = AF_INET \<or> f = AF_INET6" using inv by (simp add: rt_inv_alt)
  obtain q where q: "search_key pu = Some q" "prefix_valid q" "family q = family pu" "key q = key pu"
    using search_key_spec[of pu] p f by metis
  have find: "rn_hash_node_find s q = None" using rn_hash_node_find_None_iff[OF inv q(2)] q p a by simp
  have ex: "\<exists>n. rt_mem s b = Some n \<and> prefix_ok (rn_p n) \<and> rt_key s b = key (rn_p n)" if "b \<in> set_tree t" for b
    using rt_invD(4)[OF inv that] rn_ok_simps(1) by blast
  obtain c' t' node match where w: "get_walk s q (rt_top s) None = Some (Inr (node, match))" "plug c' t' = t" "stop_at s c' t' q node match"
    using get_walk_spec[of s "[]" None "rt_top s" t q] rt_invD(1)[OF inv] ex q a by (fastforce simp: prefix_valid_def)
  obtain a' s' t'' where "route_node_insert s q node match = Some (a', s')" "inserted f s t q a' s' t''"
    using route_node_insert_spec[of f s c' t' q node match] w inv q p room by auto
  moreover from this(2) have "inserted f s t pu a' s' t''" unfolding inserted_def q(4) .
  ultimately show ?thesis using q(1) find w(1) by (auto simp: route_node_get_def)
qed

end
