(* ===== verification/Route_Delete.thy ===== *)
theory Route_Delete
  imports Route_Insert
begin

text \<open>
  Removal from the route table: \<^verbatim>\<open>route_node_delete\<close> and \<^verbatim>\<open>route_unlock_node\<close> of \<^verbatim>\<open>lib/table.c\<close> and
  \<^verbatim>\<open>lib/table.h\<close>. A node without references and with at most one child is spliced out, and then its
  parent if it was only there to branch; the invariant of the table is kept and no freed node is touched.
\<close>


subsection \<open>Taking a node out of the tree\<close>

lemma tree_at_same: "\<lbrakk>tree_at m par lk t; \<forall>x \<in> set_tree t. m' x = m x\<rbrakk> \<Longrightarrow> tree_at m' par lk t"
  using tree_at_cong[of t m' m] by (simp add: same_links_def)

lemma ctx_at_same: "\<lbrakk>ctx_at m tp c par hole; \<forall>x \<in> ctx_nodes c. m' x = m x\<rbrakk> \<Longrightarrow> ctx_at m' tp c par hole"
  using ctx_at_cong[of c m' m] by (simp add: same_links_def)

lemma reparent:
  assumes t: "tree_at (rt_mem s) (Some a) lk ch" and d: "distinct (preorder ch)"
  obtains s' where "(case lk of None \<Rightarrow> Some s | Some c \<Rightarrow> rn_upd s c (\<lambda>w. w\<lparr>rn_parent := par\<rparr>)) = Some s'"
    "tree_at (rt_mem s') par lk ch" "keeps UNIV s s'" "\<And>x. x \<notin> set_tree ch \<Longrightarrow> rt_mem s' x = rt_mem s x"
    "rt_top s' = rt_top s" "rt_brk s' = rt_brk s" "rt_hash s' = rt_hash s" "rt_count s' = rt_count s" "\<And>x. spare s' x = spare s x"
proof (cases ch)
  case Leaf
  then show ?thesis using t that[of s] by (simp add: keeps_refl)
next
  case (Node l b r)
  then obtain n where n: "lk = Some b" "rt_mem s b = Some n" "tree_at (rt_mem s) (Some b) (l_left n) l"
    "tree_at (rt_mem s) (Some b) (l_right n) r" using t by (auto split: option.splits)
  have nb: "b \<notin> set_tree l" "b \<notin> set_tree r" using d Node by (auto simp: set_preorder)
  let ?s = "s\<lparr>rt_mem := (rt_mem s)(b \<mapsto> n\<lparr>rn_parent := par\<rparr>)\<rparr>"
  show ?thesis
    by (rule that[of ?s]) (use n nb Node in \<open>auto simp: rn_upd_def tree_at_upd_other keeps_def meta_def spare_def\<close>)
qed

lemma relink:
  assumes c: "ctx_at (rt_mem s) (rt_top s) c par (Some a)" and a: "a \<notin> ctx_nodes c"
  shows "(case par of None \<Rightarrow> Some (s\<lparr>rt_top := v\<rparr>)
     | Some q \<Rightarrow> rn_upd s q (\<lambda>w. if l_left w = Some a then w\<lparr>l_left := v\<rparr> else w\<lparr>l_right := v\<rparr>)) = Some (fill c v s)"
proof (cases c)
  case Nil
  then show ?thesis using c by (simp add: fill_def)
next
  case (Cons fr c')
  obtain d q sib where fr: "fr = (d, q, sib)" by (cases fr)
  obtain w where w: "par = Some q" "rt_mem s q = Some w" "rn_link w d = Some a" "tree_at (rt_mem s) (Some q) (rn_link w (\<not> d)) sib"
    using c by (auto simp: Cons fr split: option.splits)
  have "rn_link w (\<not> d) \<noteq> Some a" using w(4) a by (cases sib) (auto simp: Cons fr)
  then show ?thesis using w by (auto simp: Cons fr fill_def rn_upd_def rn_link_def rn_set_link_def)
qed

lemma spare_unlink:
  assumes "spare (fill c v s) x" shows "spare s x \<or> (\<exists>d sib c'. c = (d, x, sib) # c')"
  using assms by (cases c) (auto simp: fill_def spare_def split: option.splits prod.splits if_splits)

lemma rt_inv_del_node:
  assumes inv: "rt_inv f s t" and k: "keeps (set_tree t') s s'" and a: "a \<in> set_tree t"
    and t': "tree_at (rt_mem s') None (rt_top s') t'" "set_tree t' = set_tree t - {a}" "Suc (size t') = size t"
    and rad: "radix (rt_key s') t'"
    and dom: "dom (rt_mem s') = dom (rt_mem s) - {a}" and brk: "rt_brk s' = rt_brk s"
    and h: "hash_rep s' (set_tree t - {a})" and cnt: "rt_count s' = rt_count s - 1"
  shows "rt_inv f s' t'"
  unfolding rt_inv_alt
proof (intro conjI allI impI)
  show "f = AF_INET \<or> f = AF_INET6" using inv by (simp add: rt_inv_alt)
  show "dom (rt_mem s') = set_tree t'" using dom t'(2) rt_invD(3)[OF inv] by simp
  have "rt_count s = of_nat (size t)" using inv by (simp add: rt_inv_alt)
  then show "rt_count s' = of_nat (size t')" using cnt t'(3) by (metis add_diff_cancel_left' of_nat_Suc)
  show "b < rt_brk s'" "rn_ok f n" if m: "rt_mem s' b = Some n" for b n
  proof -
    have "b \<in> set_tree t'" using m dom rt_invD(3)[OF inv] t'(2) by blast
    then obtain n' where "rt_mem s b = Some n'" "meta n = meta n'" using keepsD(4)[OF k _ m] by blast
    then show "b < rt_brk s'" "rn_ok f n" using rt_invD(5)[OF inv, of b n'] rn_ok_meta[of n n' f] brk by simp_all
  qed
qed (use t' rad h in simp_all)

lemma radix_lift:
  assumes "radix K (plug c (Node l a r))" "l = Leaf \<or> r = Leaf"
  shows "radix K (plug c (if l \<noteq> Leaf then l else r))"
  using assms by (auto simp: radix_plug)

lemma route_node_unlink_spec:
  fixes s :: "'i route_table"
  assumes inv: "rt_inv f s (plug c (Node l a r))" and n: "rt_mem s a = Some n" and one: "l = Leaf \<or> r = Leaf"
    and ch: "ch = (if l \<noteq> Leaf then l else r)" and lk: "lk = (if l_left n \<noteq> None then l_left n else l_right n)"
  obtains s' where "route_node_unlink s a lk (rn_parent n) = Some s'" "rt_inv f s' (plug c ch)"
    "keeps (set_tree (plug c ch)) s s'" "\<And>x. spare s' x \<Longrightarrow> spare s x \<or> (\<exists>d sib c'. c = (d, x, sib) # c')"
    "ctx_at (rt_mem s') (rt_top s') c (rn_parent n) lk"
proof -
  let ?A = "set_tree (plug c (Node l a r))"
  have rad: "radix (rt_key s) (plug c (Node l a r))" using rt_invD(2)[OF inv] .
  note dist = plug_distinct[OF rad]
  obtain hole par where "ctx_at (rt_mem s) (rt_top s) c par hole" "tree_at (rt_mem s) par hole (Node l a r)"
    using rt_invD(1)[OF inv] unfolding tree_at_plug by blast
  then have at: "ctx_at (rt_mem s) (rt_top s) c (rn_parent n) (Some a)" "tree_at (rt_mem s) (Some a) (l_left n) l"
    "tree_at (rt_mem s) (Some a) (l_right n) r" using n by auto
  have "l_left n = None \<longleftrightarrow> l = Leaf" using at(2) by (cases l) auto
  then have sub: "tree_at (rt_mem s) (Some a) lk ch" using at(2,3) by (simp add: lk ch)
  have anot: "a \<notin> ctx_nodes c" "a \<notin> set_tree ch" "set_tree ch \<inter> ctx_nodes c = {}" "distinct (preorder ch)"
    using dist(2,3) by (auto simp: ch set_preorder)
  have setch: "set_tree (plug c ch) = ?A - {a}" and size: "Suc (size (plug c ch)) = size (plug c (Node l a r))"
    using anot(1,2) one by (auto simp: ch size_plug)
  obtain s1 where s1: "(case lk of None \<Rightarrow> Some s | Some c \<Rightarrow> rn_upd s c (\<lambda>w. w\<lparr>rn_parent := rn_parent n\<rparr>)) = Some s1"
    "tree_at (rt_mem s1) (rn_parent n) lk ch" "keeps UNIV s s1" "\<And>x. x \<notin> set_tree ch \<Longrightarrow> rt_mem s1 x = rt_mem s x"
    "rt_top s1 = rt_top s" "rt_brk s1 = rt_brk s" "rt_hash s1 = rt_hash s" "rt_count s1 = rt_count s" "\<And>x. spare s1 x = spare s x"
    by (rule reparent[OF sub anot(4)]) (rule that)
  have c1: "ctx_at (rt_mem s1) (rt_top s1) c (rn_parent n) (Some a)"
    unfolding s1(5) by (rule ctx_at_same[OF at(1)]) (use s1(4) anot(3) in blast)
  define s2 where "s2 = fill c lk s1"
  have k2: "keeps UNIV s s2" unfolding s2_def using keeps_trans[OF s1(3) keeps_fill] .
  have a2: "rt_mem s2 a = Some n" using anot(1,2) s1(4) n by (simp add: s2_def fill_frame(4))
  have keyof: "rn_keyof s2 = rn_keyof s" "rt_key s2 = rt_key s" using keepsD(1,2)[OF k2] by (simp_all add: fun_eq_iff)
  let ?s3 = "s2\<lparr>rt_count := rt_count s2 - 1\<rparr>"
  have "hash_rep s ?A" using inv by (simp add: rt_inv_alt)
  then have rep: "hash_rep ?s3 ?A"
    by (rule hash_rep_cong) (simp add: s2_def fill_frame s1(7), simp add: rn_keyof_count keyof(1))
  obtain h where h: "rn_hash_node_del ?s3 a = Some (?s3\<lparr>rt_hash := h\<rparr>)" "hash_rep (?s3\<lparr>rt_hash := h\<rparr>) (?A - {a})"
  proof -
    have "rn_hashval n = prefix_hash_key (rn_p n)" using rt_invD(5)[OF inv n] by (simp add: rn_ok_def)
    then show ?thesis using rn_hash_node_del_spec[OF rep, of a n] a2 that by auto
  qed
  define s4 where "s4 = ?s3\<lparr>rt_hash := h, rt_mem := (rt_mem s2)(a := None)\<rparr>"
  have run: "route_node_unlink s a lk (rn_parent n) = Some s4"
    using s1(1) relink[OF c1 anot(1)] h(1) a2 by (simp add: route_node_unlink_def route_node_free_def s4_def s2_def)
  have k4: "keeps (UNIV - {a}) s s4" using k2 by (auto simp: keeps_def s4_def)
  have "tree_at (rt_mem s2) (rn_parent n) lk ch"
    unfolding s2_def by (rule tree_at_same[OF s1(2)]) (use anot(3) fill_frame(4)[of _ c lk s1] in blast)
  moreover have ct: "ctx_at (rt_mem s4) (rt_top s4) c (rn_parent n) lk"
    using ctx_at_fill[OF c1 dist(1), of lk] anot(1) by (simp add: s4_def s2_def ctx_at_upd_other)
  ultimately have tr: "tree_at (rt_mem s4) None (rt_top s4) (plug c ch)"
    unfolding tree_at_plug using anot(2) by (intro exI conjI) (auto simp: s4_def tree_at_upd_other)
  have same: "rt_key s4 x = rt_key s x" "rn_keyof s4 x = rn_keyof s x" if "x \<noteq> a" for x
    using keepsD(1,2)[OF k4, of x] that by simp_all
  have "rt_inv f s4 (plug c ch)"
  proof (rule rt_inv_del_node[OF inv _ _ tr setch size])
    show "keeps (set_tree (plug c ch)) s s4" using k4 setch keeps_mono by (metis Diff_mono order_refl top_greatest)
    show "radix (rt_key s4) (plug c ch)"
    proof -
      have "rt_key s4 x = rt_key s x" if "x \<in> set_tree (plug c ch)" for x using same(1)[of x] that setch by blast
      then show ?thesis using radix_cong[of "plug c ch" "rt_key s4" "rt_key s"] radix_lift[OF rad one] ch by blast
    qed
    show "dom (rt_mem s4) = dom (rt_mem s) - {a}" using keepsD(6)[OF k2] by (auto simp: s4_def)
    show "hash_rep s4 (?A - {a})"
      by (rule hash_rep_cong[OF h(2)]) (auto simp: s4_def rn_keyof_def)
  qed (auto simp: s4_def s2_def fill_frame s1(6,8))
  moreover have "spare s x \<or> (\<exists>d sib c'. c = (d, x, sib) # c')" if "spare s4 x" for x
    using that spare_unlink[of c lk s1 x] s1(9) by (cases "x = a") (auto simp: s4_def s2_def spare_def)
  moreover have "keeps (set_tree (plug c ch)) s s4" using k4 setch keeps_mono by (metis Diff_mono order_refl top_greatest)
  ultimately show ?thesis using that run ct by blast
qed

subsection \<open>Deleting and unlocking\<close>

text \<open>Nodes go away, and only nodes without locks; the rest keep their contents.\<close>

definition pruned :: "family \<Rightarrow> 'i route_table \<Rightarrow> addr tree \<Rightarrow> 'i route_table \<Rightarrow> addr tree \<Rightarrow> bool" where
  "pruned f s t s' t' \<longleftrightarrow> rt_inv f s' t' \<and> rt_compact s' \<and> set_tree t' \<subseteq> set_tree t \<and> keeps (set_tree t') s s' \<and>
     (\<forall>a n. a \<in> set_tree t - set_tree t' \<longrightarrow> rt_mem s a = Some n \<longrightarrow> rn_lock n = 0)"

lemma pruned_refl: "rt_inv f s t \<Longrightarrow> rt_compact s \<Longrightarrow> pruned f s t s t"
  by (simp add: pruned_def keeps_refl)

lemma pruned_step:
  assumes k: "keeps (set_tree t1) s s1" and t1: "set_tree t1 = set_tree t - {a}" and n: "rt_mem s a = Some n" "rn_lock n = 0"
    and p: "pruned f s1 t1 s' t'"
  shows "pruned f s t s' t'"
proof -
  have p': "rt_inv f s' t'" "rt_compact s'" "set_tree t' \<subseteq> set_tree t1" "keeps (set_tree t') s1 s'"
    "\<And>b m. b \<in> set_tree t1 \<Longrightarrow> b \<notin> set_tree t' \<Longrightarrow> rt_mem s1 b = Some m \<Longrightarrow> rn_lock m = 0"
    using p by (simp_all add: pruned_def)
  have "rn_lock m = 0" if b: "b \<in> set_tree t - set_tree t'" "rt_mem s b = Some m" for b m
  proof (cases "b = a")
    case False
    then have b1: "b \<in> set_tree t1" using b(1) t1 by blast
    then obtain m1 where "rt_mem s1 b = Some m1" "meta m1 = meta m" using keepsD(5)[OF k _ b(2)] by blast
    then show ?thesis using p'(5)[OF b1] b(1) by (simp add: meta_def)
  qed (use b n in simp)
  then show ?thesis
    unfolding pruned_def using p' t1 keeps_trans[OF keeps_mono[OF k] p'(4)] by blast
qed

lemma route_node_delete_full:
  assumes "rt_mem s a = Some n" "rn_lock n = 0" "l_left n \<noteq> None" "l_right n \<noteq> None"
  shows "route_node_delete s a = Some s"
  using assms by (subst route_node_delete.simps) (simp add: cassert_def)

lemma route_node_delete_step:
  assumes inv: "rt_inv f s (plug c (Node l a r))" and n: "rt_mem s a = Some n" "rn_lock n = 0"
    and sp: "\<And>x. spare s x \<Longrightarrow> x = a" and one: "l_left n = None \<or> l_right n = None"
  obtains s1 t1 where "rt_inv f s1 (plug c t1)" "keeps (set_tree (plug c t1)) s s1"
    "set_tree (plug c t1) = set_tree (plug c (Node l a r)) - {a}"
    "\<forall>x. spare s1 x \<longrightarrow> (\<exists>d sib c'. c = (d, x, sib) # c')"
    "route_node_delete s a = (case c of [] \<Rightarrow> Some s1 | (d, q, sib) # c' \<Rightarrow>
       do { w \<leftarrow> rt_mem s1 q; if rn_lock w = 0 then route_node_delete s1 q else Some s1 })"
proof -
  define t1 where "t1 = (if l \<noteq> Leaf then l else r)"
  have "radix (rt_key s) (plug c (Node l a r))" using rt_invD(2)[OF inv] .
  note dist = plug_distinct[OF this]
  obtain hole par where "ctx_at (rt_mem s) (rt_top s) c par hole" "tree_at (rt_mem s) par hole (Node l a r)"
    using rt_invD(1)[OF inv] unfolding tree_at_plug by blast
  then have at: "tree_at (rt_mem s) (Some a) (l_left n) l" "tree_at (rt_mem s) (Some a) (l_right n) r" using n by auto
  have one': "l = Leaf \<or> r = Leaf" using at one by (cases l; cases r) auto
  have set: "set_tree (plug c t1) = set_tree (plug c (Node l a r)) - {a}"
    using dist(2,3) one' by (auto simp: t1_def set_preorder)
  obtain s1 where s1: "route_node_unlink s a (if l_left n \<noteq> None then l_left n else l_right n) (rn_parent n) = Some s1"
    "rt_inv f s1 (plug c t1)" "keeps (set_tree (plug c t1)) s s1" "\<And>x. spare s1 x \<Longrightarrow> spare s x \<or> (\<exists>d sib c'. c = (d, x, sib) # c')"
    "ctx_at (rt_mem s1) (rt_top s1) c (rn_parent n) (if l_left n \<noteq> None then l_left n else l_right n)"
    by (rule route_node_unlink_spec[OF inv n(1) one' t1_def refl]) (rule that)
  have "route_node_delete s a = (case rn_parent n of None \<Rightarrow> Some s1
     | Some q \<Rightarrow> do { w \<leftarrow> rt_mem s1 q; if rn_lock w = 0 then route_node_delete s1 q else Some s1 })"
    using n one s1(1) by (subst route_node_delete.simps) (auto simp: cassert_def)
  moreover have "rn_parent n = (case c of [] \<Rightarrow> None | (d, q, sib) # _ \<Rightarrow> Some q)" using s1(5) by (rule ctx_at_det)
  ultimately have run: "route_node_delete s a = (case c of [] \<Rightarrow> Some s1 | (d, q, sib) # c' \<Rightarrow>
       do { w \<leftarrow> rt_mem s1 q; if rn_lock w = 0 then route_node_delete s1 q else Some s1 })"
    by (simp split: list.splits)
  have "\<exists>d sib c'. c = (d, x, sib) # c'" if x: "spare s1 x" for x
  proof -
    have "rt_mem s1 x \<noteq> None" using x by (auto simp: spare_def split: option.splits)
    then have "x \<in> set_tree (plug c t1)" using rt_invD(3)[OF s1(2)] by blast
    then show ?thesis using s1(4)[OF x] sp[of x] set by blast
  qed
  then show ?thesis using that[OF s1(2,3) set _ run] by blast
qed

lemma route_node_delete_spec:
  assumes "rt_inv f s (plug c (Node l a r))" "rt_mem s a = Some n" "rn_lock n = 0" "\<And>x. spare s x \<Longrightarrow> x = a"
  shows "\<exists>s' t'. route_node_delete s a = Some s' \<and> pruned f s (plug c (Node l a r)) s' t'"
  using assms
proof (induction c arbitrary: l a r n s)
  case Nil
  show ?case
  proof (cases "l_left n = None \<or> l_right n = None")
    case True
    obtain s1 t1 where s1: "rt_inv f s1 (plug [] t1)" "keeps (set_tree (plug [] t1)) s s1"
      "set_tree (plug [] t1) = set_tree (plug [] (Node l a r)) - {a}" "\<forall>x. spare s1 x \<longrightarrow> (\<exists>d sib c'. ([] :: addr frame list) = (d, x, sib) # c')"
      "route_node_delete s a = (case [] :: addr frame list of [] \<Rightarrow> Some s1 | (d, q, sib) # c' \<Rightarrow>
         do { w \<leftarrow> rt_mem s1 q; if rn_lock w = 0 then route_node_delete s1 q else Some s1 })"
      by (rule route_node_delete_step[OF Nil True], assumption) (rule that)
    have "rt_compact s1" using s1(4) by (auto simp: rt_compact_spare)
    then show ?thesis using pruned_step[OF s1(2,3) Nil(2,3) pruned_refl[OF s1(1)]] s1(5) by auto
  next
    case False
    then have "\<not> spare s a" using Nil(2) by (simp add: spare_def)
    then have "rt_compact s" using Nil(4) by (auto simp: rt_compact_spare)
    then have p: "pruned f s (plug [] (Node l a r)) s (plug [] (Node l a r))" by (rule pruned_refl[OF Nil(1)])
    have "route_node_delete s a = Some s" using route_node_delete_full[OF Nil(2,3)] False by simp
    then show ?thesis using p by blast
  qed
next
  case (Cons fr c)
  obtain d q sib where fr: "fr = (d, q, sib)" by (cases fr)
  show ?case
  proof (cases "l_left n = None \<or> l_right n = None")
    case True
    obtain s1 t1 where s1: "rt_inv f s1 (plug (fr # c) t1)" "keeps (set_tree (plug (fr # c) t1)) s s1"
      "set_tree (plug (fr # c) t1) = set_tree (plug (fr # c) (Node l a r)) - {a}" "\<forall>x. spare s1 x \<longrightarrow> (\<exists>d sib c'. fr # c = (d, x, sib) # c')"
      "route_node_delete s a = (case fr # c of [] \<Rightarrow> Some s1 | (d, q, sib) # c' \<Rightarrow>
         do { w \<leftarrow> rt_mem s1 q; if rn_lock w = 0 then route_node_delete s1 q else Some s1 })"
      by (rule route_node_delete_step[OF Cons(2-5) True], assumption) (rule that)
    have sq: "x = q" if "spare s1 x" for x using s1(4) that fr by auto
    obtain l' r' where mk: "plug (fr # c) t1 = plug c (Node l' q r')" by (cases d) (auto simp: fr)
    have "q \<in> set_tree (plug (fr # c) t1)" by (simp add: mk)
    then obtain w where w: "rt_mem s1 q = Some w" using rt_invD(3)[OF s1(1)] by blast
    have "\<exists>s' t'. route_node_delete s a = Some s' \<and> pruned f s1 (plug (fr # c) t1) s' t'"
    proof (cases "rn_lock w = 0")
      case True
      then have "route_node_delete s a = route_node_delete s1 q" using s1(5) w by (simp add: fr)
      then show ?thesis unfolding mk using Cons.IH[OF s1(1)[unfolded mk] w True sq] by simp
    next
      case False
      then have "rt_compact s1" using sq w by (force simp: rt_compact_spare spare_def)
      then show ?thesis using pruned_refl[OF s1(1)] s1(5) w False by (auto simp: fr)
    qed
    then show ?thesis using pruned_step[OF s1(2,3) Cons(3,4)] by blast
  next
    case False
    then have "\<not> spare s a" using Cons(3) by (simp add: spare_def)
    then have "rt_compact s" using Cons(5) by (auto simp: rt_compact_spare)
    then have p: "pruned f s (plug (fr # c) (Node l a r)) s (plug (fr # c) (Node l a r))" by (rule pruned_refl[OF Cons(2)])
    have "route_node_delete s a = Some s" using route_node_delete_full[OF Cons(3,4)] False by simp
    then show ?thesis using p by blast
  qed
qed

text \<open>Dropping one reference. A node that is still referenced stays; one that is not goes away,
  unless it has two children, and so do the nodes that only were there for it.\<close>

lemma route_unlock_node_spec:
  assumes inv: "rt_inv f s t" "rt_compact s" and n: "rt_mem s a = Some n" "0 < rn_lock n"
  defines "s1 \<equiv> s\<lparr>rt_mem := (rt_mem s)(a \<mapsto> n\<lparr>rn_lock := rn_lock n - 1\<rparr>)\<rparr>"
  obtains s' t' where "route_unlock_node s a = Some s'" "pruned f s1 t s' t'" "rn_lock n \<noteq> 1 \<Longrightarrow> s' = s1 \<and> t' = t"
proof -
  have "same_core (rt_mem s) (rt_mem s1)" unfolding s1_def using n by (simp add: same_core_def core_def)
  then have inv1: "rt_inv f s1 t" using rt_inv_same_core(1)[OF inv(1)] by (simp add: s1_def)
  have run: "route_unlock_node s a = (if rn_lock n - 1 = 0 then route_node_delete s1 a else Some s1)"
    using n by (simp add: route_unlock_node_def cassert_def rn_upd_def s1_def)
  have a1: "rt_mem s1 a = Some (n\<lparr>rn_lock := rn_lock n - 1\<rparr>)" by (simp add: s1_def)
  have sp: "x = a" if "spare s1 x" for x
    using that inv(2) by (auto simp: spare_def s1_def rt_compact_spare split: if_splits)
  show ?thesis
  proof (cases "rn_lock n = 1")
    case True
    have "a \<in> set_tree t" using rt_invD(5)[OF inv1 a1] by blast
    from plug_at[OF this] obtain c l r where t: "t = plug c (Node l a r)" by blast
    obtain s' t' where "route_node_delete s1 a = Some s'" "pruned f s1 t s' t'"
      using route_node_delete_spec[OF inv1[unfolded t] a1 _ sp] True t by auto
    then show ?thesis using that run True by auto
  next
    case False
    then have "\<not> spare s1 a" using a1 by (auto simp: spare_def)
    then have "rt_compact s1" using sp by (auto simp: rt_compact_spare)
    then show ?thesis using that[of s1 t] run False pruned_refl[OF inv1] by auto
  qed
qed

lemma lock_unlock:
  assumes "rt_mem s a = Some n" "rn_lock n \<noteq> 0" "rn_lock n + 1 \<noteq> 0"
  shows "do { s' \<leftarrow> route_lock_node s a; route_unlock_node s' a } = Some s"
  using assms by (simp add: route_lock_node_def route_unlock_node_def rn_upd_def cassert_def fun_upd_idem word_gt_0)

end
