(* ===== verification/Route_Iter.thy ===== *)
theory Route_Iter
  imports Route_Delete
begin

text \<open>
  Iteration over the routing table and its destruction: \<^verbatim>\<open>route_top\<close> and \<^verbatim>\<open>route_next\<close> visit the
  nodes in preorder, the lexicographic order of the prefixes, and pass one reference along;
  \<^verbatim>\<open>route_table_get_next\<close> finds the node after a prefix that need not be in the table, so that a
  paused iterator goes on where it stopped; \<^verbatim>\<open>route_table_free\<close> releases every node.
\<close>

subsection \<open>The next node\<close>

definition first_of :: "'a list \<Rightarrow> 'a option" where
  "first_of xs = (case xs of [] \<Rightarrow> None | x # _ \<Rightarrow> Some x)"

lemma first_of_simps [simp]:
  "first_of [] = None" "first_of (x # xs) = Some x" "xs \<noteq> [] \<Longrightarrow> first_of (xs @ ys) = first_of xs"
  by (auto simp: first_of_def split: list.splits)

lemma tree_at_root: "tree_at m par lk t \<Longrightarrow> lk = first_of (preorder t)"
  by (cases t) auto

lemma subtree_next_ctx:
  assumes "ctx_at (rt_mem s) (rt_top s) c (rn_parent n) (Some a)" "rt_mem s a = Some n" "a \<notin> ctx_nodes c" "distinct (ctx_list c)"
  shows "route_get_subtree_next s a = Some (first_of (ctx_after c))"
  using assms
proof (induction c arbitrary: a n)
  case Nil
  then show ?case by (subst route_get_subtree_next.simps) simp
next
  case (Cons fr c)
  obtain d q sib where fr: "fr = (d, q, sib)" by (cases fr)
  obtain w where w: "rn_parent n = Some q" "rt_mem s q = Some w" "rn_link w d = Some a" "tree_at (rt_mem s) (Some q) (rn_link w (\<not> d)) sib"
    "ctx_at (rt_mem s) (rt_top s) c (rn_parent w) (Some q)"
    using Cons.prems(1) by (auto simp: fr split: option.splits)
  have q: "q \<notin> ctx_nodes c" "distinct (ctx_list c)" using Cons.prems(4) by (auto simp: fr set_ctx_list)
  note ih = Cons.IH[OF w(5) w(2) q]
  have sib: "rn_link w (\<not> d) = first_of (preorder sib)" using tree_at_root[OF w(4)] .
  have asib: "first_of (preorder sib) \<noteq> Some a" using Cons.prems(3) by (cases sib) (auto simp: fr)
  show ?case
  proof (cases d)
    case True
    then have "l_left w \<noteq> Some a" using sib asib by (simp add: rn_link_def)
    then show ?thesis using Cons.prems(2) w(1,2) ih True by (subst route_get_subtree_next.simps) (simp add: fr)
  next
    case False
    then have l: "l_left w = Some a" "l_right w = first_of (preorder sib)" using w(3) sib by (simp_all add: rn_link_def)
    show ?thesis
    proof (cases sib)
      case Leaf
      then show ?thesis using Cons.prems(2) w(1,2) ih l False by (subst route_get_subtree_next.simps) (simp add: fr)
    next
      case (Node sl b sr)
      then show ?thesis using Cons.prems(2) w(1,2) l False by (subst route_get_subtree_next.simps) (simp add: fr)
    qed
  qed
qed

text \<open>A node of the table, by its place in the tree: its links and the node that follows its subtree.\<close>

lemma node_at:
  assumes inv: "rt_inv f s (plug c (Node l a r))"
  obtains n where "rt_mem s a = Some n" "rn_ok f n" "rt_key s a = key (rn_p n)"
    "l_left n = first_of (preorder l)" "l_right n = first_of (preorder r)"
    "route_get_subtree_next s a = Some (first_of (ctx_after c))" "radix (rt_key s) (Node l a r)"
    "ctx_at (rt_mem s) (rt_top s) c (rn_parent n) (Some a)" "a \<notin> ctx_nodes c" "distinct (ctx_list c)"
proof -
  obtain par hole where c: "ctx_at (rt_mem s) (rt_top s) c par hole" "tree_at (rt_mem s) par hole (Node l a r)"
    using rt_invD(1)[OF inv] unfolding tree_at_plug by blast
  have "a \<in> set_tree (plug c (Node l a r))" by simp
  then obtain n where n: "rt_mem s a = Some n" "rn_ok f n" "rt_key s a = key (rn_p n)" using rt_invD(4)[OF inv] by blast
  have c': "ctx_at (rt_mem s) (rt_top s) c (rn_parent n) (Some a)" "tree_at (rt_mem s) (Some a) (l_left n) l"
    "tree_at (rt_mem s) (Some a) (l_right n) r" using c n(1) by auto
  have rad: "radix (rt_key s) (plug c (Node l a r))" using rt_invD(2)[OF inv] .
  have d: "a \<notin> ctx_nodes c" "distinct (ctx_list c)" using plug_distinct[OF rad] by auto
  have "radix (rt_key s) (Node l a r)" using rad by (simp add: radix_plug)
  then show ?thesis
    using that[OF n tree_at_root[OF c'(2)] tree_at_root[OF c'(3)] subtree_next_ctx[OF c'(1) n(1) d] _ c'(1) d] by blast
qed

lemma split_unique:
  assumes "distinct (xs @ a # ys)" "xs @ a # ys = xs' @ a # ys'" shows "ys = ys'"
proof -
  have "takeWhile (\<lambda>x. x \<noteq> a) (us @ a # vs) = us \<and> dropWhile (\<lambda>x. x \<noteq> a) (us @ a # vs) = a # vs"
    if "a \<notin> set us" for us vs using that by (induction us) auto
  moreover have "a \<notin> set xs" "a \<notin> set xs'" using assms(1) assms(1)[unfolded assms(2)] by auto
  ultimately show ?thesis using assms(2) by (metis list.inject)
qed

lemma route_next_links:
  assumes inv: "rt_inv f s t" and pre: "preorder t = xs @ a # ys"
  shows "route_next s a = lock_next s a (first_of ys)"
proof -
  have a: "a \<in> set_tree t" using pre by (metis in_set_conv_decomp set_preorder)
  from plug_at[OF this] obtain c l r where t: "t = plug c (Node l a r)" by blast
  obtain n where n: "rt_mem s a = Some n" "l_left n = first_of (preorder l)" "l_right n = first_of (preorder r)"
    "route_get_subtree_next s a = Some (first_of (ctx_after c))"
    by (rule node_at[OF inv[unfolded t]]) (rule that)
  have "preorder t = ctx_before c @ a # (preorder l @ preorder r @ ctx_after c)" by (simp add: t preorder_plug)
  moreover have "distinct (preorder t)" using preorder_K_inj[OF rt_invD(2)[OF inv]] by blast
  ultimately have ys: "ys = preorder l @ preorder r @ ctx_after c" using split_unique pre by metis
  show ?thesis unfolding route_next_def ys using n by (cases l; cases r) auto
qed

subsection \<open>Walking over the table\<close>

text \<open>The table with one more reference to a node.\<close>

fun hold :: "'i route_table \<Rightarrow> addr option \<Rightarrow> 'i route_table" where
  "hold s None = s"
| "hold s (Some a) = (case rt_mem s a of None \<Rightarrow> s
     | Some n \<Rightarrow> s\<lparr>rt_mem := (rt_mem s)(a \<mapsto> n\<lparr>rn_lock := rn_lock n + 1\<rparr>)\<rparr>)"

lemma hold_inv: "rt_inv f s t \<Longrightarrow> rt_inv f (hold s x) t"
  by (cases x) (auto split: option.splits dest: route_lock_node_inv(2))

lemma route_lock_hold: "rt_mem s a = Some n \<Longrightarrow> route_lock_node s a = Some (hold s (Some a))"
  by (simp add: route_lock_node_def rn_upd_def)

lemma unhold:
  assumes n: "rt_mem s a = Some n" "rn_lock n + 1 \<noteq> 0" and x: "x \<noteq> Some a" and cpt: "rt_compact s"
  shows "route_unlock_node (hold (hold s (Some a)) x) a = Some (hold s x)"
proof -
  let ?s = "hold s x"
  have m: "rt_mem (hold (hold s (Some a)) x) = (rt_mem ?s)(a \<mapsto> n\<lparr>rn_lock := rn_lock n + 1\<rparr>)" "rt_mem ?s a = Some n"
    "(hold (hold s (Some a)) x)\<lparr>rt_mem := rt_mem ?s\<rparr> = ?s"
    using n(1) x by (cases x; auto split: option.splits)+
  have undo: "(hold (hold s (Some a)) x)\<lparr>rt_mem := (rt_mem (hold (hold s (Some a)) x))(a \<mapsto> n)\<rparr> = ?s"
    using m by (simp add: fun_upd_idem)
  have "route_unlock_node (hold (hold s (Some a)) x) a = (if rn_lock n = 0 then route_node_delete ?s a else Some ?s)"
    using n(2) m(1) undo by (simp add: route_unlock_node_def rn_upd_def word_gt_0)
  moreover have "route_node_delete ?s a = Some ?s" if "rn_lock n = 0"
    using route_node_delete_full[OF m(2) that] cpt n(1) that by (auto simp: rt_compact_def)
  ultimately show ?thesis by simp
qed

inductive route_walk :: "'i route_table \<Rightarrow> addr option \<Rightarrow> addr list \<Rightarrow> 'i route_table \<Rightarrow> bool" where
  walk_done: "route_walk s None [] s"
| walk_node: "route_next s a = Some (nxt, s1) \<Longrightarrow> route_walk s1 nxt xs s' \<Longrightarrow> route_walk s (Some a) (a # xs) s'"

definition locks_free :: "'i route_table \<Rightarrow> bool" where
  "locks_free s \<longleftrightarrow> (\<forall>a n. rt_mem s a = Some n \<longrightarrow> rn_lock n + 1 \<noteq> 0)"

lemma route_next_hold:
  assumes inv: "rt_inv f s t" "rt_compact s" "locks_free s" and pre: "preorder t = xs @ a # ys"
  shows "route_next (hold s (Some a)) a = Some (first_of ys, hold s (first_of ys))"
proof -
  have a: "set (xs @ a # ys) = set_tree t" using pre set_preorder by metis
  obtain n where n: "rt_mem s a = Some n" using rt_invD(4)[OF inv(1), of a] a by auto
  have d: "distinct (xs @ a # ys)" using preorder_K_inj[OF rt_invD(2)[OF inv(1)]] pre by metis
  have x: "first_of ys \<noteq> Some a" using d by (cases ys) auto
  have lk: "(case first_of ys of None \<Rightarrow> Some (hold s (Some a)) | Some b \<Rightarrow> route_lock_node (hold s (Some a)) b) =
      Some (hold (hold s (Some a)) (first_of ys))"
  proof (cases ys)
    case (Cons b zs)
    then have "b \<in> set_tree t" using a by auto
    then obtain m where "rt_mem (hold s (Some a)) b = Some m" using rt_invD(4)[OF hold_inv[OF inv(1)]] by blast
    then show ?thesis using route_lock_hold[of "hold s (Some a)" b] Cons by simp
  qed simp
  have "rn_lock n + 1 \<noteq> 0" using inv(3) n by (simp add: locks_free_def)
  then show ?thesis
    using route_next_links[OF hold_inv[OF inv(1)] pre] lk unhold[OF n _ x inv(2)] by (simp add: lock_next_def del: hold.simps)
qed

lemma route_walk_from:
  assumes inv: "rt_inv f s t" "rt_compact s" "locks_free s"
  shows "preorder t = xs @ ys \<Longrightarrow> route_walk (hold s (first_of ys)) (first_of ys) ys s"
proof (induction ys arbitrary: xs)
  case Nil
  then show ?case by (simp add: walk_done)
next
  case (Cons a ys)
  have "route_walk (hold s (first_of ys)) (first_of ys) ys s" using Cons.IH[of "xs @ [a]"] Cons.prems by simp
  then show ?case using walk_node[OF route_next_hold[OF inv Cons.prems]] by simp
qed

lemma route_top_hold:
  assumes "rt_inv f s t" shows "route_top s = Some (first_of (preorder t), hold s (first_of (preorder t)))"
proof (cases t)
  case Leaf
  then show ?thesis using rt_invD(1)[OF assms] by (simp add: route_top_def)
next
  case (Node l a r)
  then obtain n where "rt_mem s a = Some n" "rt_top s = Some a" using rt_invD(1)[OF assms] by (auto split: option.splits)
  then show ?thesis using route_lock_hold[of s a n] Node by (simp add: route_top_def)
qed

subsection \<open>The order of iteration\<close>

lemma prefix_imp_le: "Sublist.prefix x (y :: bool list) \<Longrightarrow> x \<le> y"
proof (induction x arbitrary: y)
  case (Cons b x)
  then show ?case by (cases y) auto
qed simp

lemma strict_prefix_less: "strict_prefix x (y :: bool list) \<Longrightarrow> x < y"
  using prefix_imp_le[of x y] by (auto simp: strict_prefix_def order.strict_iff_order)

lemma less_below: "\<lbrakk>x < (y :: bool list); \<not> Sublist.prefix x y; Sublist.prefix x z\<rbrakk> \<Longrightarrow> z < y"
  using less_cases[of x y] less_branch prefix_order.trans by (metis strict_prefixE)

lemma route_table_prefix_iter_cmp_key:
  assumes ok: "prefix_ok p1" "prefix_ok p2" "family p1 = family p2"
  shows "route_table_prefix_iter_cmp p1 p2 = Some (if key p1 = key p2 then 0 else if key p1 < key p2 then -1 else 1)"
proof -
  have len: "length (key p1) = prefixlen p1" "length (key p2) = prefixlen p2" using ok by simp_all
  note m = prefix_match_key[OF ok(1,2)] prefix_match_key[OF ok(2,1)]
  consider (eq) "key p1 = key p2" | (less) "strict_prefix (key p1) (key p2)" | (more) "strict_prefix (key p2) (key p1)"
    | (off) "\<not> Sublist.prefix (key p1) (key p2)" "\<not> Sublist.prefix (key p2) (key p1)"
    unfolding strict_prefix_def by argo
  then show ?thesis
  proof cases
    case eq
    then have "prefixlen p1 = prefixlen p2" using len by simp
    then show ?thesis using eq m by (simp add: route_table_prefix_iter_cmp_def)
  next
    case less
    then have "prefixlen p1 < prefixlen p2" using len prefix_length_less by metis
    moreover have "key p1 < key p2" using less by (rule strict_prefix_less)
    ultimately show ?thesis using less m by (auto simp: route_table_prefix_iter_cmp_def)
  next
    case more
    then have "prefixlen p2 < prefixlen p1" using len prefix_length_less by metis
    moreover have "key p2 < key p1" using more by (rule strict_prefix_less)
    ultimately show ?thesis using more m by (auto simp: route_table_prefix_iter_cmp_def)
  next
    case off
    define r where "r = (route_common p1 p2 prefix_zero)\<lparr>family := family p2\<rparr>"
    obtain b where b: "prefix_ok r" "Sublist.prefix (key r @ [b]) (key p1)"
      "prefixlen r = prefixlen p2 \<and> key r = key p2 \<or> prefixlen r < prefixlen p2 \<and> Sublist.prefix (key r @ [\<not> b]) (key p2)"
      by (rule route_common_insert[OF ok off(1) r_def]) (rule that)
    have b2: "Sublist.prefix (key r @ [\<not> b]) (key p2)" using b(2,3) off(2) by (auto dest: append_prefixD)
    have pl: "prefixlen (route_common p1 p2 prefix_zero) = prefixlen r" by (simp add: r_def)
    have lr: "length (key r) = prefixlen r" using b(1) by simp
    then have lt: "prefixlen r < prefixlen p1" "prefixlen r < prefixlen p2" using b(2) b2 len by (auto dest: prefix_length_le)
    have bits: "prefix_bit (u_val p1) (prefixlen r) = b" "prefix_bit (u_val p2) (prefixlen r) = (\<not> b)"
      using prefix_bit_key[OF ok(1) lt(1)] prefix_bit_key[OF ok(2) lt(2)] prefix_snoc_nth[OF b(2)] prefix_snoc_nth[OF b2] lr by simp_all
    have "key p1 \<noteq> key p2" using off by auto
    moreover have "key p1 < key p2 \<longleftrightarrow> \<not> b"
      using less_branch[of "key r" "key p1" "key p2"] less_branch[of "key r" "key p2" "key p1"] b(2) b2 by (cases b) auto
    ultimately show ?thesis using off m lt pl bits by (auto simp: route_table_prefix_iter_cmp_def Let_def cassert_def)
  qed
qed

lemma filter_radix:
  assumes r: "radix K (Node l a r)"
  shows "P \<le> K a \<Longrightarrow> filter (\<lambda>b. P < K b) (preorder l @ preorder r) = preorder l @ preorder r"
    "K a < P \<Longrightarrow> \<not> Sublist.prefix (K a) P \<Longrightarrow> filter (\<lambda>b. P < K b) (preorder l @ preorder r) = []"
    "Sublist.prefix (K a @ [False]) P \<Longrightarrow> filter (\<lambda>b. P < K b) (preorder r) = preorder r"
    "Sublist.prefix (K a @ [True]) P \<Longrightarrow> filter (\<lambda>b. P < K b) (preorder l) = []"
proof -
  have below: "K a < K b \<and> Sublist.prefix (K a) (K b)" if "b \<in> set_tree l \<union> set_tree r" for b
    using r that less_extend by (auto dest: append_prefixD)
  show "filter (\<lambda>b. P < K b) (preorder l @ preorder r) = preorder l @ preorder r" if "P \<le> K a"
    using below order.strict_trans1[OF that] by (subst filter_True) (auto simp: set_preorder)
  show "filter (\<lambda>b. P < K b) (preorder l @ preorder r) = []" if "K a < P" "\<not> Sublist.prefix (K a) P"
    using below less_below[OF that] by (subst filter_False) (auto simp: set_preorder not_less intro: less_imp_le)
  show "filter (\<lambda>b. P < K b) (preorder r) = preorder r" if "Sublist.prefix (K a @ [False]) P"
    using r less_branch[OF that] by (subst filter_True) (auto simp: set_preorder)
  show "filter (\<lambda>b. P < K b) (preorder l) = []" if "Sublist.prefix (K a @ [True]) P"
    using r less_branch[OF _ that] by (subst filter_False) (auto simp: set_preorder not_less intro: less_imp_le)
qed

lemma route_get_next_here:
  assumes inv: "rt_inv f s t" "rt_compact s" "locks_free s" and pre: "preorder t = xs @ a # ys"
  shows "do { s1 \<leftarrow> route_lock_node s a; (nxt, s2) \<leftarrow> route_next s1 a;
              case nxt of None \<Rightarrow> Some (None, s2)
              | Some b \<Rightarrow> do { s3 \<leftarrow> route_unlock_node s2 b; Some (Some b, s3) } } = Some (first_of ys, s)"
proof -
  have tr: "set (xs @ a # ys) = set_tree t" using pre set_preorder by metis
  obtain n where n: "rt_mem s a = Some n" using rt_invD(4)[OF inv(1), of a] tr by auto
  have un: "route_unlock_node (hold s (Some b)) b = Some s" if y: "ys = b # zs" for b zs
  proof -
    obtain m where m: "rt_mem s b = Some m" using rt_invD(4)[OF inv(1), of b] tr y by auto
    then show ?thesis using unhold[OF m, of None] inv(2,3) by (simp add: locks_free_def)
  qed
  show ?thesis
    unfolding route_lock_hold[OF n] using route_next_hold[OF inv pre] un by (cases ys) (simp_all del: hold.simps(2))
qed

text \<open>The step of the walk at a node that covers the prefix.\<close>

lemma get_next_walk_descend:
  assumes inv: "rt_inv f s (plug c (Node l a r))" and p: "prefix_ok p" and sp: "strict_prefix (rt_key s a) (key p)"
    and IH: "\<And>c' l' a' r'. size (Node l' a' r') < size (Node l a r) \<Longrightarrow> rt_inv f s (plug c' (Node l' a' r')) \<Longrightarrow>
      get_next_walk s p (Some a') =
        Some (first_of (filter (\<lambda>b. key p < rt_key s b) (preorder (Node l' a' r')) @ ctx_after c'), s)"
  shows "get_next_walk s p (Some a) =
    Some (first_of (filter (\<lambda>b. key p < rt_key s b) (preorder (Node l a r)) @ ctx_after c), s)"
proof -
  let ?K = "rt_key s"
  obtain n where n: "rt_mem s a = Some n" "rn_ok f n" "?K a = key (rn_p n)"
    "l_left n = first_of (preorder l)" "l_right n = first_of (preorder r)"
    "route_get_subtree_next s a = Some (first_of (ctx_after c))" "radix ?K (Node l a r)"
    by (rule node_at[OF inv]) (rule that)
  note nok = rn_ok_simps[OF n(2)]
  have len: "length (key p) = prefixlen p" "length (?K a) = prefixlen (rn_p n)" using p nok n(3) by simp_all
  then have pl: "prefixlen (rn_p n) < prefixlen p" using sp prefix_length_less by metis
  let ?b = "prefix_bit (u_val p) (prefixlen (rn_p n))"
  have "?b = key p ! length (?K a)" using prefix_bit_key[OF p pl] len by simp
  then have pb: "Sublist.prefix (?K a @ [?b]) (key p)"
    using prefix_snocI[of "?K a" "key p"] sp pl len by (simp add: strict_prefix_def)
  have na: "\<not> key p < ?K a" using strict_prefix_less[OF sp] by (simp add: not_less)
  have "prefix_match (rn_p n) p" using prefix_match_key[OF nok(1) p] n(3) sp by (simp add: strict_prefix_def)
  then have run: "get_next_walk s p (Some a) = (case rn_link n ?b of Some b \<Rightarrow> get_next_walk s p (Some b)
      | None \<Rightarrow> if l_right n \<noteq> None then Some (l_right n, s) else Some (first_of (ctx_after c), s))"
    using n(1,6) pl by (subst get_next_walk.simps) (simp cong: option.case_cong)
  note fl = filter_radix[OF n(7), of "key p"]
  show ?thesis
  proof (cases ?b)
    case True
    show ?thesis
    proof (cases r)
      case (Node l' x r')
      then show ?thesis using IH[of l' x r' "(True, a, l) # c"] inv run n(5) fl(4) pb na True by (simp add: rn_link_def)
    qed (use run n(5) fl(4) pb na True in \<open>simp add: rn_link_def\<close>)
  next
    case False
    show ?thesis
    proof (cases l)
      case Leaf
      then show ?thesis using run n(4,5) fl(3) pb na False by (cases r) (simp_all add: rn_link_def)
    next
      case (Node l' x r')
      then show ?thesis using IH[of l' x r' "(False, a, r) # c"] inv run n(4) fl(3) pb na False by (simp add: rn_link_def)
    qed
  qed
qed

lemma get_next_walk_spec:
  assumes inv: "rt_inv f s (plug c (Node l a r))" "rt_compact s" "locks_free s" and p: "prefix_ok p" "family p = f"
  shows "get_next_walk s p (Some a) =
    Some (first_of (filter (\<lambda>b. key p < rt_key s b) (preorder (Node l a r)) @ ctx_after c), s)"
  using inv(1)
proof (induction "size (Node l a r)" arbitrary: c l a r rule: less_induct)
  case IH: less
  let ?t = "plug c (Node l a r)" and ?K = "rt_key s"
  obtain n where n: "rt_mem s a = Some n" "rn_ok f n" "?K a = key (rn_p n)"
    "l_left n = first_of (preorder l)" "l_right n = first_of (preorder r)"
    "route_get_subtree_next s a = Some (first_of (ctx_after c))" "radix ?K (Node l a r)"
    by (rule node_at[OF IH.prems]) (rule that)
  note nok = rn_ok_simps[OF n(2)] and fl = filter_radix[OF n(7), of "key p"]
  have len: "length (key p) = prefixlen p" "length (?K a) = prefixlen (rn_p n)" using p nok n(3) by simp_all
  note m = prefix_match_key[OF nok(1) p(1), folded n(3)] prefix_match_key[OF p(1) nok(1), folded n(3)]
  consider (eq) "?K a = key p" | (less) "strict_prefix (?K a) (key p)" | (more) "strict_prefix (key p) (?K a)"
    | (off) "\<not> Sublist.prefix (?K a) (key p)" "\<not> Sublist.prefix (key p) (?K a)"
    unfolding strict_prefix_def by argo
  then show ?case
  proof cases
    case eq
    then have pl: "prefixlen (rn_p n) = prefixlen p" using len by simp
    have pre: "preorder ?t = ctx_before c @ a # (preorder l @ preorder r @ ctx_after c)" by (simp add: preorder_plug)
    show ?thesis
      using route_get_next_here[OF IH.prems inv(2,3) pre] n(1) pl m eq fl(1) by (subst get_next_walk.simps) simp
  next
    case more
    then have pl: "prefixlen p < prefixlen (rn_p n)" using len prefix_length_less by metis
    show ?thesis using n(1) pl m more strict_prefix_less[OF more] by (subst get_next_walk.simps) (simp add: strict_prefix_def)
  next
    case off
    then have ne: "?K a \<noteq> key p" by auto
    have cmp: "route_table_prefix_iter_cmp (rn_p n) p = Some (if ?K a < key p then -1 else 1)"
      using route_table_prefix_iter_cmp_key[OF nok(1) p(1)] nok(4) p(2) n(3) ne by simp
    have "get_next_walk s p (Some a) = (if ?K a < key p then Some (first_of (ctx_after c), s) else Some (Some a, s))"
      using n(1,6) m off cmp by (subst get_next_walk.simps) (simp add: cassert_def)
    moreover have "filter (\<lambda>b. key p < ?K b) (preorder (Node l a r)) = (if ?K a < key p then [] else a # preorder l @ preorder r)"
      using fl(1,2) off(1) ne by (auto simp: not_less)
    ultimately show ?thesis by simp
  next
    case less
    show ?thesis by (rule get_next_walk_descend[OF IH.prems p(1) less IH.hyps])
  qed
qed

lemma route_table_get_next_spec:
  assumes inv: "rt_inv f s t" "rt_compact s" "locks_free s" and p: "prefix_ok p" "family p = f"
  defines "x \<equiv> first_of (filter (\<lambda>b. key p < rt_key s b) (preorder t))"
  shows "route_table_get_next s p = Some (x, hold s x)"
proof -
  have walk: "get_next_walk s p (rt_top s) = Some (x, s)"
  proof (cases t)
    case Leaf
    then show ?thesis using rt_invD(1)[OF inv(1)] by (subst get_next_walk.simps) (simp add: x_def)
  next
    case (Node l a r)
    have "rt_top s = Some a" using rt_invD(1)[OF inv(1)] Node by simp
    then show ?thesis using get_next_walk_spec[of f s "[]" l a r p] inv p by (simp add: x_def Node)
  qed
  show ?thesis
  proof (cases x)
    case (Some a)
    then have a: "a \<in> set_tree t" "key p < rt_key s a"
      unfolding x_def first_of_def by (auto split: list.splits simp: filter_eq_Cons_iff simp flip: set_preorder)
    obtain n where n: "rt_mem s a = Some n" "rn_ok f n" "rt_key s a = key (rn_p n)" using rt_invD(4)[OF inv(1) a(1)] by blast
    note nok = rn_ok_simps[OF n(2)]
    have "route_table_prefix_iter_cmp (rn_p n) p = Some 1"
      using route_table_prefix_iter_cmp_key[OF nok(1) p(1)] nok(4) p(2) a(2) n(3) by auto
    then show ?thesis
      using walk Some n(1) route_lock_hold[OF n(1)]
      by (simp add: route_table_get_next_def route_table_get_next_internal_def cassert_def del: hold.simps)
  qed (use walk in \<open>simp add: route_table_get_next_def route_table_get_next_internal_def\<close>)
qed

subsection \<open>Iterators\<close>

lemma prefix_copy_key:
  assumes "prefix_ok p" "family p = AF_INET \<or> family p = AF_INET6" "length (u_val q) = 16"
  shows "prefix_ok (prefix_copy q p)" "family (prefix_copy q p) = family p" "key (prefix_copy q p) = key p"
proof -
  have "take (prefixlen p) (bits_of (take (fam_bytes (family p)) (u_val p) @ zs)) = key p" for zs
    using assms prefix_copy_bits by (simp add: key_def)
  then show "prefix_ok (prefix_copy q p)" "family (prefix_copy q p) = family p" "key (prefix_copy q p) = key p"
    using assms by (auto simp: prefix_copy_def prefix_ok_def Let_def key_def)
qed

lemma split_filter:
  assumes "sorted_wrt (<) (map K (xs @ a # ys))"
  shows "filter (\<lambda>b. K a < (K b :: 'k :: linorder)) (xs @ a # ys) = ys"
  using assms by (auto simp: sorted_wrt_append filter_empty_conv not_less intro: less_imp_le)

text \<open>An iterator over the nodes of \<open>t\<close> that has just returned \<open>a\<close>, and one paused there.\<close>

lemma iter_pause:
  assumes inv: "rt_inv f s t" "rt_compact s" "locks_free s" and a: "a \<in> set_tree t"
    and it: "it_state it = RT_ITER_STATE_ITERATING" "it_current it = Some a" "length (u_val (it_pause_prefix it)) = 16"
  shows "\<exists>it'. route_table_iter_pause (hold s (Some a)) it = Some (it', s) \<and> it_state it' = RT_ITER_STATE_PAUSED \<and>
    it_current it' = None \<and> prefix_ok (it_pause_prefix it') \<and> family (it_pause_prefix it') = f \<and>
    key (it_pause_prefix it') = rt_key s a"
proof -
  obtain n where n: "rt_mem s a = Some n" "rn_ok f n" "rt_key s a = key (rn_p n)" using rt_invD(4)[OF inv(1) a] by blast
  have "f = AF_INET \<or> f = AF_INET6" using inv(1) by (simp add: rt_inv_def)
  then have c: "prefix_ok (prefix_copy (it_pause_prefix it) (rn_p n))" "family (prefix_copy (it_pause_prefix it) (rn_p n)) = f"
    "key (prefix_copy (it_pause_prefix it) (rn_p n)) = rt_key s a"
    using prefix_copy_key[of "rn_p n"] rn_ok_simps[OF n(2)] it(3) n(3) by simp_all
  have "route_unlock_node (hold s (Some a)) a = Some s" using unhold[OF n(1), of None] inv(2,3) n(1) by (simp add: locks_free_def)
  then show ?thesis using c n(1) it by (simp add: route_table_iter_pause_def Let_def)
qed

lemma iter_next_iterating:
  assumes inv: "rt_inv f s t" "rt_compact s" "locks_free s" and pre: "preorder t = xs @ a # ys"
    and it: "it_state it = RT_ITER_STATE_ITERATING" "it_current it = Some a"
  shows "route_table_iter_next (hold s (Some a)) it =
    Some (first_of ys, it\<lparr>it_current := first_of ys,
        it_state := (if ys \<noteq> [] then RT_ITER_STATE_ITERATING else RT_ITER_STATE_DONE)\<rparr>, hold s (first_of ys))"
  using route_next_hold[OF inv pre] it by (cases ys) (simp_all add: route_table_iter_next_def del: hold.simps)

lemma iter_next_paused:
  assumes inv: "rt_inv f s t" "rt_compact s" "locks_free s"
    and it: "it_state it = RT_ITER_STATE_PAUSED" "prefix_ok (it_pause_prefix it)" "family (it_pause_prefix it) = f"
  defines "x \<equiv> first_of (filter (\<lambda>b. key (it_pause_prefix it) < rt_key s b) (preorder t))"
  shows "route_table_iter_next s it =
    Some (x, it\<lparr>it_current := x, it_state := (if x \<noteq> None then RT_ITER_STATE_ITERATING else RT_ITER_STATE_DONE)\<rparr>, hold s x)"
  using route_table_get_next_spec[OF inv it(2,3)] it(1) by (simp add: route_table_iter_next_def x_def)

subsection \<open>Freeing the table\<close>

lemma free_walk_down:
  assumes "rt_inv f s (plug c (Node l a r))"
  shows "\<exists>c' x. free_walk s a = free_walk s x \<and> plug c (Node l a r) = plug c' (Node Leaf x Leaf)"
  using assms
proof (induction "size (Node l a r)" arbitrary: c l a r rule: less_induct)
  case less
  obtain n where n: "rt_mem s a = Some n" "l_left n = first_of (preorder l)" "l_right n = first_of (preorder r)"
    by (rule node_at[OF less.prems]) (rule that)
  consider "l = Leaf" "r = Leaf" | l' x r' where "l = Node l' x r'" | l' x r' where "l = Leaf" "r = Node l' x r'"
    by (cases l; cases r) auto
  then show ?case
  proof cases
    case 2
    then have "free_walk s a = free_walk s x" using n by (subst free_walk.simps) simp
    then show ?thesis using less.hyps[of l' x r' "(False, a, r) # c"] less.prems 2 by simp
  next
    case 3
    then have "free_walk s a = free_walk s x" using n by (subst free_walk.simps) simp
    then show ?thesis using less.hyps[of l' x r' "(True, a, l) # c"] less.prems 3 by simp
  qed blast
qed

lemma free_leaf_unlink:
  assumes m: "rt_mem s x = Some n" "l_left n = None" "l_right n = None" "rn_parent n = Some q" "q \<noteq> x" "rt_mem s q = Some w"
  shows "free_walk s x = do { s1 \<leftarrow> route_node_unlink s x None (Some q); free_walk s1 q }"
  using m by (subst free_walk.simps)
    (auto simp: route_node_unlink_def rn_upd_def rn_hash_node_del_def route_node_free_def fun_upd_twist fun_upd_def[symmetric]
      split: bind_splits)

definition rt_empty :: "'i route_table \<Rightarrow> bool" where
  "rt_empty s \<longleftrightarrow> rt_mem s = Map.empty \<and> rt_count s = 0 \<and> hash_rep s {}"

lemma free_last:
  assumes inv: "rt_inv f s (Node Leaf x Leaf)"
  shows "\<exists>s'. free_walk s x = Some s' \<and> rt_empty s'"
proof -
  have top: "rt_top s = Some x" and rep: "hash_rep s {x}" and cnt: "rt_count s = 1" and d: "dom (rt_mem s) = {x}"
    using inv by (simp_all add: rt_inv_alt)
  obtain n where n: "rt_mem s x = Some n" "rn_ok f n" using rt_invD(4)[OF inv, of x] by auto
  have par: "rn_parent n = None" "l_left n = None" "l_right n = None" using rt_invD(1)[OF inv] n(1) by auto
  let ?s = "s\<lparr>rt_count := 0, rt_mem := (rt_mem s)(x \<mapsto> n\<lparr>rn_lock := 0\<rparr>)\<rparr>"
  have "hash_rep ?s {x}" by (rule hash_rep_cong[OF rep]) (use n(1) in \<open>simp_all add: rn_keyof_def\<close>)
  moreover have "rt_mem ?s x = Some (n\<lparr>rn_lock := 0\<rparr>)" "rn_hashval (n\<lparr>rn_lock := 0\<rparr>) = prefix_hash_key (rn_p (n\<lparr>rn_lock := 0\<rparr>))"
    using rn_ok_simps[OF n(2)] by simp_all
  ultimately obtain h where h: "rn_hash_node_del ?s x = Some (?s\<lparr>rt_hash := h\<rparr>)" "hash_rep (?s\<lparr>rt_hash := h\<rparr>) ({x} - {x})"
    using rn_hash_node_del_spec[of ?s "{x}" x] by blast
  let ?e = "?s\<lparr>rt_hash := h, rt_mem := Map.empty\<rparr>"
  have "rt_mem s y = None" if "y \<noteq> x" for y using d that by blast
  then have "(rt_mem ?s)(x := None) = Map.empty" by (auto simp: fun_eq_iff)
  then have "free_walk s x = Some ?e"
    using n(1) par cnt h(1) by (subst free_walk.simps) (simp add: rn_upd_def route_node_free_def)
  moreover have "hash_rep ?e {}" by (rule hash_rep_cong[OF h(2), simplified]) simp_all
  ultimately show ?thesis by (auto simp: rt_empty_def)
qed

lemma free_walk_spec:
  assumes "rt_inv f s (plug c (Node l a r))"
  shows "\<exists>s'. free_walk s a = Some s' \<and> rt_empty s'"
  using assms
proof (induction "size (plug c (Node l a r))" arbitrary: s c l a r rule: less_induct)
  case less
  obtain c' x where x: "free_walk s a = free_walk s x" "plug c (Node l a r) = plug c' (Node Leaf x Leaf)"
    using free_walk_down[OF less.prems] by blast
  note inv = less.prems[unfolded x(2)]
  show ?case
  proof (cases c')
    case Nil
    then show ?thesis using free_last[of f s x] inv x(1) by simp
  next
    case (Cons fr c1)
    obtain d q sib where fr: "fr = (d, q, sib)" by (cases fr)
    obtain n where n: "rt_mem s x = Some n" "l_left n = None" "l_right n = None"
      "ctx_at (rt_mem s) (rt_top s) c' (rn_parent n) (Some x)" "x \<notin> ctx_nodes c'"
      by (rule node_at[OF inv]) (rule that, simp_all)
    obtain w where w: "rn_parent n = Some q" "rt_mem s q = Some w" using n(4) by (auto simp: Cons fr split: option.splits)
    have q: "q \<noteq> x" using n(5) by (auto simp: Cons fr)
    obtain s1 where s1: "route_node_unlink s x None (Some q) = Some s1" "rt_inv f s1 (plug c' Leaf)"
      using route_node_unlink_spec[OF inv n(1), of Leaf None] n(2,3) w(1) by auto
    obtain l' r' where mk: "plug c' Leaf = plug c1 (Node l' q r')" by (cases d) (auto simp: Cons fr)
    have "size (plug c1 (Node l' q r')) < size (plug c (Node l a r))" unfolding x(2) mk[symmetric] by (simp add: size_plug)
    then have "\<exists>s'. free_walk s1 q = Some s' \<and> rt_empty s'" using less.hyps s1(2) mk by metis
    then show ?thesis using x(1) free_leaf_unlink[OF n(1,2,3) w(1) q w(2)] s1(1) by simp
  qed
qed

lemma route_table_free_spec:
  assumes inv: "rt_inv f s t"
  shows "\<exists>s'. route_table_free s = Some s' \<and> rt_mem s' = Map.empty \<and> rt_count s' = 0 \<and> rt_hash s' = thash_init"
proof -
  have "\<exists>s'. (case rt_top s of None \<Rightarrow> Some s | Some a \<Rightarrow> free_walk s a) = Some s' \<and> rt_empty s'"
  proof (cases t)
    case Leaf
    then show ?thesis using inv by (auto simp: rt_inv_alt rt_empty_def)
  next
    case (Node l a r)
    have "rt_top s = Some a" using rt_invD(1)[OF inv] Node by simp
    then show ?thesis using free_walk_spec[of f s "[]" l a r] inv Node by simp
  qed
  then obtain s' where s': "(case rt_top s of None \<Rightarrow> Some s | Some a \<Rightarrow> free_walk s a) = Some s'" "rt_empty s'" by blast
  have "th_count (rt_hash s') = 0"
    using s'(2) by (auto simp: rt_empty_def hash_rep_def thash_ok_def thash_wf_def thash_items_def unat_eq_0)
  then show ?thesis
    using s' by (simp add: route_table_free_def cassert_def thash_fini_def typesafe_hash_shrink_def rt_empty_def)
qed

end
