(* ===== verification/Route_Sets.thy ===== *)
theory Route_Sets
  imports Route_Iter
begin

text \<open>
  Routing tables as the daemons use them to hold a set of prefixes: a node with \<^verbatim>\<open>info\<close> set is
  kept alive by one reference. The theory shows what looking up, adding and removing does to
  the set, with the references counted exactly, and that such a table has less than two nodes
  per prefix.
\<close>

subsection \<open>A table without references from outside\<close>

text \<open>
  The daemons that keep a set of prefixes in a table hold one reference to a node as long as its
  \<^verbatim>\<open>info\<close> is set. Between two operations these are the only references.
\<close>

definition settled :: "family \<Rightarrow> 'i route_table \<Rightarrow> addr tree \<Rightarrow> bool" where
  "settled f s t \<longleftrightarrow> rt_inv f s t \<and> rt_compact s \<and>
     (\<forall>a n. rt_mem s a = Some n \<longrightarrow> rn_lock n = (if rn_info n = None then 0 else 1))"

definition info_keys :: "'i route_table \<Rightarrow> addr tree \<Rightarrow> bool list set" where
  "info_keys s t = rt_key s ` {a \<in> set_tree t. has_info s a}"

definition table_rep :: "family \<Rightarrow> 'i route_table \<Rightarrow> bool list set \<Rightarrow> bool" where
  "table_rep f s A \<longleftrightarrow> (\<exists>t. settled f s t \<and> A = info_keys s t)"

lemma settled_locks_free: "settled f s t \<Longrightarrow> locks_free s"
  by (auto simp: settled_def locks_free_def)

lemma settled_size_at:
  assumes "tree_at (rt_mem s) par lk t" and c: "rt_compact s"
    and l: "\<And>a n. rt_mem s a = Some n \<Longrightarrow> rn_info n = None \<Longrightarrow> rn_lock n = 0"
  shows "t \<noteq> Leaf \<Longrightarrow> Suc (size t) \<le> 2 * length (filter (has_info s) (preorder t))"
  using assms(1)
proof (induction t arbitrary: par lk)
  case (Node x a y)
  obtain n where n: "rt_mem s a = Some n" "tree_at (rt_mem s) (Some a) (l_left n) x" "tree_at (rt_mem s) (Some a) (l_right n) y"
    using Node.prems(2) by (auto split: option.splits)
  have le: "size x \<le> 2 * length (filter (has_info s) (preorder x))" "size y \<le> 2 * length (filter (has_info s) (preorder y))"
    using Node.IH(1)[OF _ n(2)] Node.IH(2)[OF _ n(3)] by (cases x; cases y; simp)+
  show ?case
  proof (cases "has_info s a")
    case False
    then have "rn_lock n = 0" using l[OF n(1)] n(1) by (simp add: has_info_def)
    then have "l_left n \<noteq> None" "l_right n \<noteq> None" using c n(1) by (auto simp: rt_compact_def)
    then have "x \<noteq> Leaf" "y \<noteq> Leaf" using n(2,3) by auto
    then show ?thesis using Node.IH(1)[OF _ n(2)] Node.IH(2)[OF _ n(3)] False by simp
  qed (use le in simp)
qed simp

lemma info_keys_card:
  assumes "rt_inv f s t" shows "card (info_keys s t) = length (filter (has_info s) (preorder t))" "finite (info_keys s t)"
proof -
  note i = preorder_K_inj[OF rt_invD(2)[OF assms]]
  have s: "{a \<in> set_tree t. has_info s a} = set (filter (has_info s) (preorder t))" by (auto simp: set_preorder)
  have "inj_on (rt_key s) {a \<in> set_tree t. has_info s a}" using i by (auto simp: inj_on_def)
  then show "card (info_keys s t) = length (filter (has_info s) (preorder t))" "finite (info_keys s t)"
    using i distinct_card[of "filter (has_info s) (preorder t)"] unfolding info_keys_def s by (simp_all add: card_image)
qed

lemma settled_size: "settled f s t \<Longrightarrow> t = Leaf \<or> Suc (size t) \<le> 2 * card (info_keys s t)"
  using settled_size_at[of s None "rt_top s" t] info_keys_card(1)[of f s t] rt_invD(1)[of f s t] by (auto simp: settled_def)

lemma info_keys_iff:
  assumes "rt_inv f s t" "a \<in> set_tree t" shows "rt_key s a \<in> info_keys s t \<longleftrightarrow> has_info s a"
  using preorder_K_inj[OF rt_invD(2)[OF assms(1)]] assms(2) by (auto simp: info_keys_def inj_on_def)

lemma info_keysE:
  assumes "k \<in> info_keys s t"
  obtains a n where "a \<in> set_tree t" "rt_key s a = k" "has_info s a" "rt_mem s a = Some n" "rn_info n \<noteq> None"
  using assms by (auto simp: info_keys_def has_info_def split: option.splits)

subsection \<open>Exact lookups\<close>

lemma route_node_lookup_spec:
  assumes inv: "rt_inv f s t" and p: "prefix_ok p" "family p = f"
  shows "\<lbrakk>a \<in> set_tree t; rt_key s a = key p; has_info s a\<rbrakk> \<Longrightarrow> route_node_lookup s p = Some (Some a, hold s (Some a))"
    "key p \<notin> info_keys s t \<Longrightarrow> route_node_lookup s p = Some (None, s)"
    "\<lbrakk>a \<in> set_tree t; rt_key s a = key p\<rbrakk> \<Longrightarrow> route_node_lookup_maynull s p = Some (Some a, hold s (Some a))"
    "\<forall>a \<in> set_tree t. rt_key s a \<noteq> key p \<Longrightarrow> route_node_lookup_maynull s p = Some (None, s)"
proof -
  have f: "f = AF_INET \<or> f = AF_INET6" using inv by (simp add: rt_inv_def)
  obtain q where q: "search_key p = Some q" "prefix_valid q" "family q = f" "key q = key p"
    using search_key_spec[of p] p f by metis
  note find = rn_hash_node_find_iff[OF inv q(2,3), unfolded q(4)] rn_hash_node_find_None_iff[OF inv q(2,3), unfolded q(4)]
  show "route_node_lookup s p = Some (Some a, hold s (Some a))" if a: "a \<in> set_tree t" "rt_key s a = key p" "has_info s a"
  proof -
    obtain n where "rt_mem s a = Some n" "rn_info n \<noteq> None" using a(3) by (auto simp: has_info_def split: option.splits)
    then show ?thesis using find(1)[of a] a q(1) route_lock_hold[of s a] by (simp add: route_node_lookup_def)
  qed
  show "route_node_lookup_maynull s p = Some (Some a, hold s (Some a))" if a: "a \<in> set_tree t" "rt_key s a = key p"
  proof -
    obtain n where "rt_mem s a = Some n" using rt_invD(4)[OF inv a(1)] by blast
    then show ?thesis using find(1)[of a] a q(1) route_lock_hold[of s a] by (simp add: route_node_lookup_maynull_def)
  qed
  show "route_node_lookup_maynull s p = Some (None, s)" if "\<forall>a \<in> set_tree t. rt_key s a \<noteq> key p"
    using find(2) that q(1) by (simp add: route_node_lookup_maynull_def)
  show "route_node_lookup s p = Some (None, s)" if no: "key p \<notin> info_keys s t"
  proof (cases "rn_hash_node_find s q")
    case (Some a)
    then have a: "a \<in> set_tree t" "rt_key s a = key p" using find(1) by simp_all
    then obtain n where n: "rt_mem s a = Some n" using rt_invD(4)[OF inv] by blast
    have "\<not> has_info s a" using info_keys_iff[OF inv a(1)] a(2) no by simp
    then show ?thesis using Some n q(1) by (simp add: route_node_lookup_def has_info_def)
  qed (use q(1) in \<open>simp add: route_node_lookup_def\<close>)
qed

subsection \<open>Between two references\<close>

text \<open>A node without \<^verbatim>\<open>info\<close> whose only reference is the caller's.\<close>

definition pending :: "family \<Rightarrow> 'i route_table \<Rightarrow> addr tree \<Rightarrow> addr \<Rightarrow> bool" where
  "pending f s t a \<longleftrightarrow> rt_inv f s t \<and> rt_compact s \<and> a \<in> set_tree t \<and> \<not> has_info s a \<and>
     (\<forall>b n. rt_mem s b = Some n \<longrightarrow> rn_lock n = (if b = a \<or> rn_info n \<noteq> None then 1 else 0))"

lemma pendingE:
  assumes "pending f s t a"
  obtains n where "rt_mem s a = Some n" "rn_lock n = 1" "rn_info n = None" "rt_inv f s t" "rt_compact s"
    "\<And>b m. b \<noteq> a \<Longrightarrow> rt_mem s b = Some m \<Longrightarrow> rn_lock m = (if rn_info m = None then 0 else 1)"
proof -
  have p: "rt_inv f s t" "rt_compact s" "a \<in> set_tree t" "\<not> has_info s a"
    "\<And>b n. rt_mem s b = Some n \<Longrightarrow> rn_lock n = (if b = a \<or> rn_info n \<noteq> None then 1 else 0)"
    using assms unfolding pending_def by blast+
  obtain n where n: "rt_mem s a = Some n" using rt_invD(4)[OF p(1,3)] by blast
  have "rn_lock n = 1" "rn_info n = None" using p(5)[OF n] p(4) n by (simp_all add: has_info_def)
  moreover have "rn_lock m = (if rn_info m = None then 0 else 1)" if "b \<noteq> a" "rt_mem s b = Some m" for b m
    using p(5)[OF that(2)] that(1) by simp
  ultimately show ?thesis by (rule that[OF n _ _ p(1,2)])
qed

lemma upd_inv:
  assumes "rt_inv f s t" "rt_mem s a = Some n" "core n' = core n"
  shows "rt_inv f (s\<lparr>rt_mem := (rt_mem s)(a \<mapsto> n')\<rparr>) t"
  using rt_inv_same_core(1)[OF assms(1), of "s\<lparr>rt_mem := (rt_mem s)(a \<mapsto> n')\<rparr>"] assms(2,3) by (simp add: same_core_def)

lemma upd_key: "rt_mem s a = Some n \<Longrightarrow> core n' = core n \<Longrightarrow> rt_key (s\<lparr>rt_mem := (rt_mem s)(a \<mapsto> n')\<rparr>) = rt_key s"
  by (auto simp: rt_key_def rn_keyof_def core_def fun_eq_iff)

lemma upd_compact:
  "rt_compact s \<Longrightarrow> rt_mem s a = Some n \<Longrightarrow> core n' = core n \<Longrightarrow> rn_lock n' \<noteq> 0 \<Longrightarrow>
   rt_compact (s\<lparr>rt_mem := (rt_mem s)(a \<mapsto> n')\<rparr>)"
  by (auto simp: rt_compact_def core_def)

lemma pending_fill:
  assumes "pending f s t a"
  shows "\<exists>s'. rn_upd s a (\<lambda>n. n\<lparr>rn_info := Some v\<rparr>) = Some s' \<and> settled f s' t \<and>
    info_keys s' t = insert (rt_key s a) (info_keys s t)"
proof -
  obtain n where n: "rt_mem s a = Some n" "rn_lock n = 1" and inv: "rt_inv f s t" "rt_compact s"
    and o: "\<And>b m. b \<noteq> a \<Longrightarrow> rt_mem s b = Some m \<Longrightarrow> rn_lock m = (if rn_info m = None then 0 else 1)"
    by (rule pendingE[OF assms]) (rule that)
  let ?n = "n\<lparr>rn_info := Some v\<rparr>"
  let ?s = "s\<lparr>rt_mem := (rt_mem s)(a \<mapsto> ?n)\<rparr>"
  have c: "core ?n = core n" by (simp add: core_def)
  have "settled f ?s t"
    unfolding settled_def using upd_inv[OF inv(1) n(1) c] upd_compact[OF inv(2) n(1) c] n o by simp
  moreover have "{b \<in> set_tree t. has_info ?s b} = insert a {b \<in> set_tree t. has_info s b}"
    using rt_invD(5)[OF inv(1) n(1)] by (auto simp: has_info_def)
  ultimately show ?thesis
    using n(1) upd_key[OF n(1) c] by (simp add: rn_upd_def info_keys_def)
qed

lemma pruned_keys:
  assumes p: "pruned f s t s' t'" and i: "\<And>a n. rt_mem s a = Some n \<Longrightarrow> rn_lock n = 0 \<Longrightarrow> rn_info n = None" and inv: "rt_inv f s t"
  shows "info_keys s' t' = info_keys s t"
proof -
  have k: "rt_key s' a = rt_key s a \<and> has_info s' a = has_info s a" if "a \<in> set_tree t'" for a
    using p keepsD(2,3)[of "set_tree t'" s s' a] that by (simp add: pruned_def)
  have "a \<in> set_tree t'" if a: "a \<in> set_tree t" "has_info s a" for a
  proof (rule ccontr)
    assume "a \<notin> set_tree t'"
    moreover obtain n where "rt_mem s a = Some n" using rt_invD(4)[OF inv a(1)] by blast
    ultimately show False using p a i[of a n] by (auto simp: pruned_def has_info_def)
  qed
  then have "{a \<in> set_tree t'. has_info s' a} = {a \<in> set_tree t. has_info s a}"
    using p k by (auto simp: pruned_def)
  then show ?thesis unfolding info_keys_def using k by (metis (no_types, lifting) image_cong mem_Collect_eq)
qed

lemma pending_drop:
  assumes pe: "pending f s t a"
  shows "\<exists>s' t'. route_unlock_node s a = Some s' \<and> settled f s' t' \<and> info_keys s' t' = info_keys s t"
proof -
  obtain n where n: "rt_mem s a = Some n" "rn_lock n = 1" "rn_info n = None" and inv: "rt_inv f s t" "rt_compact s"
    and o: "\<And>b m. b \<noteq> a \<Longrightarrow> rt_mem s b = Some m \<Longrightarrow> rn_lock m = (if rn_info m = None then 0 else 1)"
    by (rule pendingE[OF pe]) (rule that)
  define s1 where "s1 = s\<lparr>rt_mem := (rt_mem s)(a \<mapsto> n\<lparr>rn_lock := rn_lock n - 1\<rparr>)\<rparr>"
  have pos: "0 < rn_lock n" using n(2) by simp
  obtain s' t' where r: "route_unlock_node s a = Some s'" "pruned f s1 t s' t'"
    by (rule route_unlock_node_spec[OF inv n(1) pos, folded s1_def]) (rule that)
  have l: "rn_lock m = (if rn_info m = None then 0 else 1)" if m: "rt_mem s1 b = Some m" for b m
  proof (cases "b = a")
    case True
    then show ?thesis using m n(2,3) by (auto simp: s1_def)
  next
    case False
    then show ?thesis using m o[OF False, of m] by (simp add: s1_def)
  qed
  have c: "core (n\<lparr>rn_lock := rn_lock n - 1\<rparr>) = core n" by (simp add: core_def)
  have "rn_info m = None" if "rt_mem s1 b = Some m" "rn_lock m = 0" for b m
    using l[OF that(1)] that(2) by (simp split: if_splits)
  then have "info_keys s' t' = info_keys s1 t"
    using pruned_keys[OF r(2)] upd_inv[OF inv(1) n(1) c] unfolding s1_def by blast
  moreover have "has_info s1 b = has_info s b" for b using n(1) by (simp add: has_info_def s1_def)
  then have "info_keys s1 t = info_keys s t" unfolding info_keys_def using upd_key[OF n(1) c] by (simp add: s1_def)
  moreover have "settled f s' t'"
    unfolding settled_def
  proof (intro conjI allI impI)
    fix b m assume m: "rt_mem s' b = Some m"
    have p: "rt_inv f s' t'" "keeps (set_tree t') s1 s'" using r(2) by (simp_all add: pruned_def)
    then obtain m' where "rt_mem s1 b = Some m'" "meta m = meta m'"
      using keepsD(4)[OF p(2) _ m] rt_invD(5)[OF p(1) m] by blast
    then show "rn_lock m = (if rn_info m = None then 0 else 1)" using l[of b m'] by (simp add: meta_def)
  qed (use r(2) in \<open>simp_all add: pruned_def\<close>)
  ultimately show ?thesis using r(1) by metis
qed

lemma get_present:
  assumes st: "settled f s t" and p: "prefix_ok p" "family p = f" and a: "a \<in> set_tree t" "rt_key s a = key p"
  shows "route_node_get s p = Some (a, hold s (Some a))"
proof -
  have inv: "rt_inv f s t" using st by (simp add: settled_def)
  obtain n where n: "rt_mem s a = Some n" using rt_invD(4)[OF inv a(1)] by blast
  show ?thesis using route_node_get_found[OF inv p a] route_lock_hold[OF n] by simp
qed

lemma unhold_same:
  assumes st: "settled f s t" and a: "a \<in> set_tree t" shows "route_unlock_node (hold s (Some a)) a = Some s"
proof -
  have inv: "rt_inv f s t" "rt_compact s" using st by (simp_all add: settled_def)
  obtain n where n: "rt_mem s a = Some n" using rt_invD(4)[OF inv(1) a(1)] by blast
  have "rn_lock n + 1 \<noteq> 0" using settled_locks_free[OF st] n by (simp add: locks_free_def)
  then show ?thesis using unhold[OF n _ _ inv(2), of None] by simp
qed

lemma get_existing_pending:
  assumes st: "settled f s t" and a: "a \<in> set_tree t" "\<not> has_info s a"
  shows "pending f (hold s (Some a)) t a \<and> rt_key (hold s (Some a)) = rt_key s \<and> info_keys (hold s (Some a)) t = info_keys s t"
proof -
  have inv: "rt_inv f s t" "rt_compact s" using st by (simp_all add: settled_def)
  obtain n where n: "rt_mem s a = Some n" using rt_invD(4)[OF inv(1) a(1)] by blast
  then have i: "rn_info n = None" "rn_lock n = 0" using a(2) st by (simp_all add: has_info_def settled_def)
  have h: "hold s (Some a) = s\<lparr>rt_mem := (rt_mem s)(a \<mapsto> n\<lparr>rn_lock := rn_lock n + 1\<rparr>)\<rparr>" using n by simp
  have c: "core (n\<lparr>rn_lock := rn_lock n + 1\<rparr>) = core n" by (simp add: core_def)
  have key: "rt_key (hold s (Some a)) = rt_key s" unfolding h by (rule upd_key[OF n c])
  have info: "has_info (hold s (Some a)) = has_info s" using n by (auto simp: has_info_def fun_eq_iff)
  have "rt_compact (hold s (Some a))" unfolding h by (rule upd_compact[OF inv(2) n c]) (simp add: i)
  moreover have "rn_lock m = (if b = a \<or> rn_info m \<noteq> None then 1 else 0)" if m: "rt_mem (hold s (Some a)) b = Some m" for b m
  proof (cases "b = a")
    case True
    then show ?thesis using m i n by auto
  next
    case False
    then show ?thesis using m st n by (simp add: settled_def)
  qed
  ultimately show ?thesis
    unfolding pending_def info_keys_def key info using hold_inv[OF inv(1)] a by blast
qed

lemma get_new_pending:
  assumes st: "settled f s t" and p: "prefix_ok p" "family p = f" and no: "\<And>a. a \<in> set_tree t \<Longrightarrow> rt_key s a \<noteq> key p"
    and room: "size t + 2 < 2 ^ 30"
  shows "\<exists>a s' t'. route_node_get s p = Some (a, s') \<and> pending f s' t' a \<and> rt_key s' a = key p \<and> info_keys s' t' = info_keys s t"
proof -
  have inv: "rt_inv f s t" "rt_compact s" using st by (simp_all add: settled_def)
  obtain a s' t' where g: "route_node_get s p = Some (a, s')" and ins: "inserted f s t p a s' t'"
    using route_node_get_new[OF inv(1) p no room] by blast
  have i: "rt_inv f s' t'" "a \<in> set_tree t' - set_tree t" "rt_key s' a = key p" "keeps (set_tree t) s s'"
    "set_tree t \<subseteq> set_tree t'" "rt_compact s'" and
    new: "\<And>x. x \<in> set_tree t' - set_tree t \<Longrightarrow> \<exists>n. rt_mem s' x = Some n \<and> rn_info n = None \<and> rn_lock n = (if x = a then 1 else 0)"
    using ins inv(2) unfolding inserted_def by blast+
  have noinfo: "\<not> has_info s' x" if "x \<in> set_tree t' - set_tree t" for x using new[OF that] by (auto simp: has_info_def)
  have "rn_lock m = (if b = a \<or> rn_info m \<noteq> None then 1 else 0)" if m: "rt_mem s' b = Some m" for b m
  proof (cases "b \<in> set_tree t")
    case True
    then obtain n where "rt_mem s b = Some n" "meta m = meta n" using keepsD(4)[OF i(4) _ m] by blast
    then show ?thesis using st i(2) True by (auto simp: settled_def meta_def)
  next
    case False
    then show ?thesis using new[of b] rt_invD(5)[OF i(1) m] m by auto
  qed
  then have "pending f s' t' a" unfolding pending_def using i noinfo[OF i(2)] by blast
  moreover have "{x \<in> set_tree t'. has_info s' x} = {x \<in> set_tree t. has_info s x}"
    using noinfo keepsD(3)[OF i(4)] i(5) by blast
  then have "info_keys s' t' = info_keys s t" unfolding info_keys_def using keepsD(2)[OF i(4)] by auto
  ultimately show ?thesis using g i(3) by blast
qed

text \<open>\<^verbatim>\<open>route_node_get\<close> of a prefix that is not in use.\<close>

lemma get_pending:
  assumes st: "settled f s t" and p: "prefix_ok p" "family p = f" and no: "key p \<notin> info_keys s t"
    and room: "card (info_keys s t) < 2 ^ 28"
  shows "\<exists>a s' t'. route_node_get s p = Some (a, s') \<and> pending f s' t' a \<and> rt_key s' a = key p \<and> info_keys s' t' = info_keys s t"
proof (cases "\<exists>a \<in> set_tree t. rt_key s a = key p")
  case True
  then obtain a where a: "a \<in> set_tree t" "rt_key s a = key p" by blast
  have "\<not> has_info s a" using info_keys_iff[of f s t a] st a no by (simp add: settled_def)
  then show ?thesis using get_present[OF st p a] get_existing_pending[OF st a(1)] a(2) by auto
next
  case False
  have "size t + 2 < 2 ^ 30" using settled_size[OF st] room by (cases t) auto
  then show ?thesis using get_new_pending[OF st p] False by blast
qed

text \<open>Clearing the \<^verbatim>\<open>info\<close> of a node that was looked up and dropping the reference it stood for.\<close>

lemma clear_pending:
  assumes st: "settled f s t" and a: "a \<in> set_tree t" "has_info s a"
  shows "\<exists>s'. do { s \<leftarrow> rn_upd (hold s (Some a)) a (\<lambda>n. n\<lparr>rn_info := None\<rparr>); route_unlock_node s a } = Some s' \<and>
    pending f s' t a \<and> info_keys s' t = info_keys s t - {rt_key s a}" (is "\<exists>s'. ?run = Some s' \<and> ?Q s'")
proof -
  have inv: "rt_inv f s t" "rt_compact s" using st by (simp_all add: settled_def)
  obtain n where n: "rt_mem s a = Some n" "rn_lock n = 1"
    using st a(2) by (auto simp: settled_def has_info_def split: option.splits)
  let ?n = "n\<lparr>rn_info := None\<rparr>"
  let ?s = "s\<lparr>rt_mem := (rt_mem s)(a \<mapsto> ?n)\<rparr>"
  have c: "core ?n = core n" by (simp add: core_def)
  have l: "n\<lparr>rn_info := None, rn_lock := 1\<rparr> = ?n" using n(2) by simp
  have "do { s \<leftarrow> rn_upd (hold s (Some a)) a (\<lambda>n. n\<lparr>rn_info := None\<rparr>); route_unlock_node s a } = Some ?s"
    using n by (simp add: rn_upd_def route_unlock_node_def cassert_def l)
  moreover have "rn_lock m = (if b = a \<or> rn_info m \<noteq> None then 1 else 0)" if m: "rt_mem ?s b = Some m" for b m
  proof (cases "b = a")
    case True
    then show ?thesis using m n(2) by auto
  next
    case False
    then show ?thesis using m st by (simp add: settled_def)
  qed
  moreover have "rt_compact ?s" by (rule upd_compact[OF inv(2) n(1) c]) (simp add: n(2))
  moreover have "\<not> has_info ?s a" by (simp add: has_info_def)
  ultimately have "pending f ?s t a" and run: "?run = Some ?s"
    unfolding pending_def using upd_inv[OF inv(1) n(1) c] a(1) by blast+
  have "{b \<in> set_tree t. has_info ?s b} = {b \<in> set_tree t. has_info s b} - {a}" by (auto simp: has_info_def)
  then have "info_keys ?s t = info_keys s t - {rt_key s a}"
    unfolding info_keys_def upd_key[OF n(1) c] using preorder_K_inj[OF rt_invD(2)[OF inv(1)]] a(1)
    by (auto simp: inj_on_def)
  then show ?thesis using run \<open>pending f ?s t a\<close> by blast
qed

lemma match_settled:
  assumes st: "settled f s t" and p: "prefix_ok p"
  shows "(\<forall>k \<in> info_keys s t. \<not> Sublist.prefix k (key p)) \<Longrightarrow> route_node_match s p = Some (None, s)"
    "\<exists>k \<in> info_keys s t. Sublist.prefix k (key p) \<Longrightarrow>
       \<exists>a \<in> set_tree t. route_node_match s p = Some (Some a, hold s (Some a))"
proof -
  have inv: "rt_inv f s t" using st by (simp add: settled_def)
  have C: "covering s (set_tree t) (key p) = {} \<longleftrightarrow> (\<forall>k \<in> info_keys s t. \<not> Sublist.prefix k (key p))"
    by (auto simp: covering_def info_keys_def)
  note m = route_node_match_spec[OF inv p]
  show "route_node_match s p = Some (None, s)" if "\<forall>k \<in> info_keys s t. \<not> Sublist.prefix k (key p)"
    using m(1) C that by blast
  show "\<exists>a \<in> set_tree t. route_node_match s p = Some (Some a, hold s (Some a))"
    if "\<exists>k \<in> info_keys s t. Sublist.prefix k (key p)"
    using m(2) C that by (fastforce simp: covering_def)
qed

subsection \<open>Adding and removing\<close>

text \<open>Adding to and removing from a set of prefixes in a table.\<close>

lemma table_add_present:
  assumes "table_rep f s A" "prefix_ok p" "family p = f" "key p \<in> A"
  shows "\<exists>a n s1. route_node_get s p = Some (a, s1) \<and> rt_mem s1 a = Some n \<and> rn_info n \<noteq> None \<and> route_unlock_node s1 a = Some s"
proof -
  obtain t where t: "settled f s t" "A = info_keys s t" using assms(1) by (auto simp: table_rep_def)
  obtain a n where a: "a \<in> set_tree t" "rt_key s a = key p" "rt_mem s a = Some n" "rn_info n \<noteq> None"
    using info_keysE[of "key p" s t] assms(4) t(2) by metis
  show ?thesis using get_present[OF t(1) assms(2,3) a(1,2)] a(3,4) unhold_same[OF t(1) a(1)] by simp
qed

lemma table_add_new:
  assumes "table_rep f s A" "prefix_ok p" "family p = f" "key p \<notin> A" "card A < 2 ^ 28"
  shows "\<exists>a n s1 s2. route_node_get s p = Some (a, s1) \<and> rt_mem s1 a = Some n \<and> rn_info n = None \<and>
    rn_upd s1 a (\<lambda>n. n\<lparr>rn_info := Some v\<rparr>) = Some s2 \<and> table_rep f s2 (insert (key p) A)"
proof -
  obtain t where t: "settled f s t" "A = info_keys s t" using assms(1) by (auto simp: table_rep_def)
  obtain a s1 t1 where a: "route_node_get s p = Some (a, s1)" "pending f s1 t1 a" "rt_key s1 a = key p" "info_keys s1 t1 = info_keys s t"
    using get_pending[OF t(1) assms(2,3)] assms(4,5) t(2) by blast
  obtain n where n: "rt_mem s1 a = Some n" "rn_info n = None" by (rule pendingE[OF a(2)]) (rule that)
  obtain s2 where "rn_upd s1 a (\<lambda>n. n\<lparr>rn_info := Some v\<rparr>) = Some s2" "settled f s2 t1" "info_keys s2 t1 = insert (rt_key s1 a) (info_keys s1 t1)"
    using pending_fill[OF a(2)] by blast
  then show ?thesis using a n t(2) unfolding table_rep_def by auto
qed

lemma table_delete:
  assumes "table_rep f s A" "prefix_ok p" "family p = f"
  shows "key p \<notin> A \<Longrightarrow> route_node_lookup s p = Some (None, s)"
    "key p \<in> A \<Longrightarrow> \<exists>a s1 s'. route_node_lookup s p = Some (Some a, s1) \<and>
      do { s \<leftarrow> rn_upd s1 a (\<lambda>n. n\<lparr>rn_info := None\<rparr>); s \<leftarrow> route_unlock_node s a; route_unlock_node s a } = Some s' \<and>
      table_rep f s' (A - {key p})"
proof -
  obtain t where t: "settled f s t" "A = info_keys s t" using assms(1) by (auto simp: table_rep_def)
  have inv: "rt_inv f s t" using t(1) by (simp add: settled_def)
  show "key p \<notin> A \<Longrightarrow> route_node_lookup s p = Some (None, s)" using route_node_lookup_spec(2)[OF inv assms(2,3)] t(2) by simp
  assume "key p \<in> A"
  then obtain a where a: "a \<in> set_tree t" "rt_key s a = key p" "has_info s a" using info_keysE[of "key p" s t] t(2) by metis
  obtain s2 where s2: "do { s \<leftarrow> rn_upd (hold s (Some a)) a (\<lambda>n. n\<lparr>rn_info := None\<rparr>); route_unlock_node s a } = Some s2"
    "pending f s2 t a" "info_keys s2 t = info_keys s t - {rt_key s a}" using clear_pending[OF t(1) a(1,3)] by blast
  obtain s' t' where s': "route_unlock_node s2 a = Some s'" "settled f s' t'" "info_keys s' t' = info_keys s2 t"
    using pending_drop[OF s2(2)] by blast
  have "do { s \<leftarrow> rn_upd (hold s (Some a)) a (\<lambda>n. n\<lparr>rn_info := None\<rparr>); s \<leftarrow> route_unlock_node s a; route_unlock_node s a } = Some s'"
    using s2(1) s'(1) by (auto split: bind_splits)
  then show "\<exists>a s1 s'. route_node_lookup s p = Some (Some a, s1) \<and>
      do { s \<leftarrow> rn_upd s1 a (\<lambda>n. n\<lparr>rn_info := None\<rparr>); s \<leftarrow> route_unlock_node s a; route_unlock_node s a } = Some s' \<and>
      table_rep f s' (A - {key p})"
    using route_node_lookup_spec(1)[OF inv assms(2,3) a] s' s2(3) a(2) t(2) unfolding table_rep_def by metis
qed

end
