(* ===== verification/Route_Contract.thy ===== *)
theory Route_Contract
  imports Route_Sets
begin

text \<open>
  What lib/table.c promises to its users, as theorems about every operation on a table that
  satisfies the invariant \<open>rt_inv\<close>. A small table of three prefixes, built with the operations
  themselves, instantiates them.
\<close>

subsection \<open>An example table\<close>

definition ex_put :: "unit route_table \<Rightarrow> prefix \<Rightarrow> unit route_table option" where
  "ex_put s p = do { (a, s) \<leftarrow> route_node_get s p; rn_upd s a (\<lambda>n. n\<lparr>rn_info := Some ()\<rparr>) }"

definition ex_prefix :: "u8 \<Rightarrow> u8 \<Rightarrow> nat \<Rightarrow> prefix" where
  "ex_prefix a b l = \<lparr>family = AF_INET, prefixlen = l, u_val = [a, b] @ replicate 14 0\<rparr>"

definition ex_table :: "unit route_table option" where
  "ex_table = do { s \<leftarrow> ex_put route_table_init (ex_prefix 10 0 8);
                   s \<leftarrow> ex_put s (ex_prefix 10 128 9);
                   ex_put s (ex_prefix 192 168 16) }"

lemma ex_prefix_ok: "l \<le> 32 \<Longrightarrow> prefix_ok (ex_prefix a b l)" "family (ex_prefix a b l) = AF_INET"
  by (simp_all add: ex_prefix_def prefix_ok_def)

lemma ex_keys:
  "key (ex_prefix 10 0 8) = [False, False, False, False, True, False, True, False]"
  "key (ex_prefix 10 128 9) = [False, False, False, False, True, False, True, False, True]"
  "key (ex_prefix 192 168 16) = [True, True, False, False, False, False, False, False,
     True, False, True, False, True, False, False, False]"
  "key (ex_prefix 10 129 16) = [False, False, False, False, True, False, True, False,
     True, False, False, False, False, False, False, True]"
  by code_simp+

lemma ex_put_rep:
  assumes "table_rep AF_INET s A" "prefix_ok p" "family p = AF_INET" "key p \<notin> A" "card A < 2 ^ 28"
  shows "\<exists>s'. ex_put s p = Some s' \<and> table_rep AF_INET s' (insert (key p) A)"
  using table_add_new[OF assms, of "()"] by (auto simp: ex_put_def)

lemma table_rep_init: "f = AF_INET \<or> f = AF_INET6 \<Longrightarrow> table_rep f route_table_init {}"
  using rt_inv_init[of f]
  by (auto simp: table_rep_def settled_def info_keys_def rt_compact_def route_table_init_def intro!: exI[of _ Leaf])

lemma ex_table_rep:
  "\<exists>s t. ex_table = Some s \<and> settled AF_INET s t \<and>
     info_keys s t = {key (ex_prefix 10 0 8), key (ex_prefix 10 128 9), key (ex_prefix 192 168 16)}"
proof -
  obtain s1 where s1: "ex_put route_table_init (ex_prefix 10 0 8) = Some s1" "table_rep AF_INET s1 {key (ex_prefix 10 0 8)}"
    using ex_put_rep[OF table_rep_init, of "ex_prefix 10 0 8"] ex_prefix_ok by auto
  obtain s2 where s2: "ex_put s1 (ex_prefix 10 128 9) = Some s2" "table_rep AF_INET s2 {key (ex_prefix 10 128 9), key (ex_prefix 10 0 8)}"
    using ex_put_rep[OF s1(2), of "ex_prefix 10 128 9"] ex_prefix_ok by (auto simp: ex_keys)
  obtain s3 where s3: "ex_put s2 (ex_prefix 192 168 16) = Some s3"
    "table_rep AF_INET s3 {key (ex_prefix 192 168 16), key (ex_prefix 10 128 9), key (ex_prefix 10 0 8)}"
    using ex_put_rep[OF s2(2), of "ex_prefix 192 168 16"] ex_prefix_ok by (auto simp: ex_keys)
  then show ?thesis using s1(1) s2(1) by (auto simp: ex_table_def table_rep_def insert_commute)
qed

lemma ex_tableE:
  obtains s t where "ex_table = Some s" "settled AF_INET s t" "rt_inv AF_INET s t" "rt_compact s" "locks_free s" "size t < 6"
    "info_keys s t = {key (ex_prefix 10 0 8), key (ex_prefix 10 128 9), key (ex_prefix 192 168 16)}"
proof -
  obtain s t where s: "ex_table = Some s" "settled AF_INET s t"
    "info_keys s t = {key (ex_prefix 10 0 8), key (ex_prefix 10 128 9), key (ex_prefix 192 168 16)}" using ex_table_rep by blast
  have "card (info_keys s t) \<le> 3" unfolding s(3) by (simp add: card_insert_if)
  then have "size t < 6" using settled_size[OF s(2)] by auto
  then show ?thesis using that[OF s(1,2)] s settled_locks_free[OF s(2)] by (simp add: settled_def)
qed

subsection \<open>Lookups\<close>

text \<open>C1: Longest match: \<^verbatim>\<open>route_node_match\<close> returns, with a reference, the node with \<^verbatim>\<open>info\<close> whose prefix is the
  longest of those that cover \<open>p\<close>; without such a node it returns NULL. It always returns.\<close>

theorem route_node_match_longest:
  assumes "rt_inv f s t" "prefix_ok p"
  shows "\<exists>r. route_node_match s p = Some (r, hold s r) \<and>
    (case r of
       None \<Rightarrow> \<forall>a \<in> set_tree t. has_info s a \<longrightarrow> \<not> Sublist.prefix (rt_key s a) (key p)
     | Some a \<Rightarrow> a \<in> set_tree t \<and> has_info s a \<and> Sublist.prefix (rt_key s a) (key p) \<and>
         (\<forall>b \<in> set_tree t. has_info s b \<and> Sublist.prefix (rt_key s b) (key p) \<longrightarrow> length (rt_key s b) \<le> length (rt_key s a)))"
proof (cases "covering s (set_tree t) (key p) = {}")
  case True
  then show ?thesis using route_node_match_spec(1)[OF assms] by (auto simp: covering_def)
next
  case False
  then obtain a n where a: "a \<in> covering s (set_tree t) (key p)" "rt_mem s a = Some n"
    "route_node_match s p = Some (Some a, s\<lparr>rt_mem := (rt_mem s)(a \<mapsto> n\<lparr>rn_lock := rn_lock n + 1\<rparr>)\<rparr>)"
    "\<forall>b \<in> covering s (set_tree t) (key p). Sublist.prefix (rt_key s b) (rt_key s a)"
    using route_node_match_spec(2)[OF assms] by blast
  then show ?thesis by (intro exI[of _ "Some a"]) (auto simp: covering_def dest: prefix_length_le)
qed

theorem route_node_match_longest_witness:
  "\<exists>s t a. ex_table = Some s \<and> route_node_match s (ex_prefix 10 129 16) = Some (Some a, hold s (Some a)) \<and>
     rt_key s a = key (ex_prefix 10 128 9)"
proof -
  obtain s t where s: "ex_table = Some s" "rt_inv AF_INET s t"
    "info_keys s t = {key (ex_prefix 10 0 8), key (ex_prefix 10 128 9), key (ex_prefix 192 168 16)}"
    by (rule ex_tableE) (rule that)
  have ok: "prefix_ok (ex_prefix 10 129 16)" by (simp add: ex_prefix_ok)
  have "key (ex_prefix 10 128 9) \<in> info_keys s t" using s(3) by simp
  then obtain b where b: "b \<in> set_tree t" "rt_key s b = key (ex_prefix 10 128 9)" "has_info s b" using info_keysE by metis
  have pb: "Sublist.prefix (rt_key s b) (key (ex_prefix 10 129 16))" unfolding b(2) ex_keys by simp
  from route_node_match_longest[OF s(2) ok] obtain r where r: "route_node_match s (ex_prefix 10 129 16) = Some (r, hold s r)"
    "case r of None \<Rightarrow> \<forall>a \<in> set_tree t. has_info s a \<longrightarrow> \<not> Sublist.prefix (rt_key s a) (key (ex_prefix 10 129 16))
     | Some a \<Rightarrow> a \<in> set_tree t \<and> has_info s a \<and> Sublist.prefix (rt_key s a) (key (ex_prefix 10 129 16)) \<and>
         (\<forall>b \<in> set_tree t. has_info s b \<and> Sublist.prefix (rt_key s b) (key (ex_prefix 10 129 16)) \<longrightarrow> length (rt_key s b) \<le> length (rt_key s a))"
    by blast
  then obtain a where a: "r = Some a" "a \<in> set_tree t" "has_info s a" "Sublist.prefix (rt_key s a) (key (ex_prefix 10 129 16))"
    "length (rt_key s b) \<le> length (rt_key s a)" using b pb by (auto split: option.splits)
  have "rt_key s a \<in> info_keys s t" using info_keys_iff[OF s(2) a(2)] a(3) by simp
  then consider "rt_key s a = key (ex_prefix 10 0 8)" | "rt_key s a = key (ex_prefix 10 128 9)" | "rt_key s a = key (ex_prefix 192 168 16)"
    unfolding s(3) by blast
  then have "rt_key s a = key (ex_prefix 10 128 9)"
    by cases (use a(4,5) b(2) in \<open>simp_all add: ex_keys\<close>)
  then show ?thesis using s(1) r(1) a(1) by blast
qed

text \<open>C5: Exact lookup: \<^verbatim>\<open>route_node_lookup\<close> returns, with a reference, the node of the prefix if it is there and has
  \<^verbatim>\<open>info\<close>, and NULL otherwise. The hash table and the tree agree.\<close>

theorem route_node_lookup_exact:
  assumes "rt_inv f s t" "prefix_ok p" "family p = f"
  shows "\<exists>r. route_node_lookup s p = Some (r, hold s r) \<and>
    (\<forall>a. r = Some a \<longleftrightarrow> a \<in> set_tree t \<and> has_info s a \<and> rt_key s a = key p)"
proof (cases "key p \<in> info_keys s t")
  case True
  then obtain a where a: "a \<in> set_tree t" "rt_key s a = key p" "has_info s a" using info_keysE by metis
  have "b = a" if "b \<in> set_tree t" "rt_key s b = key p" for b
    using preorder_K_inj[OF rt_invD(2)[OF assms(1)]] a(1,2) that by (auto simp: inj_on_def)
  then have "\<forall>b. Some a = Some b \<longleftrightarrow> b \<in> set_tree t \<and> has_info s b \<and> rt_key s b = key p" using a by blast
  then show ?thesis using route_node_lookup_spec(1)[OF assms a] by blast
next
  case False
  then have "\<forall>a. None = Some a \<longleftrightarrow> a \<in> set_tree t \<and> has_info s a \<and> rt_key s a = key p"
    using info_keys_iff[OF assms(1)] by (metis option.distinct(1))
  then show ?thesis using route_node_lookup_spec(2)[OF assms False] hold.simps(1) by metis
qed

theorem route_node_lookup_exact_witness:
  "\<exists>s a. ex_table = Some s \<and> route_node_lookup s (ex_prefix 10 0 8) = Some (Some a, hold s (Some a))"
proof -
  obtain s t where s: "ex_table = Some s" "rt_inv AF_INET s t"
    "info_keys s t = {key (ex_prefix 10 0 8), key (ex_prefix 10 128 9), key (ex_prefix 192 168 16)}"
    by (rule ex_tableE) (rule that)
  have "key (ex_prefix 10 0 8) \<in> info_keys s t" using s(3) by simp
  then obtain b where b: "b \<in> set_tree t" "rt_key s b = key (ex_prefix 10 0 8)" "has_info s b" using info_keysE by metis
  have ok: "prefix_ok (ex_prefix 10 0 8)" by (simp add: ex_prefix_ok)
  from route_node_lookup_exact[OF s(2) ok ex_prefix_ok(2)] b s(1) show ?thesis by metis
qed

subsection \<open>Insertion\<close>

text \<open>C2: \<^verbatim>\<open>route_node_get\<close> always returns a node with the prefix and one more reference: the node that is there, with
  nothing else changed, or a new one, with at most one further new node where two prefixes part. The
  invariant is kept, the other nodes keep their prefix, references and \<^verbatim>\<open>info\<close>.\<close>

theorem route_node_get_finds_or_inserts:
  assumes inv: "rt_inv f s t" "rt_compact s" "locks_free s" and p: "prefix_ok p" "family p = f" and room: "size t + 2 < 2 ^ 30"
  shows "\<exists>a s' t'. route_node_get s p = Some (a, s') \<and> rt_inv f s' t' \<and> rt_compact s' \<and>
    a \<in> set_tree t' \<and> rt_key s' a = key p \<and> set_tree t \<subseteq> set_tree t' \<and> size t' \<le> size t + 2 \<and> keeps (set_tree t - {a}) s s' \<and>
    (if a \<in> set_tree t then t' = t \<and> s' = hold s (Some a)
     else \<forall>x \<in> set_tree t' - set_tree t. \<exists>n. rt_mem s' x = Some n \<and> rn_info n = None \<and> rn_lock n = (if x = a then 1 else 0))"
proof (cases "\<exists>a \<in> set_tree t. rt_key s a = key p")
  case True
  then obtain a where a: "a \<in> set_tree t" "rt_key s a = key p" by blast
  obtain n where n: "rt_mem s a = Some n" using rt_invD(4)[OF inv(1) a(1)] by blast
  let ?s = "hold s (Some a)"
  have h: "?s = s\<lparr>rt_mem := (rt_mem s)(a \<mapsto> n\<lparr>rn_lock := rn_lock n + 1\<rparr>)\<rparr>" using n by simp
  have c: "core (n\<lparr>rn_lock := rn_lock n + 1\<rparr>) = core n" by (simp add: core_def)
  have "rt_compact ?s" unfolding h by (rule upd_compact[OF inv(2) n c]) (use inv(3) n in \<open>simp add: locks_free_def\<close>)
  moreover have "rt_key ?s a = key p" unfolding h using upd_key[OF n c] a(2) by simp
  moreover have "keeps (set_tree t - {a}) s ?s" unfolding h by (simp add: keeps_def)
  moreover have "route_node_get s p = Some (a, ?s)" using route_node_get_found[OF inv(1) p a] route_lock_hold[OF n] by simp
  ultimately show ?thesis using hold_inv[OF inv(1), of "Some a"] a(1) by (intro exI[of _ a] exI[of _ ?s] exI[of _ t]) simp
next
  case False
  then obtain a s' t' where g: "route_node_get s p = Some (a, s')" "inserted f s t p a s' t'"
    using route_node_get_new[OF inv(1) p _ room] by blast
  then have "keeps (set_tree t - {a}) s s'" using keeps_mono[of "set_tree t" s s'] by (auto simp: inserted_def)
  then show ?thesis using g inv(2) unfolding inserted_def by (intro exI[of _ a] exI[of _ s'] exI[of _ t']) simp
qed

theorem route_node_get_finds_or_inserts_witness:
  "\<exists>s a s' t'. ex_table = Some s \<and> route_node_get s (ex_prefix 10 129 16) = Some (a, s') \<and> rt_inv AF_INET s' t' \<and>
     a \<in> set_tree t' \<and> rt_key s' a = key (ex_prefix 10 129 16)"
proof -
  obtain s t where s: "ex_table = Some s" "rt_inv AF_INET s t" "rt_compact s" "locks_free s" "size t < 6" by (rule ex_tableE) (rule that)
  have "prefix_ok (ex_prefix 10 129 16)" "size t + 2 < 2 ^ 30" using s(5) by (simp_all add: ex_prefix_ok)
  then show ?thesis using route_node_get_finds_or_inserts[OF s(2,3,4) _ ex_prefix_ok(2)] s(1) by blast
qed

subsection \<open>References\<close>

text \<open>C3: \<^verbatim>\<open>route_unlock_node\<close> asserts that there is a reference. Dropping one removes nodes only that nobody refers
  to: the node itself if this was the last reference, and nodes above it that had none. The others
  keep their contents, the table stays well-formed, and no node that could go is left.\<close>

theorem route_unlock_node_frees_unreferenced:
  assumes inv: "rt_inv f s t" "rt_compact s" and n: "rt_mem s a = Some n"
  shows "if rn_lock n = 0 then route_unlock_node s a = None
    else \<exists>s' t'. route_unlock_node s a = Some s' \<and> rt_inv f s' t' \<and> rt_compact s' \<and> set_tree t' \<subseteq> set_tree t \<and>
      keeps (set_tree t') (s\<lparr>rt_mem := (rt_mem s)(a \<mapsto> n\<lparr>rn_lock := rn_lock n - 1\<rparr>)\<rparr>) s' \<and>
      (\<forall>b \<in> set_tree t - set_tree t'. \<exists>m. rt_mem s b = Some m \<and> rn_lock m = (if b = a then 1 else 0))"
proof (cases "rn_lock n = 0")
  case True
  then show ?thesis using n by (simp add: route_unlock_node_def)
next
  case False
  then have pos: "0 < rn_lock n" by (simp add: word_gt_0)
  define s1 where "s1 = s\<lparr>rt_mem := (rt_mem s)(a \<mapsto> n\<lparr>rn_lock := rn_lock n - 1\<rparr>)\<rparr>"
  obtain s' t' where r: "route_unlock_node s a = Some s'" "pruned f s1 t s' t'"
    by (rule route_unlock_node_spec[OF inv n pos, folded s1_def]) (rule that)
  have p: "rt_inv f s' t'" "rt_compact s'" "set_tree t' \<subseteq> set_tree t" "keeps (set_tree t') s1 s'"
    "\<And>x w. x \<in> set_tree t - set_tree t' \<Longrightarrow> rt_mem s1 x = Some w \<Longrightarrow> rn_lock w = 0" using r(2) unfolding pruned_def by blast+
  have "\<exists>m. rt_mem s b = Some m \<and> rn_lock m = (if b = a then 1 else 0)" if b: "b \<in> set_tree t - set_tree t'" for b
  proof (cases "b = a")
    case True
    then have "rn_lock n - 1 = 0" using p(5)[OF b, of "n\<lparr>rn_lock := rn_lock n - 1\<rparr>"] by (simp add: s1_def)
    then show ?thesis using n True by simp
  next
    case False
    obtain m where m: "rt_mem s b = Some m" using rt_invD(4)[OF inv(1)] b by blast
    then show ?thesis using p(5)[OF b, of m] False by (simp add: s1_def)
  qed
  then have "\<forall>b \<in> set_tree t - set_tree t'. \<exists>m. rt_mem s b = Some m \<and> rn_lock m = (if b = a then 1 else 0)" by blast
  then show ?thesis unfolding if_not_P[OF False] using r(1) p(1-4) unfolding s1_def by blast
qed

theorem route_unlock_node_frees_unreferenced_witness:
  "\<exists>s a n s' t'. ex_table = Some s \<and> rt_mem s a = Some n \<and> rn_lock n = 1 \<and> route_unlock_node s a = Some s' \<and> rt_inv AF_INET s' t'"
proof -
  obtain s t where s: "ex_table = Some s" "settled AF_INET s t" "rt_inv AF_INET s t" "rt_compact s"
    "info_keys s t = {key (ex_prefix 10 0 8), key (ex_prefix 10 128 9), key (ex_prefix 192 168 16)}"
    by (rule ex_tableE) (rule that)
  have "key (ex_prefix 10 0 8) \<in> info_keys s t" using s(5) by simp
  then obtain b n where b: "rt_mem s b = Some n" "rn_info n \<noteq> None" using info_keysE by metis
  then have l: "rn_lock n = 1" using s(2) by (auto simp: settled_def)
  then obtain s' t' where "route_unlock_node s b = Some s'" "rt_inv AF_INET s' t'"
    using route_unlock_node_frees_unreferenced[OF s(3,4) b(1)] by auto
  then show ?thesis using s(1) b(1) l by blast
qed



subsection \<open>Iteration\<close>

text \<open>C6: \<^verbatim>\<open>route_top\<close> and \<^verbatim>\<open>route_next\<close> visit every node once, in the lexicographic order of the prefixes, with a
  reference to the current node only, and leave the table as it was.\<close>

theorem route_next_visits_all:
  assumes "rt_inv f s t" "rt_compact s" "locks_free s"
  shows "\<exists>node s1 xs. route_top s = Some (node, s1) \<and> route_walk s1 node xs s \<and> set xs = dom (rt_mem s) \<and>
    sorted_wrt (<) (map (rt_key s) xs)"
  using route_top_hold[OF assms(1)] route_walk_from[OF assms, of "[]" "preorder t"] preorder_sorted[OF rt_invD(2)[OF assms(1)]]
    rt_invD(3)[OF assms(1)] set_preorder[of t] by auto

theorem route_next_visits_all_witness:
  "\<exists>s node s1 xs. ex_table = Some s \<and> route_top s = Some (node, s1) \<and> route_walk s1 node xs s \<and> set xs = dom (rt_mem s)"
proof -
  obtain s t where s: "ex_table = Some s" "rt_inv AF_INET s t" "rt_compact s" "locks_free s" by (rule ex_tableE) (rule that)
  then show ?thesis using route_next_visits_all[OF s(2,3,4)] by blast
qed

text \<open>C8: \<^verbatim>\<open>route_table_get_next\<close> of a prefix that need not be in the table returns, with a reference, the first node
  whose prefix is greater in the order of iteration. Its assertions hold.\<close>

theorem route_table_get_next_least:
  assumes "rt_inv f s t" "rt_compact s" "locks_free s" "prefix_ok p" "family p = f"
  shows "\<exists>x. route_table_get_next s p = Some (x, hold s x) \<and>
    (case x of None \<Rightarrow> \<forall>b \<in> set_tree t. rt_key s b \<le> key p
     | Some a \<Rightarrow> a \<in> set_tree t \<and> key p < rt_key s a \<and> (\<forall>b \<in> set_tree t. key p < rt_key s b \<longrightarrow> rt_key s a \<le> rt_key s b))"
proof -
  define ys where "ys = filter (\<lambda>b. key p < rt_key s b) (preorder t)"
  have srt: "sorted_wrt (\<lambda>a b. rt_key s a < rt_key s b) ys"
    using preorder_sorted[OF rt_invD(2)[OF assms(1)]] unfolding ys_def by (simp add: sorted_wrt_map sorted_wrt_filter)
  have set: "set ys = {b \<in> set_tree t. key p < rt_key s b}" by (auto simp: ys_def set_preorder)
  have "case first_of ys of None \<Rightarrow> \<forall>b \<in> set_tree t. rt_key s b \<le> key p
     | Some a \<Rightarrow> a \<in> set_tree t \<and> key p < rt_key s a \<and> (\<forall>b \<in> set_tree t. key p < rt_key s b \<longrightarrow> rt_key s a \<le> rt_key s b)"
  proof (cases ys)
    case Nil
    then show ?thesis using set by (auto simp: not_less)
  next
    case (Cons a zs)
    have "rt_key s a \<le> rt_key s b" if "b \<in> set ys" for b using that srt Cons by (auto intro: less_imp_le)
    moreover have "a \<in> set ys" using Cons by simp
    ultimately have "a \<in> set_tree t \<and> key p < rt_key s a \<and> (\<forall>b \<in> set_tree t. key p < rt_key s b \<longrightarrow> rt_key s a \<le> rt_key s b)"
      unfolding set by blast
    then show ?thesis by (simp add: Cons)
  qed
  then show ?thesis using route_table_get_next_spec[OF assms] unfolding ys_def by blast
qed

theorem route_table_get_next_least_witness:
  "\<exists>s x. ex_table = Some s \<and> route_table_get_next s (ex_prefix 10 129 16) = Some (x, hold s x) \<and>
     (\<exists>a. x = Some a \<and> key (ex_prefix 10 129 16) < rt_key s a)"
proof -
  obtain s t where s: "ex_table = Some s" "rt_inv AF_INET s t" "rt_compact s" "locks_free s"
    "info_keys s t = {key (ex_prefix 10 0 8), key (ex_prefix 10 128 9), key (ex_prefix 192 168 16)}"
    by (rule ex_tableE) (rule that)
  have ok: "prefix_ok (ex_prefix 10 129 16)" by (simp add: ex_prefix_ok)
  obtain x where x: "route_table_get_next s (ex_prefix 10 129 16) = Some (x, hold s x)"
    "case x of None \<Rightarrow> \<forall>b \<in> set_tree t. rt_key s b \<le> key (ex_prefix 10 129 16)
     | Some a \<Rightarrow> a \<in> set_tree t \<and> key (ex_prefix 10 129 16) < rt_key s a \<and>
         (\<forall>b \<in> set_tree t. key (ex_prefix 10 129 16) < rt_key s b \<longrightarrow> rt_key s a \<le> rt_key s b)"
    using route_table_get_next_least[OF s(2,3,4) ok ex_prefix_ok(2)] by blast
  have "key (ex_prefix 192 168 16) \<in> info_keys s t" using s(5) by simp
  then obtain b where b: "b \<in> set_tree t" "rt_key s b = key (ex_prefix 192 168 16)" using info_keysE by metis
  have "key (ex_prefix 10 129 16) < key (ex_prefix 192 168 16)" unfolding ex_keys by simp
  then have "\<not> rt_key s b \<le> key (ex_prefix 10 129 16)" unfolding b(2) by (simp add: not_le)
  then have "x \<noteq> None" using x(2) b(1) by (cases x) auto
  then obtain a where "x = Some a" "key (ex_prefix 10 129 16) < rt_key s a" using x(2) by (cases x) simp_all
  then show ?thesis using s(1) x(1) by blast
qed

text \<open>C9: Pausing an iterator drops its reference; when it is resumed, it goes on with the node it would have visited
  next, if the table has not changed in between.\<close>

theorem route_table_iter_pause_resume:
  assumes inv: "rt_inv f s t" "rt_compact s" "locks_free s" and pre: "preorder t = xs @ a # ys"
    and it: "it_state it = RT_ITER_STATE_ITERATING" "it_current it = Some a" "length (u_val (it_pause_prefix it)) = 16"
  shows "\<exists>it1 it2 it3. route_table_iter_next (hold s (Some a)) it = Some (first_of ys, it1, hold s (first_of ys)) \<and>
    route_table_iter_pause (hold s (Some a)) it = Some (it2, s) \<and>
    route_table_iter_next s it2 = Some (first_of ys, it3, hold s (first_of ys)) \<and>
    it_state it3 = it_state it1 \<and> it_current it3 = it_current it1"
proof -
  have a: "a \<in> set_tree t" using pre set_preorder[of t] by auto
  obtain it2 where p: "route_table_iter_pause (hold s (Some a)) it = Some (it2, s)" "it_state it2 = RT_ITER_STATE_PAUSED"
    "prefix_ok (it_pause_prefix it2)" "family (it_pause_prefix it2) = f" "key (it_pause_prefix it2) = rt_key s a"
    using iter_pause[OF inv a it] by blast
  have "filter (\<lambda>b. rt_key s a < rt_key s b) (preorder t) = ys"
    unfolding pre by (rule split_filter) (use preorder_sorted[OF rt_invD(2)[OF inv(1)]] pre in simp)
  then have "route_table_iter_next s it2 = Some (first_of ys, it2\<lparr>it_current := first_of ys,
      it_state := (if first_of ys \<noteq> None then RT_ITER_STATE_ITERATING else RT_ITER_STATE_DONE)\<rparr>, hold s (first_of ys))"
    using iter_next_paused[OF inv p(2,3,4)] p(5) by simp
  then show ?thesis using iter_next_iterating[OF inv pre it(1,2)] p(1) by (cases ys) auto
qed

theorem route_table_iter_pause_resume_witness:
  "\<exists>s a ys it1 it2 it3. ex_table = Some s \<and>
     (let it = \<lparr>it_state = RT_ITER_STATE_ITERATING, it_current = Some a, it_pause_prefix = prefix_zero\<rparr>
      in route_table_iter_next (hold s (Some a)) it = Some (first_of ys, it1, hold s (first_of ys)) \<and>
         route_table_iter_pause (hold s (Some a)) it = Some (it2, s) \<and>
         route_table_iter_next s it2 = Some (first_of ys, it3, hold s (first_of ys)))"
proof -
  obtain s t where s: "ex_table = Some s" "rt_inv AF_INET s t" "rt_compact s" "locks_free s"
    "info_keys s t = {key (ex_prefix 10 0 8), key (ex_prefix 10 128 9), key (ex_prefix 192 168 16)}"
    by (rule ex_tableE) (rule that)
  have "t \<noteq> Leaf" using s(5) by (auto simp: info_keys_def)
  then obtain a ys where pre: "preorder t = [] @ a # ys" by (cases t) auto
  let ?it = "\<lparr>it_state = RT_ITER_STATE_ITERATING, it_current = Some a, it_pause_prefix = prefix_zero\<rparr>"
  have "it_state ?it = RT_ITER_STATE_ITERATING" "it_current ?it = Some a" "length (u_val (it_pause_prefix ?it)) = 16"
    by (simp_all add: prefix_zero_def)
  from route_table_iter_pause_resume[OF s(2,3,4) pre this] show ?thesis using s(1) unfolding Let_def by blast
qed

subsection \<open>Destruction\<close>

text \<open>C10: \<^verbatim>\<open>route_table_free\<close> frees every node, whatever references are left, finds the counter and the hash table
  empty as it asserts, and terminates.\<close>

theorem route_table_free_empties:
  assumes "rt_inv f s t"
  shows "\<exists>s'. route_table_free s = Some s' \<and> rt_mem s' = Map.empty \<and> rt_count s' = 0 \<and> rt_hash s' = thash_init"
  by (rule route_table_free_spec[OF assms])

theorem route_table_free_empties_witness:
  "\<exists>s s'. ex_table = Some s \<and> route_table_free s = Some s' \<and> rt_mem s' = Map.empty"
proof -
  obtain s t where s: "ex_table = Some s" "rt_inv AF_INET s t" by (rule ex_tableE) (rule that)
  then show ?thesis using route_table_free_empties[OF s(2)] by blast
qed

end
