(* ===== verification/Packet_Stream.thy ===== *)
theory Packet_Stream
  imports Prefix
begin

text \<open>
  The packet buffers of \<^verbatim>\<open>lib/stream.c\<close>: a byte array with a read position and an end position, and the
  FIFO of such buffers. Positions and sizes are \<^verbatim>\<open>size_t\<close>, so they are words of 64 bits and wrap
  around. \<^verbatim>\<open>STREAM_VERIFY_SANE\<close> and \<^verbatim>\<open>STREAM_BOUND_WARN\<close> end in an \<^verbatim>\<open>assert\<close>: their failure is \<open>None\<close>,
  and so is every access outside the data segment. Fresh memory has unspecified content, 0 here.
\<close>

subsection \<open>Byte memory\<close>

definition mem_get :: "u8 list \<Rightarrow> u64 \<Rightarrow> u8 option" where
  "mem_get d i = (if unat i < length d then Some (d ! unat i) else None)"

definition mem_set :: "u8 list \<Rightarrow> u64 \<Rightarrow> u8 \<Rightarrow> u8 list option" where
  "mem_set d i b = (if unat i < length d then Some (d[unat i := b]) else None)"

text \<open>The source and the destination of \<^verbatim>\<open>memcpy\<close>.\<close>

definition mem_read :: "u8 list \<Rightarrow> u64 \<Rightarrow> u64 \<Rightarrow> u8 list option" where
  "mem_read d i n = (if unat i + unat n \<le> length d then Some (take (unat n) (drop (unat i) d)) else None)"

definition mem_write :: "u8 list \<Rightarrow> u64 \<Rightarrow> u8 list \<Rightarrow> u8 list option" where
  "mem_write d i bs =
     (if unat i + length bs \<le> length d then Some (take (unat i) d @ bs @ drop (unat i + length bs) d) else None)"

definition xrealloc :: "u8 list \<Rightarrow> u64 \<Rightarrow> u8 list" where
  "xrealloc d n = take (unat n) d @ replicate (unat n - length d) 0"

subsection \<open>The stream\<close>

record stream =
  getp :: u64
  endp :: u64
  ssize :: u64
  allow_expansion :: bool
  data :: "u8 list"

definition STREAM_WRITEABLE :: "stream \<Rightarrow> u64" where
  "STREAM_WRITEABLE s = ssize s - endp s"

definition STREAM_READABLE :: "stream \<Rightarrow> u64" where
  "STREAM_READABLE s = endp s - getp s"

definition STREAM_VERIFY_SANE :: "stream \<Rightarrow> unit option" where
  "STREAM_VERIFY_SANE s = cassert (getp s \<le> endp s \<and> endp s \<le> ssize s)"

definition stream_new :: "u64 \<Rightarrow> stream option" where
  "stream_new n =
     do { cassert (n > 0);
          Some \<lparr>getp = 0, endp = 0, ssize = n, allow_expansion = False, data = replicate (unat n) 0\<rparr> }"

definition stream_new_expandable :: "u64 \<Rightarrow> stream option" where
  "stream_new_expandable n = do { s \<leftarrow> stream_new n; Some (s\<lparr>allow_expansion := True\<rparr>) }"

definition stream_copy :: "stream \<Rightarrow> stream \<Rightarrow> stream option" where
  "stream_copy dest src =
     do { STREAM_VERIFY_SANE src;
          cassert (ssize dest \<ge> endp src);
          bs \<leftarrow> mem_read (data src) 0 (endp src);
          d \<leftarrow> mem_write (data dest) 0 bs;
          Some (dest\<lparr>allow_expansion := allow_expansion src, endp := endp src, getp := getp src, data := d\<rparr>) }"

definition stream_dup :: "stream \<Rightarrow> stream option" where
  "stream_dup s =
     do { STREAM_VERIFY_SANE s;
          snew \<leftarrow> stream_new (endp s);
          stream_copy (snew\<lparr>allow_expansion := allow_expansion s\<rparr>) s }"

definition stream_dupcat :: "stream \<Rightarrow> stream \<Rightarrow> u64 \<Rightarrow> stream option option" where
  "stream_dupcat s1 s2 offset =
     do { STREAM_VERIFY_SANE s1;
          STREAM_VERIFY_SANE s2;
          if offset > endp s1 then Some None
          else do {
            new \<leftarrow> stream_new (endp s1 + endp s2);
            a \<leftarrow> mem_read (data s1) 0 offset;
            d \<leftarrow> mem_write (data new) 0 a;
            b \<leftarrow> mem_read (data s2) 0 (endp s2);
            d \<leftarrow> mem_write d offset b;
            c \<leftarrow> mem_read (data s1) offset (endp s1 - offset);
            d \<leftarrow> mem_write d (offset + endp s2) c;
            Some (Some (new\<lparr>allow_expansion := allow_expansion s1 \<or> allow_expansion s2,
                            endp := endp s1 + endp s2, data := d\<rparr>)) } }"

definition stream_resize_inplace :: "stream \<Rightarrow> u64 \<Rightarrow> (u64 \<times> stream) option" where
  "stream_resize_inplace s newsize =
     do { STREAM_VERIFY_SANE s;
          let s = s\<lparr>data := xrealloc (data s) newsize, ssize := newsize\<rparr>;
          let s = (if endp s > ssize s then s\<lparr>endp := ssize s\<rparr> else s);
          let s = (if getp s > endp s then s\<lparr>getp := endp s\<rparr> else s);
          STREAM_VERIFY_SANE s;
          Some (ssize s, s) }"

definition MIN_STREAM_EXPANSION_SZ :: u64 where
  "MIN_STREAM_EXPANSION_SZ = 512"

definition stream_expand :: "stream \<Rightarrow> u64 \<Rightarrow> stream" where
  "stream_expand s expand_size =
     (let actual_expand_size =
            (if expand_size \<le> MIN_STREAM_EXPANSION_SZ then MIN_STREAM_EXPANSION_SZ else expand_size);
          new_size = ssize s + actual_expand_size
      in s\<lparr>data := xrealloc (data s) new_size, ssize := new_size\<rparr>)"

definition stream_get_getp :: "stream \<Rightarrow> u64 option" where
  "stream_get_getp s = do { STREAM_VERIFY_SANE s; Some (getp s) }"

definition stream_get_endp :: "stream \<Rightarrow> u64 option" where
  "stream_get_endp s = do { STREAM_VERIFY_SANE s; Some (endp s) }"

definition stream_get_size :: "stream \<Rightarrow> u64 option" where
  "stream_get_size s = do { STREAM_VERIFY_SANE s; Some (ssize s) }"

subsection \<open>Moving the positions\<close>

definition stream_set_getp :: "stream \<Rightarrow> u64 \<Rightarrow> stream option" where
  "stream_set_getp s pos =
     do { STREAM_VERIFY_SANE s;
          cassert (pos \<le> endp s);
          Some (s\<lparr>getp := pos\<rparr>) }"

definition stream_set_endp :: "stream \<Rightarrow> u64 \<Rightarrow> stream option" where
  "stream_set_endp s pos =
     do { STREAM_VERIFY_SANE s;
          cassert (pos \<le> ssize s);
          cassert (\<not> getp s > pos);
          let s = s\<lparr>endp := pos\<rparr>;
          STREAM_VERIFY_SANE s;
          Some s }"

definition stream_forward_getp2 :: "stream \<Rightarrow> u64 \<Rightarrow> (bool \<times> stream) option" where
  "stream_forward_getp2 s n =
     do { STREAM_VERIFY_SANE s;
          if \<not> getp s + n \<le> endp s then Some (False, s)
          else Some (True, s\<lparr>getp := getp s + n\<rparr>) }"

definition stream_forward_getp :: "stream \<Rightarrow> u64 \<Rightarrow> stream option" where
  "stream_forward_getp s n =
     do { STREAM_VERIFY_SANE s;
          cassert (getp s + n \<le> endp s);
          Some (s\<lparr>getp := getp s + n\<rparr>) }"

definition stream_rewind_getp2 :: "stream \<Rightarrow> u64 \<Rightarrow> (bool \<times> stream) option" where
  "stream_rewind_getp2 s n =
     do { STREAM_VERIFY_SANE s;
          if n > getp s \<or> \<not> getp s - n \<le> endp s then Some (False, s)
          else Some (True, s\<lparr>getp := getp s - n\<rparr>) }"

definition stream_rewind_getp :: "stream \<Rightarrow> u64 \<Rightarrow> stream option" where
  "stream_rewind_getp s n =
     do { STREAM_VERIFY_SANE s;
          cassert (\<not> (n > getp s \<or> \<not> getp s - n \<le> endp s));
          Some (s\<lparr>getp := getp s - n\<rparr>) }"

definition stream_forward_endp2 :: "stream \<Rightarrow> u64 \<Rightarrow> (bool \<times> stream) option" where
  "stream_forward_endp2 s n =
     do { STREAM_VERIFY_SANE s;
          if \<not> endp s + n \<le> ssize s then Some (False, s)
          else Some (True, s\<lparr>endp := endp s + n\<rparr>) }"

definition stream_forward_endp :: "stream \<Rightarrow> u64 \<Rightarrow> stream option" where
  "stream_forward_endp s n =
     do { STREAM_VERIFY_SANE s;
          cassert (endp s + n \<le> ssize s);
          Some (s\<lparr>endp := endp s + n\<rparr>) }"

subsection \<open>Reading\<close>

text \<open>The functions with suffix 2 return \<^verbatim>\<open>false\<close>, \<open>None\<close> inside the result, where the others abort.\<close>

definition stream_get2 :: "stream \<Rightarrow> u64 \<Rightarrow> (u8 list option \<times> stream) option" where
  "stream_get2 s n =
     do { STREAM_VERIFY_SANE s;
          if STREAM_READABLE s < n then Some (None, s)
          else do { bs \<leftarrow> mem_read (data s) (getp s) n;
                    Some (Some bs, s\<lparr>getp := getp s + n\<rparr>) } }"

definition stream_get :: "stream \<Rightarrow> u64 \<Rightarrow> (u8 list \<times> stream) option" where
  "stream_get s n =
     do { STREAM_VERIFY_SANE s;
          cassert (\<not> STREAM_READABLE s < n);
          bs \<leftarrow> mem_read (data s) (getp s) n;
          Some (bs, s\<lparr>getp := getp s + n\<rparr>) }"

text \<open>\<^verbatim>\<open>s->data[s->getp++]\<close> and \<^verbatim>\<open>s->data[from++]\<close>.\<close>

definition next_byte :: "stream \<Rightarrow> (u8 \<times> stream) option" where
  "next_byte s = do { b \<leftarrow> mem_get (data s) (getp s); Some (b, s\<lparr>getp := getp s + 1\<rparr>) }"

definition stream_getc2 :: "stream \<Rightarrow> (u8 option \<times> stream) option" where
  "stream_getc2 s =
     do { STREAM_VERIFY_SANE s;
          if STREAM_READABLE s < 1 then Some (None, s)
          else do { (b, s) \<leftarrow> next_byte s; Some (Some b, s) } }"

definition stream_getc :: "stream \<Rightarrow> (u8 \<times> stream) option" where
  "stream_getc s =
     do { STREAM_VERIFY_SANE s;
          cassert (\<not> STREAM_READABLE s < 1);
          next_byte s }"

definition stream_getc_from :: "stream \<Rightarrow> u64 \<Rightarrow> u8 option" where
  "stream_getc_from s from =
     do { STREAM_VERIFY_SANE s;
          cassert (from + 1 \<le> endp s);
          mem_get (data s) from }"

definition stream_getw2 :: "stream \<Rightarrow> (u16 option \<times> stream) option" where
  "stream_getw2 s =
     do { STREAM_VERIFY_SANE s;
          if STREAM_READABLE s < 2 then Some (None, s)
          else do { (b1, s) \<leftarrow> next_byte s;
                    (b0, s) \<leftarrow> next_byte s;
                    Some (Some (push_bit 8 (ucast b1) OR ucast b0), s) } }"

definition stream_getw :: "stream \<Rightarrow> (u16 \<times> stream) option" where
  "stream_getw s =
     do { STREAM_VERIFY_SANE s;
          cassert (\<not> STREAM_READABLE s < 2);
          (b1, s) \<leftarrow> next_byte s;
          (b0, s) \<leftarrow> next_byte s;
          Some (push_bit 8 (ucast b1) OR ucast b0, s) }"

definition stream_getw_from :: "stream \<Rightarrow> u64 \<Rightarrow> u16 option" where
  "stream_getw_from s from =
     do { STREAM_VERIFY_SANE s;
          cassert (from + 2 \<le> endp s);
          b1 \<leftarrow> mem_get (data s) from;
          b0 \<leftarrow> mem_get (data s) (from + 1);
          Some (push_bit 8 (ucast b1) OR ucast b0) }"

definition stream_get3_from :: "stream \<Rightarrow> u64 \<Rightarrow> u32 option" where
  "stream_get3_from s from =
     do { STREAM_VERIFY_SANE s;
          cassert (from + 3 \<le> endp s);
          b2 \<leftarrow> mem_get (data s) from;
          b1 \<leftarrow> mem_get (data s) (from + 1);
          b0 \<leftarrow> mem_get (data s) (from + 2);
          Some (push_bit 16 (ucast b2) OR push_bit 8 (ucast b1) OR ucast b0) }"

definition stream_get3 :: "stream \<Rightarrow> (u32 \<times> stream) option" where
  "stream_get3 s =
     do { STREAM_VERIFY_SANE s;
          cassert (\<not> STREAM_READABLE s < 3);
          (b2, s) \<leftarrow> next_byte s;
          (b1, s) \<leftarrow> next_byte s;
          (b0, s) \<leftarrow> next_byte s;
          Some (push_bit 16 (ucast b2) OR push_bit 8 (ucast b1) OR ucast b0, s) }"

definition stream_getl_from :: "stream \<Rightarrow> u64 \<Rightarrow> u32 option" where
  "stream_getl_from s from =
     do { STREAM_VERIFY_SANE s;
          cassert (from + 4 \<le> endp s);
          b3 \<leftarrow> mem_get (data s) from;
          b2 \<leftarrow> mem_get (data s) (from + 1);
          b1 \<leftarrow> mem_get (data s) (from + 2);
          b0 \<leftarrow> mem_get (data s) (from + 3);
          Some (push_bit 24 (ucast b3) OR push_bit 16 (ucast b2) OR push_bit 8 (ucast b1) OR ucast b0) }"

definition stream_get_from :: "stream \<Rightarrow> u64 \<Rightarrow> u64 \<Rightarrow> u8 list option" where
  "stream_get_from s from n =
     do { STREAM_VERIFY_SANE s;
          cassert (from + n \<le> endp s);
          mem_read (data s) from n }"

definition stream_getl2 :: "stream \<Rightarrow> (u32 option \<times> stream) option" where
  "stream_getl2 s =
     do { STREAM_VERIFY_SANE s;
          if STREAM_READABLE s < 4 then Some (None, s)
          else do { (b3, s) \<leftarrow> next_byte s;
                    (b2, s) \<leftarrow> next_byte s;
                    (b1, s) \<leftarrow> next_byte s;
                    (b0, s) \<leftarrow> next_byte s;
                    Some (Some (push_bit 24 (ucast b3) OR push_bit 16 (ucast b2) OR push_bit 8 (ucast b1) OR ucast b0), s) } }"

definition stream_getl :: "stream \<Rightarrow> (u32 \<times> stream) option" where
  "stream_getl s =
     do { STREAM_VERIFY_SANE s;
          cassert (\<not> STREAM_READABLE s < 4);
          (b3, s) \<leftarrow> next_byte s;
          (b2, s) \<leftarrow> next_byte s;
          (b1, s) \<leftarrow> next_byte s;
          (b0, s) \<leftarrow> next_byte s;
          Some (push_bit 24 (ucast b3) OR push_bit 16 (ucast b2) OR push_bit 8 (ucast b1) OR ucast b0, s) }"

text \<open>The eight bytes of a quad word, put together.\<close>

definition quad :: "u8 \<Rightarrow> u8 \<Rightarrow> u8 \<Rightarrow> u8 \<Rightarrow> u8 \<Rightarrow> u8 \<Rightarrow> u8 \<Rightarrow> u8 \<Rightarrow> u64" where
  "quad b7 b6 b5 b4 b3 b2 b1 b0 =
     push_bit 56 (ucast b7) OR push_bit 48 (ucast b6) OR push_bit 40 (ucast b5) OR push_bit 32 (ucast b4) OR
     push_bit 24 (ucast b3) OR push_bit 16 (ucast b2) OR push_bit 8 (ucast b1) OR ucast b0"

definition stream_getq_from :: "stream \<Rightarrow> u64 \<Rightarrow> u64 option" where
  "stream_getq_from s from =
     do { STREAM_VERIFY_SANE s;
          cassert (from + 8 \<le> endp s);
          b7 \<leftarrow> mem_get (data s) from;
          b6 \<leftarrow> mem_get (data s) (from + 1);
          b5 \<leftarrow> mem_get (data s) (from + 2);
          b4 \<leftarrow> mem_get (data s) (from + 3);
          b3 \<leftarrow> mem_get (data s) (from + 4);
          b2 \<leftarrow> mem_get (data s) (from + 5);
          b1 \<leftarrow> mem_get (data s) (from + 6);
          b0 \<leftarrow> mem_get (data s) (from + 7);
          Some (quad b7 b6 b5 b4 b3 b2 b1 b0) }"

definition stream_getq :: "stream \<Rightarrow> (u64 \<times> stream) option" where
  "stream_getq s =
     do { STREAM_VERIFY_SANE s;
          cassert (\<not> STREAM_READABLE s < 8);
          (b7, s) \<leftarrow> next_byte s;
          (b6, s) \<leftarrow> next_byte s;
          (b5, s) \<leftarrow> next_byte s;
          (b4, s) \<leftarrow> next_byte s;
          (b3, s) \<leftarrow> next_byte s;
          (b2, s) \<leftarrow> next_byte s;
          (b1, s) \<leftarrow> next_byte s;
          (b0, s) \<leftarrow> next_byte s;
          Some (quad b7 b6 b5 b4 b3 b2 b1 b0, s) }"

definition stream_getq2 :: "stream \<Rightarrow> (u64 option \<times> stream) option" where
  "stream_getq2 s =
     do { STREAM_VERIFY_SANE s;
          if STREAM_READABLE s < 8 then Some (None, s)
          else do { (b7, s) \<leftarrow> next_byte s;
                    (b6, s) \<leftarrow> next_byte s;
                    (b5, s) \<leftarrow> next_byte s;
                    (b4, s) \<leftarrow> next_byte s;
                    (b3, s) \<leftarrow> next_byte s;
                    (b2, s) \<leftarrow> next_byte s;
                    (b1, s) \<leftarrow> next_byte s;
                    (b0, s) \<leftarrow> next_byte s;
                    Some (Some (quad b7 b6 b5 b4 b3 b2 b1 b0), s) } }"

text \<open>An address in network byte order is its four bytes.\<close>

definition stream_get_ipv4 :: "stream \<Rightarrow> (u8 list \<times> stream) option" where
  "stream_get_ipv4 s =
     do { STREAM_VERIFY_SANE s;
          cassert (\<not> STREAM_READABLE s < 4);
          bs \<leftarrow> mem_read (data s) (getp s) 4;
          Some (bs, s\<lparr>getp := getp s + 4\<rparr>) }"

text \<open>\<^verbatim>\<open>struct ipaddr\<close>. The type read from the wire may be any 16-bit number; of the union, \<open>ip\<close> has the 16 bytes.\<close>

record ipaddr =
  ipa_type :: u16
  ip :: "u8 list"

definition IPADDR_NONE :: u16 where "IPADDR_NONE = 0"

definition IPADDR_V4 :: u16 where "IPADDR_V4 = 2"

definition IPADDR_V6 :: u16 where "IPADDR_V6 = 10"

definition stream_get_ipaddr :: "stream \<Rightarrow> ipaddr \<Rightarrow> (bool \<times> ipaddr \<times> stream) option" where
  "stream_get_ipaddr s ipa =
     do { STREAM_VERIFY_SANE s;
          if STREAM_READABLE s < 2 then Some (False, ipa, s)
          else do {
            (t, s) \<leftarrow> stream_getw s;
            let ipa = ipa\<lparr>ipa_type := t\<rparr>;
            if t = IPADDR_NONE then Some (False, ipa, s)
            else (let ipa_len = (if t = IPADDR_V4 then 4 else if t = IPADDR_V6 then 16 else 0)
                  in if STREAM_READABLE s < ipa_len then Some (False, ipa, s)
                     else do {
                       bs \<leftarrow> mem_read (data s) (getp s) ipa_len;
                       dst \<leftarrow> mem_write (ip ipa) 0 bs;
                       Some (True, ipa\<lparr>ip := dst\<rparr>, s\<lparr>getp := getp s + ipa_len\<rparr>) }) } }"

text \<open>A float is its IEEE-754 representation.\<close>

definition stream_getf :: "stream \<Rightarrow> (u32 \<times> stream) option" where
  "stream_getf s = stream_getl s"

definition stream_getd :: "stream \<Rightarrow> (u64 \<times> stream) option" where
  "stream_getd s = stream_getq s"

subsection \<open>Writing\<close>

text \<open>The test all the put functions start with: expand the stream or abort when it is too small.\<close>

definition stream_room :: "stream \<Rightarrow> u64 \<Rightarrow> stream option" where
  "stream_room s n =
     (if STREAM_WRITEABLE s < n then
        if allow_expansion s then Some (stream_expand s (n - STREAM_WRITEABLE s)) else None
      else Some s)"

definition CHECK_SIZE :: "stream \<Rightarrow> u64 \<Rightarrow> u64" where
  "CHECK_SIZE s z = (if endp s + z > ssize s then ssize s - endp s else z)"

text \<open>A null source zeroes the bytes.\<close>

definition stream_put :: "stream \<Rightarrow> u8 list option \<Rightarrow> u64 \<Rightarrow> stream option" where
  "stream_put s src n =
     do { let n = CHECK_SIZE s n;
          STREAM_VERIFY_SANE s;
          s \<leftarrow> stream_room s n;
          bs \<leftarrow> (case src of Some src \<Rightarrow> mem_read src 0 n | None \<Rightarrow> Some (replicate (unat n) 0));
          d \<leftarrow> mem_write (data s) (endp s) bs;
          Some (s\<lparr>data := d, endp := endp s + n\<rparr>) }"

text \<open>\<^verbatim>\<open>s->data[s->endp++] = b\<close>.\<close>

definition put_byte :: "stream \<Rightarrow> u8 \<Rightarrow> stream option" where
  "put_byte s b = do { d \<leftarrow> mem_set (data s) (endp s) b; Some (s\<lparr>data := d, endp := endp s + 1\<rparr>) }"

definition stream_putc :: "stream \<Rightarrow> u8 \<Rightarrow> (int \<times> stream) option" where
  "stream_putc s c =
     do { STREAM_VERIFY_SANE s;
          s \<leftarrow> stream_room s 1;
          s \<leftarrow> put_byte s c;
          Some (1, s) }"

definition stream_putw :: "stream \<Rightarrow> u16 \<Rightarrow> (int \<times> stream) option" where
  "stream_putw s w =
     do { STREAM_VERIFY_SANE s;
          s \<leftarrow> stream_room s 2;
          s \<leftarrow> put_byte s (ucast (drop_bit 8 w));
          s \<leftarrow> put_byte s (ucast w);
          Some (2, s) }"

definition stream_put3 :: "stream \<Rightarrow> u32 \<Rightarrow> (int \<times> stream) option" where
  "stream_put3 s l =
     do { STREAM_VERIFY_SANE s;
          s \<leftarrow> stream_room s 3;
          s \<leftarrow> put_byte s (ucast (drop_bit 16 l));
          s \<leftarrow> put_byte s (ucast (drop_bit 8 l));
          s \<leftarrow> put_byte s (ucast l);
          Some (3, s) }"

definition stream_putl :: "stream \<Rightarrow> u32 \<Rightarrow> (int \<times> stream) option" where
  "stream_putl s l =
     do { STREAM_VERIFY_SANE s;
          s \<leftarrow> stream_room s 4;
          s \<leftarrow> put_byte s (ucast (drop_bit 24 l));
          s \<leftarrow> put_byte s (ucast (drop_bit 16 l));
          s \<leftarrow> put_byte s (ucast (drop_bit 8 l));
          s \<leftarrow> put_byte s (ucast l);
          Some (4, s) }"

definition stream_putq :: "stream \<Rightarrow> u64 \<Rightarrow> (int \<times> stream) option" where
  "stream_putq s q =
     do { STREAM_VERIFY_SANE s;
          s \<leftarrow> stream_room s 8;
          s \<leftarrow> put_byte s (ucast (drop_bit 56 q));
          s \<leftarrow> put_byte s (ucast (drop_bit 48 q));
          s \<leftarrow> put_byte s (ucast (drop_bit 40 q));
          s \<leftarrow> put_byte s (ucast (drop_bit 32 q));
          s \<leftarrow> put_byte s (ucast (drop_bit 24 q));
          s \<leftarrow> put_byte s (ucast (drop_bit 16 q));
          s \<leftarrow> put_byte s (ucast (drop_bit 8 q));
          s \<leftarrow> put_byte s (ucast q);
          Some (8, s) }"

definition stream_putf :: "stream \<Rightarrow> u32 \<Rightarrow> (int \<times> stream) option" where
  "stream_putf s f = stream_putl s f"

definition stream_putd :: "stream \<Rightarrow> u64 \<Rightarrow> (int \<times> stream) option" where
  "stream_putd s d = stream_putq s d"

text \<open>\<^verbatim>\<open>s->data[putp] = b\<close>.\<close>

definition put_byte_at :: "stream \<Rightarrow> u64 \<Rightarrow> u8 \<Rightarrow> stream option" where
  "put_byte_at s i b = do { d \<leftarrow> mem_set (data s) i b; Some (s\<lparr>data := d\<rparr>) }"

definition stream_putc_at :: "stream \<Rightarrow> u64 \<Rightarrow> u8 \<Rightarrow> (int \<times> stream) option" where
  "stream_putc_at s putp c =
     do { STREAM_VERIFY_SANE s;
          cassert (putp + 1 \<le> endp s);
          s \<leftarrow> put_byte_at s putp c;
          Some (1, s) }"

definition stream_putw_at :: "stream \<Rightarrow> u64 \<Rightarrow> u16 \<Rightarrow> (int \<times> stream) option" where
  "stream_putw_at s putp w =
     do { STREAM_VERIFY_SANE s;
          cassert (putp + 2 \<le> endp s);
          s \<leftarrow> put_byte_at s putp (ucast (drop_bit 8 w));
          s \<leftarrow> put_byte_at s (putp + 1) (ucast w);
          Some (2, s) }"

definition stream_put3_at :: "stream \<Rightarrow> u64 \<Rightarrow> u32 \<Rightarrow> (int \<times> stream) option" where
  "stream_put3_at s putp l =
     do { STREAM_VERIFY_SANE s;
          cassert (putp + 3 \<le> endp s);
          s \<leftarrow> put_byte_at s putp (ucast (drop_bit 16 l));
          s \<leftarrow> put_byte_at s (putp + 1) (ucast (drop_bit 8 l));
          s \<leftarrow> put_byte_at s (putp + 2) (ucast l);
          Some (3, s) }"

definition stream_putl_at :: "stream \<Rightarrow> u64 \<Rightarrow> u32 \<Rightarrow> (int \<times> stream) option" where
  "stream_putl_at s putp l =
     do { STREAM_VERIFY_SANE s;
          cassert (putp + 4 \<le> endp s);
          s \<leftarrow> put_byte_at s putp (ucast (drop_bit 24 l));
          s \<leftarrow> put_byte_at s (putp + 1) (ucast (drop_bit 16 l));
          s \<leftarrow> put_byte_at s (putp + 2) (ucast (drop_bit 8 l));
          s \<leftarrow> put_byte_at s (putp + 3) (ucast l);
          Some (4, s) }"

definition stream_putq_at :: "stream \<Rightarrow> u64 \<Rightarrow> u64 \<Rightarrow> (int \<times> stream) option" where
  "stream_putq_at s putp q =
     do { STREAM_VERIFY_SANE s;
          cassert (putp + 8 \<le> endp s);
          s \<leftarrow> put_byte_at s putp (ucast (drop_bit 56 q));
          s \<leftarrow> put_byte_at s (putp + 1) (ucast (drop_bit 48 q));
          s \<leftarrow> put_byte_at s (putp + 2) (ucast (drop_bit 40 q));
          s \<leftarrow> put_byte_at s (putp + 3) (ucast (drop_bit 32 q));
          s \<leftarrow> put_byte_at s (putp + 4) (ucast (drop_bit 24 q));
          s \<leftarrow> put_byte_at s (putp + 5) (ucast (drop_bit 16 q));
          s \<leftarrow> put_byte_at s (putp + 6) (ucast (drop_bit 8 q));
          s \<leftarrow> put_byte_at s (putp + 7) (ucast q);
          Some (8, s) }"

text \<open>Addresses: \<open>addr\<close> has the bytes of the \<^verbatim>\<open>struct in_addr\<close> or \<^verbatim>\<open>in6_addr\<close>.\<close>

definition put_bytes :: "stream \<Rightarrow> u8 list \<Rightarrow> u64 \<Rightarrow> stream option" where
  "put_bytes s src n =
     do { bs \<leftarrow> mem_read src 0 n;
          d \<leftarrow> mem_write (data s) (endp s) bs;
          Some (s\<lparr>data := d, endp := endp s + n\<rparr>) }"

definition stream_put_ipv4 :: "stream \<Rightarrow> u8 list \<Rightarrow> (int \<times> stream) option" where
  "stream_put_ipv4 s l =
     do { STREAM_VERIFY_SANE s;
          if STREAM_WRITEABLE s < 4 then do { s \<leftarrow> stream_room s 4; Some (0, s) }
          else do { s \<leftarrow> put_bytes s l 4; Some (4, s) } }"

definition stream_put_in_addr :: "stream \<Rightarrow> u8 list \<Rightarrow> (int \<times> stream) option" where
  "stream_put_in_addr s addr =
     do { STREAM_VERIFY_SANE s;
          s \<leftarrow> stream_room s 4;
          s \<leftarrow> put_bytes s addr 4;
          Some (4, s) }"

definition stream_write :: "stream \<Rightarrow> u8 list \<Rightarrow> u64 \<Rightarrow> (u64 \<times> stream) option" where
  "stream_write s ptr n =
     do { let n = CHECK_SIZE s n;
          STREAM_VERIFY_SANE s;
          s \<leftarrow> stream_room s n;
          s \<leftarrow> put_bytes s ptr n;
          Some (n, s) }"

definition stream_put_ipaddr :: "stream \<Rightarrow> ipaddr \<Rightarrow> (bool \<times> stream) option" where
  "stream_put_ipaddr s ipa =
     do { (r, s) \<leftarrow> stream_putw s (ipa_type ipa);
          if ipa_type ipa = IPADDR_V4 then do { (r, s) \<leftarrow> stream_put_in_addr s (ip ipa); Some (True, s) }
          else if ipa_type ipa = IPADDR_V6 then do { (r, s) \<leftarrow> stream_write s (ip ipa) 16; Some (True, s) }
          else Some (ipa_type ipa \<noteq> IPADDR_NONE, s) }"

definition put_bytes_at :: "stream \<Rightarrow> u64 \<Rightarrow> u8 list \<Rightarrow> u64 \<Rightarrow> stream option" where
  "put_bytes_at s putp src n =
     do { bs \<leftarrow> mem_read src 0 n;
          d \<leftarrow> mem_write (data s) putp bs;
          Some (s\<lparr>data := d\<rparr>) }"

definition stream_put_in_addr_at :: "stream \<Rightarrow> u64 \<Rightarrow> u8 list \<Rightarrow> (int \<times> stream) option" where
  "stream_put_in_addr_at s putp addr =
     do { STREAM_VERIFY_SANE s;
          cassert (putp + 4 \<le> endp s);
          s \<leftarrow> put_bytes_at s putp addr 4;
          Some (4, s) }"

definition stream_put_in6_addr_at :: "stream \<Rightarrow> u64 \<Rightarrow> u8 list \<Rightarrow> (int \<times> stream) option" where
  "stream_put_in6_addr_at s putp addr =
     do { STREAM_VERIFY_SANE s;
          cassert (putp + 16 \<le> endp s);
          s \<leftarrow> put_bytes_at s putp addr 16;
          Some (16, s) }"

definition stream_put_prefix :: "stream \<Rightarrow> prefix \<Rightarrow> (int \<times> stream) option" where
  "stream_put_prefix s p =
     do { STREAM_VERIFY_SANE s;
          let psize = of_nat (PSIZE (prefixlen p));
          s \<leftarrow> stream_room s (psize + 1);
          s \<leftarrow> put_byte s (of_nat (prefixlen p));
          s \<leftarrow> put_bytes s (u_val p) psize;
          Some (int (PSIZE (prefixlen p)), s) }"

subsection \<open>Descriptors\<close>

text \<open>
  The system calls are parameters. \<open>io n\<close> is what \<^verbatim>\<open>read\<close>, \<^verbatim>\<open>recvfrom\<close> or \<^verbatim>\<open>recvmsg\<close> does when asked for
  \<open>n\<close> bytes: its result and the bytes it stored. \<open>retry\<close> is \<^verbatim>\<open>ERRNO_IO_RETRY(errno)\<close>.
\<close>

type_synonym io = "u64 \<Rightarrow> int \<times> u8 list"

definition store_input :: "stream \<Rightarrow> u8 list \<Rightarrow> int \<Rightarrow> stream option" where
  "store_input s bs nbytes =
     do { d \<leftarrow> mem_write (data s) (endp s) bs;
          Some (s\<lparr>data := d, endp := endp s + of_int nbytes\<rparr>) }"

definition stream_read :: "stream \<Rightarrow> io \<Rightarrow> u64 \<Rightarrow> (int \<times> stream) option" where
  "stream_read s readn n =
     do { STREAM_VERIFY_SANE s;
          cassert (\<not> STREAM_WRITEABLE s < n);
          let (nbytes, bs) = readn n;
          s \<leftarrow> (if nbytes > 0 then store_input s bs nbytes else Some s);
          Some (nbytes, s) }"

definition stream_read_try :: "stream \<Rightarrow> io \<Rightarrow> bool \<Rightarrow> u64 \<Rightarrow> (int \<times> stream) option" where
  "stream_read_try s io retry n =
     do { STREAM_VERIFY_SANE s;
          cassert (\<not> STREAM_WRITEABLE s < n);
          let (nbytes, bs) = io n;
          if nbytes \<ge> 0 then do { s \<leftarrow> store_input s bs nbytes; Some (nbytes, s) }
          else Some (if retry then -2 else -1, s) }"

definition stream_recvfrom :: "stream \<Rightarrow> io \<Rightarrow> bool \<Rightarrow> u64 \<Rightarrow> (int \<times> stream) option" where
  "stream_recvfrom s recvfrom retry n =
     do { STREAM_VERIFY_SANE s;
          cassert (\<not> STREAM_WRITEABLE s < n);
          let (nbytes, bs) = recvfrom n;
          if nbytes \<ge> 0 then do { s \<leftarrow> store_input s bs nbytes; Some (nbytes, s) }
          else Some (if retry then -2 else -1, s) }"

definition stream_recvmsg :: "stream \<Rightarrow> io \<Rightarrow> u64 \<Rightarrow> u64 \<Rightarrow> (int \<times> stream) option" where
  "stream_recvmsg s recvmsg msg_iovlen n =
     do { STREAM_VERIFY_SANE s;
          cassert (msg_iovlen > 0);
          cassert (\<not> STREAM_WRITEABLE s < n);
          let (nbytes, bs) = recvmsg n;
          s \<leftarrow> (if nbytes > 0 then store_input s bs nbytes else Some s);
          Some (nbytes, s) }"

text \<open>What \<^verbatim>\<open>stream_flush\<close> hands to \<^verbatim>\<open>write\<close>.\<close>

definition stream_flush :: "stream \<Rightarrow> (u8 list \<Rightarrow> int) \<Rightarrow> int option" where
  "stream_flush s wr =
     do { STREAM_VERIFY_SANE s;
          bs \<leftarrow> mem_read (data s) (getp s) (endp s - getp s);
          Some (wr bs) }"

definition stream_empty :: "stream \<Rightarrow> bool option" where
  "stream_empty s = do { STREAM_VERIFY_SANE s; Some (endp s = 0) }"

definition stream_reset :: "stream \<Rightarrow> stream option" where
  "stream_reset s = do { STREAM_VERIFY_SANE s; Some (s\<lparr>getp := 0, endp := 0\<rparr>) }"

definition stream_pulldown :: "stream \<Rightarrow> stream option" where
  "stream_pulldown s =
     (let rlen = STREAM_READABLE s
      in if rlen = 0 then stream_reset s
         else do { bs \<leftarrow> mem_read (data s) (getp s) rlen;
                   d \<leftarrow> mem_write (data s) 0 bs;
                   Some (s\<lparr>data := d, getp := 0, endp := rlen\<rparr>) })"

subsection \<open>Positions as numbers\<close>

definition stream_ok :: "stream \<Rightarrow> bool" where
  "stream_ok s \<longleftrightarrow> getp s \<le> endp s \<and> endp s \<le> ssize s \<and> length (data s) = unat (ssize s)"

text \<open>The bytes written so far, and those of them not read yet.\<close>

definition contents :: "stream \<Rightarrow> u8 list" where
  "contents s = take (unat (endp s)) (data s)"

definition unread :: "stream \<Rightarrow> u8 list" where
  "unread s = drop (unat (getp s)) (contents s)"

lemma u64_bound: "unat (x :: u64) < 18446744073709551616"
  using unsigned_less[of x] by simp

lemma unat_add_u64: "unat (x :: u64) + unat y < 18446744073709551616 \<Longrightarrow> unat (x + y) = unat x + unat y"
  by (simp add: unat_word_ariths)

lemma unat_of_nat_u64: "n < 18446744073709551616 \<Longrightarrow> unat (of_nat n :: u64) = n"
  by (simp add: unat_of_nat)

lemma stream_okD:
  assumes "stream_ok s"
  shows "unat (getp s) \<le> unat (endp s)" "unat (endp s) \<le> unat (ssize s)" "length (data s) = unat (ssize s)"
    "unat (endp s) \<le> length (data s)" "length (contents s) = unat (endp s)"
    "length (unread s) = unat (endp s) - unat (getp s)"
    "unat (STREAM_READABLE s) = length (unread s)" "unat (STREAM_WRITEABLE s) = length (data s) - unat (endp s)"
    "STREAM_VERIFY_SANE s = Some ()"
  using assms
  by (simp_all add: stream_ok_def word_le_nat_alt contents_def unread_def STREAM_READABLE_def STREAM_WRITEABLE_def
      unat_sub STREAM_VERIFY_SANE_def)

subsection \<open>Reading\<close>

definition adv :: "stream \<Rightarrow> nat \<Rightarrow> stream" where
  "adv s n = s\<lparr>getp := getp s + of_nat n\<rparr>"

lemma adv_simps [simp]:
  "endp (adv s n) = endp s" "ssize (adv s n) = ssize s" "data (adv s n) = data s"
  "allow_expansion (adv s n) = allow_expansion s" "contents (adv s n) = contents s" "adv s 0 = s"
  "adv (adv s n) k = adv s (n + k)"
  by (simp_all add: adv_def contents_def add.assoc)

lemma unat_getp_adv:
  assumes "stream_ok s" "n \<le> length (unread s)"
  shows "unat (getp (adv s n)) = unat (getp s) + n"
proof -
  have "unat (getp s) + n \<le> unat (endp s)" using assms stream_okD(1,6)[OF assms(1)] by linarith
  then have "unat (getp s) + n < 18446744073709551616" using u64_bound[of "endp s"] by linarith
  then show ?thesis by (simp add: adv_def unat_add_u64 unat_of_nat_u64)
qed

lemma adv_ok:
  assumes "stream_ok s" "n \<le> length (unread s)"
  shows "stream_ok (adv s n)" "unread (adv s n) = drop n (unread s)"
  using assms unat_getp_adv[OF assms] stream_okD(1,6)[OF assms(1)]
  by (auto simp: stream_ok_def word_le_nat_alt unread_def add.commute)

lemma next_byte_ok:
  assumes "stream_ok s" "unread s = b # rest"
  shows "next_byte s = Some (b, adv s 1)" "stream_ok (adv s 1)" "unread (adv s 1) = rest"
proof -
  note d = stream_okD[OF assms(1)]
  have lt: "unat (getp s) < unat (endp s)" using d(6) assms(2) by simp
  have "b = contents s ! unat (getp s)" using assms(2) lt d(5) by (simp add: unread_def drop_eq_nths nth_via_drop)
  then have "b = data s ! unat (getp s)" using lt by (simp add: contents_def)
  then show "next_byte s = Some (b, adv s 1)" using lt d(4) by (simp add: next_byte_def mem_get_def adv_def)
  show "stream_ok (adv s 1)" "unread (adv s 1) = rest" using adv_ok[OF assms(1), of 1] assms(2) by simp_all
qed

lemma readable_less: "stream_ok s \<Longrightarrow> STREAM_READABLE s < n \<longleftrightarrow> length (unread s) < unat n"
  by (simp add: word_less_nat_alt stream_okD)

lemma unread_split:
  assumes "n \<le> length (unread s)" shows "unread s = take n (unread s) @ drop n (unread s)" by simp

lemma length_Suc_conv_take: "length xs = n \<Longrightarrow> xs = map ((!) xs) [0..<n]"
  using map_nth[of xs] by simp

text \<open>An integer of \<open>n\<close> bytes read with \<open>get\<close>.\<close>

locale stream_reader =
  fixes get :: "stream \<Rightarrow> ('a \<times> stream) option" and width :: nat and dec :: "u8 list \<Rightarrow> 'a"
  assumes get_ok: "\<lbrakk>stream_ok s; unread s = bs @ rest; length bs = width\<rbrakk> \<Longrightarrow> get s = Some (dec bs, adv s width)"
    and get_short: "\<lbrakk>stream_ok s; length (unread s) < width\<rbrakk> \<Longrightarrow> get s = None"
begin

lemma get_iff:
  assumes "stream_ok s"
  shows "get s = (if width \<le> length (unread s) then Some (dec (take width (unread s)), adv s width) else None)"
  using get_ok[OF assms, of "take width (unread s)" "drop width (unread s)"] get_short[OF assms] by simp

lemma get_keeps: "stream_ok s \<Longrightarrow> get s = Some (x, s') \<Longrightarrow> stream_ok s' \<and> contents s' = contents s"
  by (auto simp: get_iff adv_ok split: if_splits)

end

lemma list_len2: "length bs = 2 \<longleftrightarrow> (\<exists>a b. bs = [a, b])"
  by (auto simp: numeral_2_eq_2 length_Suc_conv)

lemma list_len3: "length bs = 3 \<longleftrightarrow> (\<exists>a b c. bs = [a, b, c])"
  by (auto simp: numeral_3_eq_3 length_Suc_conv)

lemma list_len4: "length bs = 4 \<longleftrightarrow> (\<exists>a b c d. bs = [a, b, c, d])"
  by (auto simp: eval_nat_numeral length_Suc_conv)

lemma list_len8: "length bs = 8 \<longleftrightarrow> (\<exists>a b c d e f g h. bs = [a, b, c, d, e, f, g, h])"
  by (auto simp: eval_nat_numeral length_Suc_conv)

lemma readable_0: "stream_ok s \<Longrightarrow> STREAM_READABLE s = 0 \<longleftrightarrow> unread s = []"
  using readable_less[of s 1] by (simp add: word_less_1)

lemma adv_numeral:
  "adv s (Suc (Suc 0)) = adv s 2" "adv s (Suc (Suc (Suc 0))) = adv s 3" "adv s (Suc (Suc (Suc (Suc 0)))) = adv s 4"
  "adv s (Suc (Suc (Suc (Suc (Suc (Suc (Suc (Suc 0)))))))) = adv s 8"
  by (simp_all add: eval_nat_numeral)

lemmas next_bytes = adv_numeral next_byte_ok adv_ok stream_okD(9) readable_less readable_0

lemma be_dec_1: "be_dec [a] = ucast a"
  by (simp add: be_dec_def)

lemma be_dec_2: "be_dec [a, b] = push_bit 8 (ucast a) OR ucast b"
  by (simp add: be_dec_def)

lemma be_dec_3: "be_dec [a, b, c] = push_bit 16 (ucast a) OR push_bit 8 (ucast b) OR ucast c"
  by (simp add: be_dec_def push_bit_or or.assoc)

lemma be_dec_8: "be_dec [a, b, c, d, e, f, g, h] = quad a b c d e f g h"
  by (simp add: be_dec_def quad_def push_bit_or or.assoc)

interpretation getc: stream_reader stream_getc 1 "\<lambda>bs. hd bs"
proof
  fix s bs rest assume s: "stream_ok s" "unread s = bs @ rest" "length bs = 1"
  then show "stream_getc s = Some (hd bs, adv s 1)"
    by (auto simp: stream_getc_def next_bytes length_Suc_conv)
qed (simp add: stream_getc_def next_bytes)

interpretation getw: stream_reader stream_getw 2 be_dec
proof
  fix s bs rest assume s: "stream_ok s" "unread s = bs @ rest" "length bs = 2"
  then show "stream_getw s = Some (be_dec bs, adv s 2)"
    by (auto simp: stream_getw_def next_bytes list_len2 be_dec_2)
qed (simp add: stream_getw_def next_bytes)

interpretation get3: stream_reader stream_get3 3 be_dec
proof
  fix s bs rest assume s: "stream_ok s" "unread s = bs @ rest" "length bs = 3"
  then show "stream_get3 s = Some (be_dec bs, adv s 3)"
    by (auto simp: stream_get3_def next_bytes list_len3 be_dec_3)
qed (simp add: stream_get3_def next_bytes)

interpretation getl: stream_reader stream_getl 4 be_dec
proof
  fix s bs rest assume s: "stream_ok s" "unread s = bs @ rest" "length bs = 4"
  then show "stream_getl s = Some (be_dec bs, adv s 4)"
    by (auto simp: stream_getl_def next_bytes list_len4 be_dec_4)
qed (simp add: stream_getl_def next_bytes)

interpretation getq: stream_reader stream_getq 8 be_dec
proof
  fix s bs rest assume s: "stream_ok s" "unread s = bs @ rest" "length bs = 8"
  then show "stream_getq s = Some (be_dec bs, adv s 8)"
    by (auto simp: stream_getq_def next_bytes list_len8 be_dec_8)
qed (simp add: stream_getq_def next_bytes)

text \<open>The variants that report a short stream do what the aborting ones do, but for the abort.\<close>

definition report :: "('a \<times> stream) option \<Rightarrow> stream \<Rightarrow> ('a option \<times> stream) option" where
  "report r s = Some (case r of None \<Rightarrow> (None, s) | Some (x, s') \<Rightarrow> (Some x, s'))"

lemma get2_report:
  assumes "stream_ok s"
  shows "stream_getc2 s = report (stream_getc s) s" "stream_getw2 s = report (stream_getw s) s"
    "stream_getl2 s = report (stream_getl s) s" "stream_getq2 s = report (stream_getq s) s"
proof -
  show "stream_getc2 s = report (stream_getc s) s"
    using getc.get_iff[OF assms] readable_less[OF assms, of 1]
    by (auto simp: stream_getc2_def stream_getc_def report_def stream_okD(9)[OF assms] Suc_le_eq split: if_splits bind_splits)
  show "stream_getw2 s = report (stream_getw s) s"
    using getw.get_iff[OF assms] readable_less[OF assms, of 2]
    by (auto simp: stream_getw2_def stream_getw_def report_def stream_okD(9)[OF assms] split: if_splits bind_splits)
  show "stream_getl2 s = report (stream_getl s) s"
    using getl.get_iff[OF assms] readable_less[OF assms, of 4]
    by (auto simp: stream_getl2_def stream_getl_def report_def stream_okD(9)[OF assms] split: if_splits bind_splits)
  show "stream_getq2 s = report (stream_getq s) s"
    using getq.get_iff[OF assms] readable_less[OF assms, of 8]
    by (auto simp: stream_getq2_def stream_getq_def report_def stream_okD(9)[OF assms] split: if_splits bind_splits)
qed

subsection \<open>Writing\<close>

definition room :: "stream \<Rightarrow> nat" where
  "room s = length (data s) - unat (endp s)"

definition app :: "stream \<Rightarrow> u8 list \<Rightarrow> stream" where
  "app s bs = s\<lparr>data := take (unat (endp s)) (data s) @ bs @ drop (unat (endp s) + length bs) (data s),
                endp := endp s + of_nat (length bs)\<rparr>"

lemma app_simps [simp]:
  "getp (app s bs) = getp s" "ssize (app s bs) = ssize s" "allow_expansion (app s bs) = allow_expansion s"
  "app s [] = s"
  by (simp_all add: app_def)

lemma unat_endp_app:
  assumes "stream_ok s" "length bs \<le> room s"
  shows "unat (endp (app s bs)) = unat (endp s) + length bs"
proof -
  have "unat (endp s) + length bs \<le> unat (ssize s)" using assms stream_okD(3,4)[OF assms(1)] by (simp add: room_def)
  then have "unat (endp s) + length bs < 18446744073709551616" using u64_bound[of "ssize s"] by linarith
  then show ?thesis by (simp add: app_def unat_add_u64 unat_of_nat_u64)
qed

lemma app_ok:
  assumes "stream_ok s" "length bs \<le> room s"
  shows "stream_ok (app s bs)" "contents (app s bs) = contents s @ bs" "unread (app s bs) = unread s @ bs"
    "room (app s bs) = room s - length bs"
proof -
  note d = stream_okD[OF assms(1)]
  have l: "length (data (app s bs)) = length (data s)" using assms(2) d(3,4) by (simp add: app_def room_def)
  show "stream_ok (app s bs)"
    using assms d(1,3,4) unat_endp_app[OF assms] l by (simp add: stream_ok_def word_le_nat_alt room_def)
  have "take (unat (endp s) + length bs) (data (app s bs)) = contents s @ bs"
    using d(4) by (simp add: app_def contents_def)
  then show c: "contents (app s bs) = contents s @ bs" using unat_endp_app[OF assms] by (simp add: contents_def)
  show "unread (app s bs) = unread s @ bs" using d(1,5) by (simp add: unread_def c)
  show "room (app s bs) = room s - length bs" using unat_endp_app[OF assms] l by (simp add: room_def)
qed

lemma app_app:
  assumes "stream_ok s" "length xs + length ys \<le> room s"
  shows "app (app s xs) ys = app s (xs @ ys)"
proof -
  have e: "unat (endp s + of_nat (length xs)) = unat (endp s) + length xs"
    using unat_endp_app[OF assms(1), of xs] assms(2) by (simp add: app_def)
  show ?thesis using stream_okD(4)[OF assms(1)] by (simp add: app_def e ac_simps)
qed

lemma put_byte_ok: "stream_ok s \<Longrightarrow> 0 < room s \<Longrightarrow> put_byte s b = Some (app s [b])"
  by (simp add: put_byte_def mem_set_def room_def app_def upd_conv_take_nth_drop)

lemma writeable_less: "stream_ok s \<Longrightarrow> STREAM_WRITEABLE s < n \<longleftrightarrow> room s < unat n"
  by (simp add: word_less_nat_alt stream_okD room_def)

lemma writeable_0: "stream_ok s \<Longrightarrow> STREAM_WRITEABLE s = 0 \<longleftrightarrow> room s = 0"
  using writeable_less[of s 1] by (simp add: word_less_1)

lemma stream_room_enough: "stream_ok s \<Longrightarrow> unat n \<le> room s \<Longrightarrow> stream_room s n = Some s"
  using writeable_less[of s n] by (simp add: stream_room_def)

lemma stream_room_full: "stream_ok s \<Longrightarrow> room s < unat n \<Longrightarrow> \<not> allow_expansion s \<Longrightarrow> stream_room s n = None"
  using writeable_less[of s n] by (simp add: stream_room_def)

text \<open>An expandable stream grows unless its size would exceed \<^verbatim>\<open>SIZE_MAX\<close>.\<close>

definition can_take :: "stream \<Rightarrow> nat \<Rightarrow> bool" where
  "can_take s n \<longleftrightarrow> n \<le> room s \<or> allow_expansion s \<and> unat (ssize s) + max 512 n < 2 ^ 64"

definition grown :: "stream \<Rightarrow> stream \<Rightarrow> bool" where
  "grown s s' \<longleftrightarrow> stream_ok s' \<and> contents s' = contents s \<and> getp s' = getp s \<and> endp s' = endp s \<and>
     allow_expansion s' = allow_expansion s \<and> room s \<le> room s'"

lemma stream_expand_ok:
  assumes s: "stream_ok s" and n: "unat (ssize s) + max 512 (unat n) < 2 ^ 64"
  shows "grown s (stream_expand s n)" "room s + unat n \<le> room (stream_expand s n)"
    "unat (ssize (stream_expand s n)) = unat (ssize s) + max 512 (unat n)"
proof -
  define k where "k = (if n \<le> MIN_STREAM_EXPANSION_SZ then MIN_STREAM_EXPANSION_SZ else n)"
  have k: "unat k = max 512 (unat n)"
    by (auto simp: k_def MIN_STREAM_EXPANSION_SZ_def word_le_nat_alt max_def)
  have e: "stream_expand s n = s\<lparr>data := xrealloc (data s) (ssize s + k), ssize := ssize s + k\<rparr>"
    by (simp add: stream_expand_def k_def Let_def)
  have u: "unat (ssize s + k) = unat (ssize s) + unat k" using n k by (simp add: unat_add_u64)
  note d = stream_okD[OF s]
  have x: "xrealloc (data s) (ssize s + k) = data s @ replicate (unat k) 0"
    using d(3) u by (simp add: xrealloc_def)
  show "grown s (stream_expand s n)"
    using d(1-5) u by (auto simp: grown_def e x stream_ok_def word_le_nat_alt contents_def room_def)
  show "room s + unat n \<le> room (stream_expand s n)" using d(4) k by (simp add: e x room_def)
  show "unat (ssize (stream_expand s n)) = unat (ssize s) + max 512 (unat n)" using u k by (simp add: e)
qed

lemma stream_room_ok:
  assumes s: "stream_ok s" and n: "can_take s (unat n)"
  obtains s' where "stream_room s n = Some s'" "grown s s'" "unat n \<le> room s'"
    "unat (ssize s') \<le> unat (ssize s) + max 512 (unat n)"
proof (cases "unat n \<le> room s")
  case True
  then show ?thesis using that[of s] s stream_room_enough by (simp add: grown_def)
next
  case False
  let ?k = "n - STREAM_WRITEABLE s"
  have w: "unat (STREAM_WRITEABLE s) = room s" using stream_okD(8)[OF s] by (simp add: room_def)
  have k: "unat ?k = unat n - room s" using False w by (simp add: unat_sub word_le_nat_alt)
  have "allow_expansion s" "unat (ssize s) + max 512 (unat n) < 2 ^ 64" using False n by (auto simp: can_take_def)
  moreover from this have "unat (ssize s) + max 512 (unat ?k) < 2 ^ 64" using k by linarith
  moreover have "stream_room s n = Some (stream_expand s ?k)"
    using False writeable_less[OF s, of n] \<open>allow_expansion s\<close> by (simp add: stream_room_def)
  ultimately show ?thesis
    using that[of "stream_expand s ?k"] stream_expand_ok[OF s, of ?k] k False by simp
qed

text \<open>A value written with \<open>put\<close> as the bytes \<open>enc\<close>.\<close>

locale stream_writer =
  fixes put :: "stream \<Rightarrow> 'a \<Rightarrow> (int \<times> stream) option" and enc :: "'a \<Rightarrow> u8 list"
  assumes put_after_room: "\<lbrakk>stream_ok s; n = of_nat (length (enc x)); stream_room s n = Some s'; stream_ok s'; length (enc x) \<le> room s'\<rbrakk>
      \<Longrightarrow> put s x = Some (int (length (enc x)), app s' (enc x))"
    and put_full: "\<lbrakk>stream_ok s; room s < length (enc x); \<not> allow_expansion s\<rbrakk> \<Longrightarrow> put s x = None"
    and enc_bound: "length (enc x) < 2 ^ 32"
begin

lemma put_room:
  assumes "stream_ok s" "length (enc x) \<le> room s"
  shows "put s x = Some (int (length (enc x)), app s (enc x))"
proof -
  have "unat (of_nat (length (enc x)) :: u64) = length (enc x)" using enc_bound[of x] by (simp add: unat_of_nat_u64)
  then show ?thesis using put_after_room[OF assms(1) refl _ assms] stream_room_enough[OF assms(1)] assms(2) by simp
qed

lemma put_ok:
  assumes s: "stream_ok s" and t: "can_take s (length (enc x))"
  obtains s' where "put s x = Some (int (length (enc x)), s')" "stream_ok s'" "contents s' = contents s @ enc x"
    "unread s' = unread s @ enc x" "getp s' = getp s" "allow_expansion s' = allow_expansion s"
    "unat (ssize s') \<le> unat (ssize s) + max 512 (length (enc x))" "room s - length (enc x) \<le> room s'"
proof -
  let ?n = "of_nat (length (enc x)) :: u64"
  have n: "unat ?n = length (enc x)" using enc_bound[of x] by (simp add: unat_of_nat_u64)
  obtain s1 where s1: "stream_room s ?n = Some s1" "grown s s1" "length (enc x) \<le> room s1"
    "unat (ssize s1) \<le> unat (ssize s) + max 512 (length (enc x))"
    using stream_room_ok[of s ?n] s t n by auto
  have "stream_ok s1" "contents s1 = contents s" "getp s1 = getp s" "allow_expansion s1 = allow_expansion s" "room s \<le> room s1" using s1(2) by (simp_all add: grown_def)
  moreover from this have "unread s1 = unread s" by (simp add: unread_def)
  ultimately show ?thesis
    using that[of "app s1 (enc x)"] put_after_room[OF s refl s1(1) _ s1(3)] app_ok[OF _ s1(3)] s1(4) by simp
qed

end

lemma put_bytes_room:
  "stream_ok s \<Longrightarrow> Suc 0 + n \<le> room s \<Longrightarrow> put_byte s b = Some (app s [b])"
  "stream_ok s \<Longrightarrow> length bs + Suc 0 \<le> room s \<Longrightarrow> put_byte (app s bs) b = Some (app s (bs @ [b]))"
  using put_byte_ok[of s b] put_byte_ok[of "app s bs" b] app_ok[of s bs] app_app[of s bs "[b]"] by auto

lemma be_enc_simps:
  "be_enc 1 w = [ucast w]" "be_enc 2 w = [ucast (drop_bit 8 w), ucast w]"
  "be_enc 3 w = [ucast (drop_bit 16 w), ucast (drop_bit 8 w), ucast w]"
  "be_enc 4 w = [ucast (drop_bit 24 w), ucast (drop_bit 16 w), ucast (drop_bit 8 w), ucast w]"
  "be_enc 8 w = [ucast (drop_bit 56 w), ucast (drop_bit 48 w), ucast (drop_bit 40 w), ucast (drop_bit 32 w),
     ucast (drop_bit 24 w), ucast (drop_bit 16 w), ucast (drop_bit 8 w), ucast w]"
  by (simp_all add: be_enc_def upt_rec)

interpretation putc: stream_writer stream_putc "\<lambda>c. [c]"
  by unfold_locales (auto simp: stream_putc_def put_bytes_room stream_okD(9) stream_room_full)

interpretation putw: stream_writer stream_putw "be_enc 2"
  by unfold_locales (auto simp: stream_putw_def be_enc_simps put_bytes_room stream_okD(9) stream_room_full)

interpretation put3: stream_writer stream_put3 "be_enc 3"
  by unfold_locales (auto simp: stream_put3_def be_enc_simps put_bytes_room stream_okD(9) stream_room_full)

interpretation putl: stream_writer stream_putl "be_enc 4"
  by unfold_locales (auto simp: stream_putl_def be_enc_simps put_bytes_room stream_okD(9) stream_room_full)

interpretation putq: stream_writer stream_putq "be_enc 8"
  by unfold_locales (auto simp: stream_putq_def be_enc_simps put_bytes_room stream_okD(9) stream_room_full)

subsection \<open>Writing and reading back\<close>

locale stream_codec = stream_writer put enc + stream_reader get width dec
  for put :: "stream \<Rightarrow> 'a \<Rightarrow> (int \<times> stream) option" and enc and get and width and dec +
  fixes valid :: "'a \<Rightarrow> bool"
  assumes length_enc: "length (enc x) = width" and dec_enc: "valid x \<Longrightarrow> dec (enc x) = x"
begin

lemma get_enc:
  assumes "stream_ok s" "unread s = enc x @ rest" "valid x"
  obtains s' where "get s = Some (x, s')" "stream_ok s'" "unread s' = rest"
  using that[of "adv s width"] get_ok[OF assms(1,2) length_enc] adv_ok[OF assms(1), of width] assms(2,3) length_enc[of x]
  by (simp add: dec_enc)

end

lemma be_dec_enc_take:
  fixes w :: "'a::len word"
  assumes "8 * n \<le> LENGTH('a)" shows "be_dec (be_enc n w) = take_bit (8 * n) w"
proof (rule bit_word_eqI)
  fix i assume i: "i < LENGTH('a)"
  show "bit (be_dec (be_enc n w) :: 'a word) i = bit (take_bit (8 * n) w) i"
  proof (cases "i < 8 * n")
    case True
    then have "i div 8 < n" by (simp add: less_mult_imp_div_less mult.commute)
    then show ?thesis using True i by (simp add: bit_be_dec rev_be_enc bit_unsigned_iff bit_drop_bit_eq bit_take_bit_iff)
  qed (simp add: bit_be_dec bit_take_bit_iff)
qed

lemma take_bit_24: "(w :: u32) < 0x1000000 \<Longrightarrow> take_bit 24 w = w"
  by (simp add: take_bit_eq_mod mod_word_less)

interpretation codec_c: stream_codec stream_putc "\<lambda>c. [c]" stream_getc 1 hd "\<lambda>_. True"
  by unfold_locales simp_all

interpretation codec_w: stream_codec stream_putw "be_enc 2" stream_getw 2 be_dec "\<lambda>_. True"
  by unfold_locales (simp_all add: be_dec_enc)

interpretation codec_3: stream_codec stream_put3 "be_enc 3" stream_get3 3 be_dec "\<lambda>l. l < 0x1000000"
  by unfold_locales (simp_all add: be_dec_enc_take take_bit_24)

interpretation codec_l: stream_codec stream_putl "be_enc 4" stream_getl 4 be_dec "\<lambda>_. True"
  by unfold_locales (simp_all add: be_dec_enc)

interpretation codec_q: stream_codec stream_putq "be_enc 8" stream_getq 8 be_dec "\<lambda>_. True"
  by unfold_locales (simp_all add: be_dec_enc)

text \<open>A message: a sequence of integers of the five widths.\<close>

datatype field = FC u8 | FW u16 | F3 u32 | FL u32 | FQ u64

fun put_field :: "field \<Rightarrow> stream \<Rightarrow> (int \<times> stream) option" where
  "put_field (FC c) s = stream_putc s c"
| "put_field (FW w) s = stream_putw s w"
| "put_field (F3 l) s = stream_put3 s l"
| "put_field (FL l) s = stream_putl s l"
| "put_field (FQ q) s = stream_putq s q"

fun put_fields :: "field list \<Rightarrow> stream \<Rightarrow> stream option" where
  "put_fields [] s = Some s"
| "put_fields (f # fs) s = do { (r, s) \<leftarrow> put_field f s; put_fields fs s }"

text \<open>The reader knows the sequence of the widths, not the values.\<close>

fun get_field :: "field \<Rightarrow> stream \<Rightarrow> (field \<times> stream) option" where
  "get_field (FC _) s = do { (x, s) \<leftarrow> stream_getc s; Some (FC x, s) }"
| "get_field (FW _) s = do { (x, s) \<leftarrow> stream_getw s; Some (FW x, s) }"
| "get_field (F3 _) s = do { (x, s) \<leftarrow> stream_get3 s; Some (F3 x, s) }"
| "get_field (FL _) s = do { (x, s) \<leftarrow> stream_getl s; Some (FL x, s) }"
| "get_field (FQ _) s = do { (x, s) \<leftarrow> stream_getq s; Some (FQ x, s) }"

fun get_fields :: "field list \<Rightarrow> stream \<Rightarrow> (field list \<times> stream) option" where
  "get_fields [] s = Some ([], s)"
| "get_fields (f # fs) s =
     do { (x, s) \<leftarrow> get_field f s; (xs, s) \<leftarrow> get_fields fs s; Some (x # xs, s) }"

fun field_enc :: "field \<Rightarrow> u8 list" where
  "field_enc (FC c) = [c]"
| "field_enc (FW w) = be_enc 2 w"
| "field_enc (F3 l) = be_enc 3 l"
| "field_enc (FL l) = be_enc 4 l"
| "field_enc (FQ q) = be_enc 8 q"

fun field_ok :: "field \<Rightarrow> bool" where
  "field_ok (F3 l) = (l < 0x1000000)"
| "field_ok _ = True"

lemma field_enc_len: "length (field_enc f) \<le> 8" "0 < length (field_enc f)"
  by (cases f; simp)+

lemma put_field_ok:
  assumes s: "stream_ok s" and t: "can_take s (length (field_enc f))"
  obtains s' where "put_field f s = Some (int (length (field_enc f)), s')" "stream_ok s'" "contents s' = contents s @ field_enc f"
    "unread s' = unread s @ field_enc f" "getp s' = getp s" "allow_expansion s' = allow_expansion s"
    "unat (ssize s') \<le> unat (ssize s) + max 512 (length (field_enc f))" "room s - length (field_enc f) \<le> room s'"
proof (cases f)
  case (FC x)
  show ?thesis by (rule putc.put_ok[of s x]) (use s t FC that in auto)
next
  case (FW x)
  show ?thesis by (rule putw.put_ok[of s x]) (use s t FW that in auto)
next
  case (F3 x)
  show ?thesis by (rule put3.put_ok[of s x]) (use s t F3 that in auto)
next
  case (FL x)
  show ?thesis by (rule putl.put_ok[of s x]) (use s t FL that in auto)
next
  case (FQ x)
  show ?thesis by (rule putq.put_ok[of s x]) (use s t FQ that in auto)
qed

lemma get_field_ok:
  assumes s: "stream_ok s" "unread s = field_enc f @ rest" "field_ok f"
  obtains s' where "get_field f s = Some (f, s')" "stream_ok s'" "unread s' = rest"
proof (cases f)
  case (FC x)
  show ?thesis by (rule codec_c.get_enc[of s x]) (use s FC that in auto)
next
  case (FW x)
  show ?thesis by (rule codec_w.get_enc[of s x]) (use s FW that in auto)
next
  case (F3 x)
  show ?thesis by (rule codec_3.get_enc[of s x]) (use s F3 that in auto)
next
  case (FL x)
  show ?thesis by (rule codec_l.get_enc[of s x]) (use s FL that in auto)
next
  case (FQ x)
  show ?thesis by (rule codec_q.get_enc[of s x]) (use s FQ that in auto)
qed

text \<open>Room for a message: the bytes it takes, or for an expandable stream one expansion for each field.\<close>

definition can_take_all :: "stream \<Rightarrow> field list \<Rightarrow> bool" where
  "can_take_all s fs \<longleftrightarrow> length (concat (map field_enc fs)) \<le> room s \<or>
     allow_expansion s \<and> unat (ssize s) + 512 * length fs < 2 ^ 64"

lemma put_fields_ok:
  "stream_ok s \<Longrightarrow> can_take_all s fs \<Longrightarrow> \<exists>s'. put_fields fs s = Some s' \<and> stream_ok s' \<and>
     contents s' = contents s @ concat (map field_enc fs) \<and> unread s' = unread s @ concat (map field_enc fs)"
proof (induction fs arbitrary: s)
  case (Cons f fs)
  have "can_take s (length (field_enc f))"
    using Cons.prems(2) field_enc_len[of f] by (auto simp: can_take_all_def can_take_def)
  then obtain s1 where s1: "put_field f s = Some (int (length (field_enc f)), s1)" "stream_ok s1" "contents s1 = contents s @ field_enc f"
    "unread s1 = unread s @ field_enc f" "getp s1 = getp s" "allow_expansion s1 = allow_expansion s"
    "unat (ssize s1) \<le> unat (ssize s) + max 512 (length (field_enc f))" "room s - length (field_enc f) \<le> room s1"
    by (rule put_field_ok[OF Cons.prems(1)])
  have "unat (ssize s1) \<le> unat (ssize s) + 512" using s1(7) field_enc_len(1)[of f] by linarith
  then have "can_take_all s1 fs" using Cons.prems(2) s1(6,8) by (auto simp: can_take_all_def)
  from Cons.IH[OF s1(2) this] s1(1,3,4) show ?case by auto
qed simp

lemma get_fields_ok:
  "\<lbrakk>stream_ok s; unread s = concat (map field_enc fs) @ rest; list_all field_ok fs\<rbrakk> \<Longrightarrow>
     \<exists>s'. get_fields fs s = Some (fs, s') \<and> stream_ok s' \<and> unread s' = rest"
proof (induction fs arbitrary: s)
  case (Cons f fs)
  obtain s1 where s1: "get_field f s = Some (f, s1)" "stream_ok s1" "unread s1 = concat (map field_enc fs) @ rest"
    using get_field_ok[of s f "concat (map field_enc fs) @ rest"] Cons.prems by auto
  from Cons.IH[OF s1(2,3)] Cons.prems(3) s1(1) show ?case by auto
qed simp

subsection \<open>Blocks of bytes\<close>

lemma mem_read_unread:
  assumes "stream_ok s" "unat n \<le> length (unread s)"
  shows "mem_read (data s) (getp s) n = Some (take (unat n) (unread s))"
proof -
  note d = stream_okD[OF assms(1)]
  have "unat (getp s) + unat n \<le> unat (endp s)" using assms(2) d(1,6) by linarith
  then show ?thesis
    using d(4) by (simp add: mem_read_def unread_def contents_def drop_take min_def)
qed

lemma stream_get2_ok:
  assumes "stream_ok s"
  shows "stream_get2 s n = Some (if unat n \<le> length (unread s)
     then (Some (take (unat n) (unread s)), adv s (unat n)) else (None, s))"
  using readable_less[OF assms, of n] mem_read_unread[OF assms, of n]
  by (auto simp: stream_get2_def stream_okD(9)[OF assms] adv_def)

lemma mem_write_app:
  assumes "length bs \<le> room s" "stream_ok s"
  shows "mem_write (data s) (endp s) bs = Some (data (app s bs))"
  using assms stream_okD(4)[OF assms(2)] by (simp add: mem_write_def room_def app_def)

lemma put_bytes_ok:
  assumes s: "stream_ok s" "unat n \<le> room s" and src: "unat n \<le> length src"
  shows "put_bytes s src n = Some (app s (take (unat n) src))"
proof -
  have "length (take (unat n) src) = unat n" using src by simp
  moreover from this have "of_nat (length (take (unat n) src)) = n" by simp
  ultimately show ?thesis using mem_write_app[of "take (unat n) src" s] s src
    by (simp add: put_bytes_def mem_read_def) (simp add: app_def)
qed

lemma CHECK_SIZE_min:
  assumes "stream_ok s" "unat (endp s) + unat n < 2 ^ 64"
  shows "unat (CHECK_SIZE s n) = min (unat n) (room s)"
proof -
  have "unat (endp s + n) = unat (endp s) + unat n" using assms(2) by (simp add: unat_add_u64)
  then show ?thesis using stream_okD(2,3)[OF assms(1)] assms(1)
    by (auto simp: CHECK_SIZE_def word_less_nat_alt word_le_nat_alt stream_ok_def unat_sub room_def)
qed

text \<open>\<^verbatim>\<open>stream_write\<close> takes as much as fits, and never expands the stream.\<close>

lemma stream_write_ok:
  assumes s: "stream_ok s" "unat (endp s) + unat n < 2 ^ 64" "unat n \<le> length src"
  shows "stream_write s src n = Some (of_nat (min (unat n) (room s)), app s (take (min (unat n) (room s)) src))"
proof -
  let ?n = "CHECK_SIZE s n"
  have n: "unat ?n = min (unat n) (room s)" using CHECK_SIZE_min[OF s(1,2)] .
  then have "stream_room s ?n = Some s" using stream_room_enough[OF s(1)] by simp
  moreover have "put_bytes s src ?n = Some (app s (take (unat ?n) src))" using put_bytes_ok[OF s(1)] n s(3) by simp
  moreover have "?n = of_nat (min (unat n) (room s))" unfolding n[symmetric] by simp
  ultimately show ?thesis using s(1) n by (simp add: stream_write_def stream_okD(9))
qed

subsection \<open>Access at a position\<close>

definition overwrite :: "stream \<Rightarrow> nat \<Rightarrow> u8 list \<Rightarrow> stream" where
  "overwrite s i bs = s\<lparr>data := take i (data s) @ bs @ drop (i + length bs) (data s)\<rparr>"

lemma overwrite_simps [simp]:
  "getp (overwrite s i bs) = getp s" "endp (overwrite s i bs) = endp s" "ssize (overwrite s i bs) = ssize s"
  "allow_expansion (overwrite s i bs) = allow_expansion s" "overwrite s i [] = s"
  by (simp_all add: overwrite_def)

lemma overwrite_ok:
  assumes "stream_ok s" "i + length bs \<le> length (contents s)"
  shows "stream_ok (overwrite s i bs)"
    "contents (overwrite s i bs) = take i (contents s) @ bs @ drop (i + length bs) (contents s)"
proof -
  note d = stream_okD[OF assms(1)]
  have i: "i + length bs \<le> unat (endp s)" using assms(2) d(5) by simp
  show "stream_ok (overwrite s i bs)" using assms(1) i d(4) by (auto simp: stream_ok_def overwrite_def)
  show "contents (overwrite s i bs) = take i (contents s) @ bs @ drop (i + length bs) (contents s)"
  proof -
    have "i \<le> unat (endp s)" "length bs \<le> unat (endp s) - i" "min (unat (endp s)) i = i" "min i (unat (endp s)) = i"
      using i by linarith+
    then show ?thesis using d(4) by (simp add: contents_def overwrite_def drop_take)
  qed
qed

lemma put_byte_at_ok:
  assumes "stream_ok s" "unat i + length bs < length (contents s)"
  shows "put_byte_at (overwrite s (unat i) bs) (i + of_nat (length bs)) b = Some (overwrite s (unat i) (bs @ [b]))"
proof -
  note d = stream_okD[OF assms(1)]
  have lt: "unat i + length bs < length (data s)" using assms(2) d(4,5) by linarith
  have "unat i + length bs < 18446744073709551616" using assms(2) d(5) u64_bound[of "endp s"] by linarith
  then have u: "unat (i + of_nat (length bs)) = unat i + length bs" by (simp add: unat_add_u64 unat_of_nat_u64)
  have "(take (unat i) (data s) @ bs @ drop (unat i + length bs) (data s))[unat i + length bs := b] =
      take (unat i) (data s) @ bs @ b # drop (Suc (unat i + length bs)) (data s)"
  proof -
    have "drop (unat i + length bs) (data s) = data s ! (unat i + length bs) # drop (Suc (unat i + length bs)) (data s)"
      using lt by (simp add: Cons_nth_drop_Suc)
    then show ?thesis using lt by (simp add: list_update_append)
  qed
  then show ?thesis using lt by (simp add: put_byte_at_def mem_set_def u overwrite_def)
qed

lemmas put_byte_at_1 = put_byte_at_ok[where bs = "[]", simplified]
  and put_byte_at_2 = put_byte_at_ok[where bs = "[a]" for a, simplified]
  and put_byte_at_3 = put_byte_at_ok[where bs = "[a, b]" for a b, simplified]
  and put_byte_at_4 = put_byte_at_ok[where bs = "[a, b, c]" for a b c, simplified]
  and put_byte_at_5 = put_byte_at_ok[where bs = "[a, b, c, d]" for a b c d, simplified]
  and put_byte_at_6 = put_byte_at_ok[where bs = "[a, b, c, d, e]" for a b c d e, simplified]
  and put_byte_at_7 = put_byte_at_ok[where bs = "[a, b, c, d, e, f]" for a b c d e f, simplified]
  and put_byte_at_8 = put_byte_at_ok[where bs = "[a, b, c, d, e, f, g]" for a b c d e f g, simplified]

lemmas put_bytes_at = put_byte_at_1 put_byte_at_2 put_byte_at_3 put_byte_at_4 put_byte_at_5 put_byte_at_6
  put_byte_at_7 put_byte_at_8

lemma mem_get_contents:
  assumes "stream_ok s" "unat i + k < length (contents s)"
  shows "mem_get (data s) (i + of_nat k) = Some (contents s ! (unat i + k))"
proof -
  note d = stream_okD[OF assms(1)]
  have "unat i + k < 18446744073709551616" using assms(2) d(5) u64_bound[of "endp s"] by linarith
  then have "unat (i + of_nat k) = unat i + k" by (simp add: unat_add_u64 unat_of_nat_u64)
  then show ?thesis using assms(2) d(4,5) by (simp add: mem_get_def contents_def)
qed

lemmas mem_gets = mem_get_contents[where k = 0, simplified] mem_get_contents[where k = 1, simplified]
  mem_get_contents[where k = 2, simplified] mem_get_contents[where k = 3, simplified]
  mem_get_contents[where k = 4, simplified] mem_get_contents[where k = 5, simplified]
  mem_get_contents[where k = 6, simplified] mem_get_contents[where k = 7, simplified]

lemma at_valid:
  assumes "stream_ok s" "unat i + unat n < 2 ^ 64"
  shows "i + n \<le> endp s \<longleftrightarrow> unat i + unat n \<le> length (contents s)"
  using assms stream_okD(5)[OF assms(1)] by (simp add: word_le_nat_alt unat_add_u64)

lemma at_valid':
  assumes "stream_ok s" "unat i + unat n \<le> length (contents s)"
  shows "i + n \<le> endp s"
  using at_valid[OF assms(1), of i n] assms(2) stream_okD(5)[OF assms(1)] u64_bound[of "endp s"] by simp

lemma take_drop_nths:
  "i + 1 \<le> length xs \<Longrightarrow> take 1 (drop i xs) = [xs ! i]"
  "i + 2 \<le> length xs \<Longrightarrow> take 2 (drop i xs) = [xs ! i, xs ! (i + 1)]"
  "i + 3 \<le> length xs \<Longrightarrow> take 3 (drop i xs) = [xs ! i, xs ! (i + 1), xs ! (i + 2)]"
  "i + 4 \<le> length xs \<Longrightarrow> take 4 (drop i xs) = [xs ! i, xs ! (i + 1), xs ! (i + 2), xs ! (i + 3)]"
  "i + 8 \<le> length xs \<Longrightarrow> take 8 (drop i xs) = [xs ! i, xs ! (i + 1), xs ! (i + 2), xs ! (i + 3), xs ! (i + 4),
     xs ! (i + 5), xs ! (i + 6), xs ! (i + 7)]"
  by (auto simp: list_eq_iff_nth_eq less_Suc_eq numeral_eq_Suc nth_Cons')

locale stream_patch =
  fixes put_at :: "stream \<Rightarrow> u64 \<Rightarrow> 'a \<Rightarrow> (int \<times> stream) option" and get_from :: "stream \<Rightarrow> u64 \<Rightarrow> 'a option"
    and enc :: "'a \<Rightarrow> u8 list" and width :: nat and dec :: "u8 list \<Rightarrow> 'a" and valid :: "'a \<Rightarrow> bool"
  assumes put_at_ok: "\<lbrakk>stream_ok s; unat i + width \<le> length (contents s)\<rbrakk> \<Longrightarrow>
      put_at s i x = Some (int width, overwrite s (unat i) (enc x))"
    and get_from_ok: "\<lbrakk>stream_ok s; unat i + width \<le> length (contents s)\<rbrakk> \<Longrightarrow>
      get_from s i = Some (dec (take width (drop (unat i) (contents s))))"
    and beyond: "\<lbrakk>stream_ok s; length (contents s) < unat i + width; unat i + width < 2 ^ 64\<rbrakk> \<Longrightarrow>
      put_at s i x = None \<and> get_from s i = None"
    and length_enc: "length (enc x) = width" and dec_enc: "valid x \<Longrightarrow> dec (enc x) = x"
begin

lemma patched:
  assumes s: "stream_ok s" "unat i + width \<le> length (contents s)"
  obtains s' where "put_at s i x = Some (int width, s')" "stream_ok s'" "getp s' = getp s" "endp s' = endp s"
    "contents s' = take (unat i) (contents s) @ enc x @ drop (unat i + width) (contents s)"
    "valid x \<Longrightarrow> get_from s' i = Some x"
proof -
  let ?s = "overwrite s (unat i) (enc x)"
  note o = overwrite_ok[OF s(1), of "unat i" "enc x"]
  have ok: "stream_ok ?s" "contents ?s = take (unat i) (contents s) @ enc x @ drop (unat i + width) (contents s)"
    using o s(2) by (simp_all add: length_enc)
  moreover have "length (contents ?s) = length (contents s)" using ok(2) s(2) by (simp add: length_enc)
  moreover have "take width (drop (unat i) (contents ?s)) = enc x" using s(2) by (simp add: ok(2) length_enc)
  ultimately show ?thesis
    using that[of ?s] put_at_ok[OF s] get_from_ok[of ?s i] s(2) dec_enc by simp
qed

end

interpretation at_c: stream_patch stream_putc_at stream_getc_from "\<lambda>c. [c]" 1 hd "\<lambda>_. True"
proof
  fix s i x assume s: "stream_ok s" "unat (i :: u64) + 1 \<le> length (contents s)"
  note v = at_valid'[OF s(1), of i 1] and sane = stream_okD(9)[OF s(1)]
  show "stream_putc_at s i x = Some (int 1, overwrite s (unat i) ([x]))"
    using s v by (simp add: stream_putc_at_def sane put_bytes_at be_enc_simps)
  show "stream_getc_from s i = Some (hd (take 1 (drop (unat i) (contents s))))"
    using s v by (simp add: stream_getc_from_def sane mem_gets take_drop_nths hd_drop_conv_nth)
next
  fix s i x assume "stream_ok s" "length (contents s) < unat (i :: u64) + 1" "unat i + 1 < 2 ^ 64"
  then show "stream_putc_at s i x = None \<and> stream_getc_from s i = None"
    using at_valid[of s i 1] by (simp add: stream_putc_at_def stream_getc_from_def)
qed (simp_all add: be_dec_enc be_dec_enc_take take_bit_24)

interpretation at_w: stream_patch stream_putw_at stream_getw_from "be_enc 2" 2 be_dec "\<lambda>_. True"
proof
  fix s i x assume s: "stream_ok s" "unat (i :: u64) + 2 \<le> length (contents s)"
  note v = at_valid'[OF s(1), of i 2] and sane = stream_okD(9)[OF s(1)]
  show "stream_putw_at s i x = Some (int 2, overwrite s (unat i) (be_enc 2 x))"
    using s v by (simp add: stream_putw_at_def sane put_bytes_at be_enc_simps)
  show "stream_getw_from s i = Some (be_dec (take 2 (drop (unat i) (contents s))))"
    using s v by (simp add: stream_getw_from_def sane mem_gets take_drop_nths be_dec_2)
next
  fix s i x assume "stream_ok s" "length (contents s) < unat (i :: u64) + 2" "unat i + 2 < 2 ^ 64"
  then show "stream_putw_at s i x = None \<and> stream_getw_from s i = None"
    using at_valid[of s i 2] by (simp add: stream_putw_at_def stream_getw_from_def)
qed (simp_all add: be_dec_enc be_dec_enc_take take_bit_24)

interpretation at_3: stream_patch stream_put3_at stream_get3_from "be_enc 3" 3 be_dec "\<lambda>l. l < 0x1000000"
proof
  fix s i x assume s: "stream_ok s" "unat (i :: u64) + 3 \<le> length (contents s)"
  note v = at_valid'[OF s(1), of i 3] and sane = stream_okD(9)[OF s(1)]
  show "stream_put3_at s i x = Some (int 3, overwrite s (unat i) (be_enc 3 x))"
    using s v by (simp add: stream_put3_at_def sane put_bytes_at be_enc_simps)
  show "stream_get3_from s i = Some (be_dec (take 3 (drop (unat i) (contents s))))"
    using s v by (simp add: stream_get3_from_def sane mem_gets take_drop_nths be_dec_3)
next
  fix s i x assume "stream_ok s" "length (contents s) < unat (i :: u64) + 3" "unat i + 3 < 2 ^ 64"
  then show "stream_put3_at s i x = None \<and> stream_get3_from s i = None"
    using at_valid[of s i 3] by (simp add: stream_put3_at_def stream_get3_from_def)
qed (simp_all add: be_dec_enc be_dec_enc_take take_bit_24)

interpretation at_l: stream_patch stream_putl_at stream_getl_from "be_enc 4" 4 be_dec "\<lambda>_. True"
proof
  fix s i x assume s: "stream_ok s" "unat (i :: u64) + 4 \<le> length (contents s)"
  note v = at_valid'[OF s(1), of i 4] and sane = stream_okD(9)[OF s(1)]
  show "stream_putl_at s i x = Some (int 4, overwrite s (unat i) (be_enc 4 x))"
    using s v by (simp add: stream_putl_at_def sane put_bytes_at be_enc_simps)
  show "stream_getl_from s i = Some (be_dec (take 4 (drop (unat i) (contents s))))"
    using s v by (simp add: stream_getl_from_def sane mem_gets take_drop_nths be_dec_4)
next
  fix s i x assume "stream_ok s" "length (contents s) < unat (i :: u64) + 4" "unat i + 4 < 2 ^ 64"
  then show "stream_putl_at s i x = None \<and> stream_getl_from s i = None"
    using at_valid[of s i 4] by (simp add: stream_putl_at_def stream_getl_from_def)
qed (simp_all add: be_dec_enc be_dec_enc_take take_bit_24)

interpretation at_q: stream_patch stream_putq_at stream_getq_from "be_enc 8" 8 be_dec "\<lambda>_. True"
proof
  fix s i x assume s: "stream_ok s" "unat (i :: u64) + 8 \<le> length (contents s)"
  note v = at_valid'[OF s(1), of i 8] and sane = stream_okD(9)[OF s(1)]
  show "stream_putq_at s i x = Some (int 8, overwrite s (unat i) (be_enc 8 x))"
    using s v by (simp add: stream_putq_at_def sane put_bytes_at be_enc_simps)
  show "stream_getq_from s i = Some (be_dec (take 8 (drop (unat i) (contents s))))"
    using s v by (simp add: stream_getq_from_def sane mem_gets take_drop_nths be_dec_8)
next
  fix s i x assume "stream_ok s" "length (contents s) < unat (i :: u64) + 8" "unat i + 8 < 2 ^ 64"
  then show "stream_putq_at s i x = None \<and> stream_getq_from s i = None"
    using at_valid[of s i 8] by (simp add: stream_putq_at_def stream_getq_from_def)
qed (simp_all add: be_dec_enc be_dec_enc_take take_bit_24)

subsection \<open>Copies\<close>

lemma stream_new_ok:
  assumes "0 < n" obtains s where "stream_new n = Some s" "stream_ok s" "contents s = []" "unread s = []" "room s = unat n"
    "\<not> allow_expansion s" "ssize s = n"
proof -
  have n: "0 < unat n" using assms by (simp add: word_less_nat_alt)
  show ?thesis
    by (rule that[of "\<lparr>getp = 0, endp = 0, ssize = n, allow_expansion = False, data = replicate (unat n) 0\<rparr>"])
       (use assms n in \<open>simp_all add: stream_new_def stream_ok_def contents_def unread_def room_def\<close>)
qed

lemma mem_read_contents:
  assumes "stream_ok s" "unat i + unat n \<le> length (contents s)"
  shows "mem_read (data s) i n = Some (take (unat n) (drop (unat i) (contents s)))"
  using assms stream_okD(4,5)[OF assms(1)] by (simp add: mem_read_def contents_def drop_take min_def)

lemma stream_copy_ok:
  assumes d: "stream_ok dest" and s: "stream_ok src" and fit: "endp src \<le> ssize dest"
  obtains s' where "stream_copy dest src = Some s'" "stream_ok s'" "contents s' = contents src" "unread s' = unread src"
    "ssize s' = ssize dest" "allow_expansion s' = allow_expansion src" "getp s' = getp src" "endp s' = endp src"
proof -
  note ds = stream_okD[OF s] and dd = stream_okD[OF d]
  have f: "unat (endp src) \<le> length (data dest)" using fit dd(3) by (simp add: word_le_nat_alt)
  have r: "mem_read (data src) 0 (endp src) = Some (contents src)"
    using mem_read_contents[OF s, of 0 "endp src"] ds(5) by simp
  let ?d = "contents src @ drop (unat (endp src)) (data dest)"
  have w: "mem_write (data dest) 0 (contents src) = Some ?d" using f ds(5) by (simp add: mem_write_def)
  let ?s = "dest\<lparr>allow_expansion := allow_expansion src, endp := endp src, getp := getp src, data := ?d\<rparr>"
  have "stream_copy dest src = Some ?s" using r w fit by (simp add: stream_copy_def ds(9))
  moreover have c: "contents ?s = contents src" using ds(5) by (simp add: contents_def[of ?s])
  moreover have "unread ?s = unread src" using c by (simp add: unread_def)
  moreover have "stream_ok ?s" using f fit s dd(3) ds(5) by (simp add: stream_ok_def)
  ultimately show ?thesis using that by simp
qed

text \<open>\<^verbatim>\<open>stream_dup\<close> of a stream nothing was written to aborts: \<^verbatim>\<open>stream_new\<close> refuses the size 0.\<close>

lemma stream_dup_ok:
  assumes s: "stream_ok s"
  shows "contents s = [] \<Longrightarrow> stream_dup s = None"
    "contents s \<noteq> [] \<Longrightarrow> \<exists>s'. stream_dup s = Some s' \<and> stream_ok s' \<and> contents s' = contents s \<and> unread s' = unread s \<and>
       allow_expansion s' = allow_expansion s \<and> ssize s' = endp s"
proof -
  have e: "endp s = 0 \<longleftrightarrow> contents s = []" using stream_okD(5)[OF s] by (metis length_0_conv unat_eq_zero)
  show "contents s = [] \<Longrightarrow> stream_dup s = None"
    using e by (simp add: stream_dup_def stream_new_def stream_okD(9)[OF s])
  assume "contents s \<noteq> []"
  then have "0 < endp s" using e by (simp add: word_neq_0_conv)
  then obtain n where n: "stream_new (endp s) = Some n" "stream_ok n" "ssize n = endp s" by (metis stream_new_ok)
  let ?n = "n\<lparr>allow_expansion := allow_expansion s\<rparr>"
  have "stream_ok ?n" using n(2) by (simp add: stream_ok_def)
  then obtain s' where "stream_copy ?n s = Some s'" "stream_ok s'" "contents s' = contents s" "unread s' = unread s"
    "ssize s' = ssize ?n" "allow_expansion s' = allow_expansion s"
    by (rule stream_copy_ok[OF _ s]) (use n(3) in auto)
  then show "\<exists>s'. stream_dup s = Some s' \<and> stream_ok s' \<and> contents s' = contents s \<and> unread s' = unread s \<and>
       allow_expansion s' = allow_expansion s \<and> ssize s' = endp s"
    using n by (auto simp: stream_dup_def stream_okD(9)[OF s])
qed

lemma stream_dupcat_ok:
  assumes s: "stream_ok s1" "stream_ok s2" and off: "unat off \<le> length (contents s1)"
    and pos: "contents s1 @ contents s2 \<noteq> []" and lim: "length (contents s1) + length (contents s2) < 2 ^ 64"
  shows "\<exists>s'. stream_dupcat s1 s2 off = Some (Some s') \<and> stream_ok s' \<and> getp s' = 0 \<and>
     contents s' = take (unat off) (contents s1) @ contents s2 @ drop (unat off) (contents s1)"
proof -
  let ?c1 = "contents s1" and ?c2 = "contents s2" and ?k = "unat off"
  have l: "length ?c1 = unat (endp s1)" "length ?c2 = unat (endp s2)" using stream_okD(5) s by auto
  have sum: "unat (endp s1 + endp s2) = unat (endp s1) + unat (endp s2)" using lim l by (simp add: unat_add_u64)
  have "0 < endp s1 + endp s2"
    using pos sum l by (metis append_is_Nil_conv add_is_0 length_0_conv unat_0 word_neq_0_conv)
  then obtain n where n: "stream_new (endp s1 + endp s2) = Some n" "stream_ok n" "ssize n = endp s1 + endp s2"
    "room n = unat (endp s1 + endp s2)" "contents n = []" by (metis stream_new_ok)
  have dn: "length (data n) = length ?c1 + length ?c2" using stream_okD(3)[OF n(2)] n(3) sum l by simp
  have o1: "off \<le> endp s1" using off l by (simp add: word_le_nat_alt)
  have o2: "unat (endp s1 - off) = length ?c1 - ?k" using o1 l by (simp add: unat_sub)
  have o3: "unat (off + endp s2) = ?k + length ?c2" using off lim l by (simp add: unat_add_u64)
  have r1: "mem_read (data s1) 0 off = Some (take ?k ?c1)" using mem_read_contents[OF s(1), of 0 off] off by simp
  have r2: "mem_read (data s2) 0 (endp s2) = Some ?c2" using mem_read_contents[OF s(2), of 0 "endp s2"] l by simp
  have r3: "mem_read (data s1) off (endp s1 - off) = Some (drop ?k ?c1)"
    using mem_read_contents[OF s(1), of off "endp s1 - off"] off o2 by simp
  define d1 where "d1 = take ?k ?c1 @ drop ?k (data n)"
  define d2 where "d2 = take ?k ?c1 @ ?c2 @ drop (?k + length ?c2) (data n)"
  define d3 where "d3 = take ?k ?c1 @ ?c2 @ drop ?k ?c1"
  have w1: "mem_write (data n) 0 (take ?k ?c1) = Some d1" using dn off by (simp add: mem_write_def d1_def min_def)
  have w2: "mem_write d1 off ?c2 = Some d2" using dn off by (simp add: mem_write_def d1_def d2_def min_def add.commute)
  have w3: "mem_write d2 (off + endp s2) (drop ?k ?c1) = Some d3"
    using dn off by (simp add: mem_write_def d2_def d3_def o3 min_def) linarith
  let ?s = "n\<lparr>allow_expansion := allow_expansion s1 \<or> allow_expansion s2, endp := endp s1 + endp s2, data := d3\<rparr>"
  have g: "getp n = 0" using n(1) by (auto simp: stream_new_def split: if_splits)
  have ld3: "length d3 = unat (endp s1 + endp s2)" using off sum l by (simp add: d3_def)
  have "stream_dupcat s1 s2 off = Some (Some ?s)"
    using n(1) r1 r2 r3 w1 w2 w3 o1 by (simp add: stream_dupcat_def stream_okD(9) s)
  moreover have "stream_ok ?s" using g n(3) ld3 by (simp add: stream_ok_def)
  moreover have "contents ?s = d3" using ld3 by (simp add: contents_def)
  ultimately show ?thesis using g by (auto simp: d3_def)
qed

lemma stream_pulldown_ok:
  assumes s: "stream_ok s"
  shows "\<exists>s'. stream_pulldown s = Some s' \<and> stream_ok s' \<and> getp s' = 0 \<and> contents s' = unread s \<and>
     ssize s' = ssize s \<and> allow_expansion s' = allow_expansion s"
proof (cases "unread s = []")
  case True
  then show ?thesis using readable_0[OF s] s
    by (simp add: stream_pulldown_def stream_reset_def stream_okD(9) stream_ok_def contents_def Let_def)
next
  case False
  note d = stream_okD[OF s]
  let ?n = "STREAM_READABLE s"
  have r: "mem_read (data s) (getp s) ?n = Some (unread s)" using mem_read_unread[OF s, of ?n] d(7) by simp
  have le: "length (unread s) \<le> length (data s)" using d(4,6) by linarith
  let ?d = "unread s @ drop (length (unread s)) (data s)"
  have w: "mem_write (data s) 0 (unread s) = Some ?d" using le by (simp add: mem_write_def)
  let ?s = "s\<lparr>data := ?d, getp := 0, endp := ?n\<rparr>"
  have "stream_pulldown s = Some ?s" using r w False readable_0[OF s] by (simp add: stream_pulldown_def Let_def)
  moreover have "stream_ok ?s" using le d(2,3,6,7) by (auto simp: stream_ok_def word_le_nat_alt)
  moreover have "contents ?s = unread s" using d(7) by (simp add: contents_def)
  ultimately show ?thesis by simp
qed

subsection \<open>Addresses and prefixes\<close>

lemma stream_put_in_addr_ok:
  assumes s: "stream_ok s" "can_take s 4" and a: "4 \<le> length addr"
  obtains s' where "stream_put_in_addr s addr = Some (4, s')" "stream_ok s'" "contents s' = contents s @ take 4 addr"
    "unread s' = unread s @ take 4 addr"
proof -
  obtain s1 where s1: "stream_room s 4 = Some s1" "grown s s1" "4 \<le> room s1" using stream_room_ok[of s 4] s by auto
  have g: "stream_ok s1" "contents s1 = contents s" "unread s1 = unread s" using s1(2) by (auto simp: grown_def unread_def)
  have "put_bytes s1 addr 4 = Some (app s1 (take 4 addr))" using put_bytes_ok[of s1 4 addr] g s1(3) a by simp
  then show ?thesis
    using that[of "app s1 (take 4 addr)"] s1(1) app_ok[of s1 "take 4 addr"] g s1(3) a
    by (simp add: stream_put_in_addr_def stream_okD(9)[OF s(1)])
qed

lemma stream_get_ipv4_ok:
  "stream_ok s \<Longrightarrow> 4 \<le> length (unread s) \<Longrightarrow> stream_get_ipv4 s = Some (take 4 (unread s), adv s 4)"
  using readable_less[of s 4] mem_read_unread[of s 4] by (simp add: stream_get_ipv4_def stream_okD(9) adv_def)

lemma stream_put_prefix_ok:
  assumes s: "stream_ok s" "can_take s (PSIZE (prefixlen p) + 1)" and p: "PSIZE (prefixlen p) \<le> length (u_val p)" "length (u_val p) = 16"
  obtains s' where "stream_put_prefix s p = Some (int (PSIZE (prefixlen p)), s')" "stream_ok s'"
    "unread s' = unread s @ of_nat (prefixlen p) # take (PSIZE (prefixlen p)) (u_val p)"
proof -
  let ?k = "PSIZE (prefixlen p)" and ?n = "of_nat (PSIZE (prefixlen p)) :: u64"
  have k: "unat ?n = ?k" "unat (?n + 1) = ?k + 1" using p by (simp_all add: unat_of_nat_u64 unat_add_u64)
  obtain s1 where s1: "stream_room s (?n + 1) = Some s1" "grown s s1" "?k + 1 \<le> room s1"
    using stream_room_ok[of s "?n + 1"] s k by auto
  have g: "stream_ok s1" "unread s1 = unread s" using s1(2) by (auto simp: grown_def unread_def)
  let ?b = "[of_nat (prefixlen p)] :: u8 list"
  have b: "put_byte s1 (of_nat (prefixlen p)) = Some (app s1 ?b)" using put_byte_ok[OF g(1)] s1(3) by simp
  note a1 = app_ok[OF g(1), of ?b]
  have "put_bytes (app s1 ?b) (u_val p) ?n = Some (app (app s1 ?b) (take ?k (u_val p)))"
    using put_bytes_ok[of "app s1 ?b" ?n] a1 s1(3) k p by simp
  then show ?thesis
    using that[of "app (app s1 ?b) (take ?k (u_val p))"] s1(1,3) b a1 g k p app_ok[of "app s1 ?b" "take ?k (u_val p)"]
    by (simp add: stream_put_prefix_def stream_okD(9)[OF s(1)])
qed

text \<open>An address round trip. A type that is neither of the three is read as an address of no bytes.\<close>

lemma stream_put_ipaddr_ok:
  assumes s: "stream_ok s" "18 \<le> room s" and t: "ipa_type ipa = IPADDR_V4 \<or> ipa_type ipa = IPADDR_V6" and l: "length (ip ipa) = 16"
  obtains s' where "stream_put_ipaddr s ipa = Some (True, s')" "stream_ok s'"
    "unread s' = unread s @ be_enc 2 (ipa_type ipa) @ take (if ipa_type ipa = IPADDR_V4 then 4 else 16) (ip ipa)"
proof -
  let ?s = "app s (be_enc 2 (ipa_type ipa))"
  have w: "stream_putw s (ipa_type ipa) = Some (2, ?s)" using putw.put_room[OF s(1)] s(2) by simp
  note a = app_ok[OF s(1), of "be_enc 2 (ipa_type ipa)"]
  have ok: "stream_ok ?s" "unread ?s = unread s @ be_enc 2 (ipa_type ipa)" "16 \<le> room ?s" using a s(2) by simp_all
  show ?thesis
  proof (cases "ipa_type ipa = IPADDR_V4")
    case True
    obtain s2 where "stream_put_in_addr ?s (ip ipa) = Some (4, s2)" "stream_ok s2" "unread s2 = unread ?s @ take 4 (ip ipa)"
      using stream_put_in_addr_ok[OF ok(1), of "ip ipa"] ok(3) l by (auto simp: can_take_def)
    then show ?thesis using that[of s2] w ok(2) True by (simp add: stream_put_ipaddr_def)
  next
    case False
    have e: "unat (endp ?s) + 16 < 2 ^ 64" using ok(3) stream_okD(3)[OF ok(1)] u64_bound[of "ssize ?s"] by (simp add: room_def)
    have "stream_write ?s (ip ipa) 16 = Some (16, app ?s (ip ipa))"
      using stream_write_ok[OF ok(1), of 16 "ip ipa"] e l ok(3) by simp
    then show ?thesis using that[of "app ?s (ip ipa)"] w ok False t app_ok[OF ok(1), of "ip ipa"] l
      by (simp add: stream_put_ipaddr_def)
  qed
qed

lemma stream_get_ipaddr_ok:
  assumes s: "stream_ok s" "unread s = be_enc 2 t @ bs @ rest" and t: "t \<noteq> IPADDR_NONE" and l: "length (ip ipa) = 16"
    and bs: "length bs = (if t = IPADDR_V4 then 4 else if t = IPADDR_V6 then 16 else 0)"
  shows "stream_get_ipaddr s ipa = Some (True, ipa\<lparr>ipa_type := t, ip := bs @ drop (length bs) (ip ipa)\<rparr>, adv s (2 + length bs))"
proof -
  have w: "stream_getw s = Some (t, adv s 2)" using getw.get_ok[OF s(1,2)] by (simp add: be_dec_enc)
  let ?n = "if t = IPADDR_V4 then 4 else if t = IPADDR_V6 then 16 else 0 :: u64"
  have n: "unat ?n = length bs" using bs by simp
  have a: "stream_ok (adv s 2)" "unread (adv s 2) = bs @ rest" using adv_ok[OF s(1), of 2] s(2) by simp_all
  have m: "mem_read (data (adv s 2)) (getp (adv s 2)) ?n = Some bs" using mem_read_unread[OF a(1), of ?n] n a(2) by simp
  have d: "mem_write (ip ipa) 0 bs = Some (bs @ drop (length bs) (ip ipa))" using l bs by (simp add: mem_write_def)
  have r: "\<not> STREAM_READABLE (adv s 2) < ?n" "\<not> STREAM_READABLE s < 2"
    using readable_less[OF a(1), of ?n] readable_less[OF s(1), of 2] n a(2) s(2) by simp_all
  have p: "(adv s 2)\<lparr>getp := getp (adv s 2) + ?n\<rparr> = adv s (2 + length bs)"
    unfolding n[symmetric] by (simp add: adv_def add.assoc)
  show ?thesis
    unfolding stream_get_ipaddr_def using w m d r t stream_okD(9)[OF s(1)] p by (simp add: Let_def)
qed

subsection \<open>Every operation keeps a stream well-formed\<close>

text \<open>
  One step of a client. The writes are those the process has the memory for; the position arguments
  of \<^verbatim>\<open>stream_forward_endp\<close> and of the block writes do not wrap around when added to the end position.
\<close>

inductive stream_step :: "stream \<Rightarrow> stream \<Rightarrow> bool" where
  put_field: "can_take s (length (field_enc f)) \<Longrightarrow> put_field f s = Some (r, s') \<Longrightarrow> stream_step s s'"
| put_block: "unat (endp s) + unat n < 2 ^ 64 \<Longrightarrow> stream_put s src n = Some s' \<Longrightarrow> stream_step s s'"
| write_block: "unat (endp s) + unat n < 2 ^ 64 \<Longrightarrow> stream_write s ptr n = Some (m, s') \<Longrightarrow> stream_step s s'"
| put_in_addr: "can_take s 4 \<Longrightarrow> stream_put_in_addr s addr = Some (r, s') \<Longrightarrow> stream_step s s'"
| put_ipv4: "can_take s 4 \<Longrightarrow> stream_put_ipv4 s l = Some (r, s') \<Longrightarrow> stream_step s s'"
| put_in_addr_at: "stream_put_in_addr_at s i addr = Some (r, s') \<Longrightarrow> stream_step s s'"
| put_in6_addr_at: "stream_put_in6_addr_at s i addr = Some (r, s') \<Longrightarrow> stream_step s s'"
| putc_at: "stream_putc_at s i c = Some (r, s') \<Longrightarrow> stream_step s s'"
| putw_at: "stream_putw_at s i w = Some (r, s') \<Longrightarrow> stream_step s s'"
| put3_at: "stream_put3_at s i l = Some (r, s') \<Longrightarrow> stream_step s s'"
| putl_at: "stream_putl_at s i l = Some (r, s') \<Longrightarrow> stream_step s s'"
| putq_at: "stream_putq_at s i q = Some (r, s') \<Longrightarrow> stream_step s s'"
| get_field: "get_field f s = Some (x, s') \<Longrightarrow> stream_step s s'"
| getc2: "stream_getc2 s = Some (o1, s') \<Longrightarrow> stream_step s s'"
| getw2: "stream_getw2 s = Some (o2, s') \<Longrightarrow> stream_step s s'"
| getl2: "stream_getl2 s = Some (o4, s') \<Longrightarrow> stream_step s s'"
| getq2: "stream_getq2 s = Some (o8, s') \<Longrightarrow> stream_step s s'"
| get2: "stream_get2 s n = Some (bso, s') \<Longrightarrow> stream_step s s'"
| get_block: "stream_get s n = Some (bs, s') \<Longrightarrow> stream_step s s'"
| get_ipv4: "stream_get_ipv4 s = Some (bs, s') \<Longrightarrow> stream_step s s'"
| set_getp: "stream_set_getp s pos = Some s' \<Longrightarrow> stream_step s s'"
| set_endp: "stream_set_endp s pos = Some s' \<Longrightarrow> stream_step s s'"
| forward_getp: "unat (getp s) + unat n < 2 ^ 64 \<Longrightarrow> stream_forward_getp2 s n = Some (b, s') \<Longrightarrow> stream_step s s'"
| rewind_getp: "stream_rewind_getp2 s n = Some (b, s') \<Longrightarrow> stream_step s s'"
| forward_endp: "unat (endp s) + unat n < 2 ^ 64 \<Longrightarrow> stream_forward_endp2 s n = Some (b, s') \<Longrightarrow> stream_step s s'"
| resize: "stream_resize_inplace s n = Some (m, s') \<Longrightarrow> stream_step s s'"
| reset: "stream_reset s = Some s' \<Longrightarrow> stream_step s s'"
| pulldown: "stream_pulldown s = Some s' \<Longrightarrow> stream_step s s'"
| read_fd: "(\<And>k. 0 < fst (readn k) \<Longrightarrow> length (snd (readn k)) = nat (fst (readn k)) \<and> nat (fst (readn k)) \<le> unat k) \<Longrightarrow>
    stream_read s readn n = Some (r, s') \<Longrightarrow> stream_step s s'"

inductive_cases stream_stepE: "stream_step s s'"

lemma patch_ok: "stream_ok s \<Longrightarrow> length d = length (data s) \<Longrightarrow> stream_ok (s\<lparr>data := d\<rparr>)"
  by (simp add: stream_ok_def)

lemma put_at_keeps:
  "put_byte_at s i b = Some s' \<Longrightarrow> stream_ok s \<Longrightarrow> stream_ok s'"
  "put_bytes_at s i src n = Some s' \<Longrightarrow> stream_ok s \<Longrightarrow> stream_ok s'"
  by (auto simp: put_byte_at_def put_bytes_at_def mem_set_def mem_write_def stream_ok_def split: bind_splits if_splits)

lemma patches_keep:
  assumes s: "stream_ok s"
  shows "stream_putc_at s i c = Some (r, s') \<Longrightarrow> stream_ok s'"
    "stream_putw_at s i w = Some (r, s') \<Longrightarrow> stream_ok s'"
    "stream_put3_at s i l = Some (r, s') \<Longrightarrow> stream_ok s'"
    "stream_putl_at s i l = Some (r, s') \<Longrightarrow> stream_ok s'"
    "stream_putq_at s i q = Some (r, s') \<Longrightarrow> stream_ok s'"
    "stream_put_in_addr_at s i a = Some (r, s') \<Longrightarrow> stream_ok s'"
    "stream_put_in6_addr_at s i a = Some (r, s') \<Longrightarrow> stream_ok s'"
  using s
  by (auto simp: stream_putc_at_def stream_putw_at_def stream_put3_at_def stream_putl_at_def stream_putq_at_def
      stream_put_in_addr_at_def stream_put_in6_addr_at_def split: bind_splits if_splits)
     (meson put_at_keeps)+

lemma get_field_keeps:
  assumes "stream_ok s" "get_field f s = Some (x, s')" shows "stream_ok s'"
  using assms by (cases f) (auto dest: getc.get_keeps getw.get_keeps get3.get_keeps getl.get_keeps getq.get_keeps split: bind_splits)

lemma reports_keep:
  assumes s: "stream_ok s"
  shows "stream_getc2 s = Some (o1, s') \<Longrightarrow> stream_ok s'" "stream_getw2 s = Some (o2, s') \<Longrightarrow> stream_ok s'"
    "stream_getl2 s = Some (o4, s') \<Longrightarrow> stream_ok s'" "stream_getq2 s = Some (o8, s') \<Longrightarrow> stream_ok s'"
  unfolding get2_report[OF s] report_def
  using s by (auto dest: getc.get_keeps getw.get_keeps getl.get_keeps getq.get_keeps split: option.splits)

lemma blocks_keep:
  assumes s: "stream_ok s"
  shows "stream_get2 s n = Some (bso, s') \<Longrightarrow> stream_ok s'" "stream_get s n = Some (bs, s') \<Longrightarrow> stream_ok s'"
    "stream_get_ipv4 s = Some (bs, s') \<Longrightarrow> stream_ok s'"
proof -
  show "stream_get2 s n = Some (bso, s') \<Longrightarrow> stream_ok s'"
    unfolding stream_get2_ok[OF s] using adv_ok(1)[OF s, of "unat n"] s by (auto split: if_splits)
  show "stream_get s n = Some (bs, s') \<Longrightarrow> stream_ok s'"
    using adv_ok(1)[OF s, of "unat n"] readable_less[OF s, of n]
    by (auto simp: stream_get_def adv_def split: bind_splits if_splits)
  show "stream_get_ipv4 s = Some (bs, s') \<Longrightarrow> stream_ok s'"
    using adv_ok(1)[OF s, of 4] readable_less[OF s, of 4]
    by (auto simp: stream_get_ipv4_def adv_def split: bind_splits if_splits)
qed

lemma moves_keep:
  assumes s: "stream_ok s"
  shows "stream_set_getp s pos = Some s' \<Longrightarrow> stream_ok s'" "stream_set_endp s pos = Some s' \<Longrightarrow> stream_ok s'"
    "stream_forward_getp2 s n = Some (b, s') \<Longrightarrow> stream_ok s'"
    "stream_rewind_getp2 s n = Some (b, s') \<Longrightarrow> stream_ok s'"
    "unat (endp s) + unat n < 2 ^ 64 \<Longrightarrow> stream_forward_endp2 s n = Some (b, s') \<Longrightarrow> stream_ok s'"
    "stream_resize_inplace s n = Some (m, s') \<Longrightarrow> stream_ok s'" "stream_reset s = Some s' \<Longrightarrow> stream_ok s'"
    "stream_pulldown s = Some s' \<Longrightarrow> stream_ok s'"
proof -
  show "stream_set_getp s pos = Some s' \<Longrightarrow> stream_ok s'" "stream_set_endp s pos = Some s' \<Longrightarrow> stream_ok s'"
    "stream_forward_getp2 s n = Some (b, s') \<Longrightarrow> stream_ok s'" "stream_rewind_getp2 s n = Some (b, s') \<Longrightarrow> stream_ok s'"
    "stream_reset s = Some s' \<Longrightarrow> stream_ok s'"
    using s by (auto simp: stream_ok_def stream_set_getp_def stream_set_endp_def stream_forward_getp2_def
        stream_rewind_getp2_def stream_reset_def Let_def split: bind_splits if_splits)
  show "unat (endp s) + unat n < 2 ^ 64 \<Longrightarrow> stream_forward_endp2 s n = Some (b, s') \<Longrightarrow> stream_ok s'"
    using s by (auto simp: stream_ok_def stream_forward_endp2_def word_le_nat_alt unat_add_u64 split: bind_splits if_splits)
  have l: "length (xrealloc (data s) k) = unat k" for k by (simp add: xrealloc_def)
  show "stream_resize_inplace s n = Some (m, s') \<Longrightarrow> stream_ok s'"
    by (auto simp: stream_resize_inplace_def stream_ok_def STREAM_VERIFY_SANE_def Let_def l split: bind_splits if_splits)
  show "stream_pulldown s = Some s' \<Longrightarrow> stream_ok s'" using stream_pulldown_ok[OF s] by auto
qed

lemma stream_room_keeps: "stream_ok s \<Longrightarrow> can_take s (unat n) \<Longrightarrow> stream_room s n = Some s' \<Longrightarrow> grown s s' \<and> unat n \<le> room s'"
  by (metis stream_room_ok option.sel)

lemma put_bytes_keeps:
  assumes s: "stream_ok s" "put_bytes s src n = Some s'" "unat n \<le> room s" shows "stream_ok s'"
proof -
  have "unat n \<le> length src" using s(2) by (auto simp: put_bytes_def mem_read_def split: bind_splits if_splits)
  then show ?thesis using put_bytes_ok[OF s(1,3)] s app_ok(1)[OF s(1), of "take (unat n) src"] by simp
qed

lemma addr_keeps:
  assumes s: "stream_ok s" "can_take s 4"
  shows "stream_put_in_addr s a = Some (r, s') \<Longrightarrow> stream_ok s'" "stream_put_ipv4 s a = Some (r, s') \<Longrightarrow> stream_ok s'"
proof -
  have room: "stream_ok s1 \<and> unat (4 :: u64) \<le> room s1" if "stream_room s 4 = Some s1" for s1
    using stream_room_keeps[OF s(1) _ that] s(2) by (simp add: grown_def)
  show "stream_ok s'" if h: "stream_put_in_addr s a = Some (r, s')"
  proof -
    obtain s1 where "stream_room s 4 = Some s1" "put_bytes s1 a 4 = Some s'"
      using h by (auto simp: stream_put_in_addr_def split: bind_splits)
    then show ?thesis using put_bytes_keeps room by blast
  qed
  show "stream_ok s'" if "stream_put_ipv4 s a = Some (r, s')"
  proof (cases "STREAM_WRITEABLE s < 4")
    case True
    then have "stream_room s 4 = Some s'" using that by (auto simp: stream_put_ipv4_def split: bind_splits)
    then show ?thesis using room by blast
  next
    case False
    then have "unat (4 :: u64) \<le> room s" using writeable_less[OF s(1), of 4] by simp
    moreover have "put_bytes s a 4 = Some s'" using that False by (auto simp: stream_put_ipv4_def split: bind_splits)
    ultimately show ?thesis using put_bytes_keeps[OF s(1)] by blast
  qed
qed

lemma put_write_keep:
  assumes s: "stream_ok s" "unat (endp s) + unat n < 2 ^ 64"
  shows "stream_write s ptr n = Some (m, s') \<Longrightarrow> stream_ok s'" "stream_put s src n = Some s' \<Longrightarrow> stream_ok s'"
proof -
  let ?n = "CHECK_SIZE s n"
  have r: "unat ?n \<le> room s" "stream_room s ?n = Some s"
    using CHECK_SIZE_min[OF s] stream_room_enough[OF s(1), of ?n] by simp_all
  note sane = stream_okD(9)[OF s(1)]
  show "stream_ok s'" if "stream_write s ptr n = Some (m, s')"
  proof -
    have "put_bytes s ptr ?n = Some s'" using that by (auto simp: stream_write_def r(2) sane Let_def split: bind_splits)
    then show ?thesis using put_bytes_keeps[OF s(1) _ r(1)] by blast
  qed
  show "stream_ok s'" if p: "stream_put s src n = Some s'"
  proof -
    have z: "mem_read (replicate (unat ?n) 0) 0 ?n = Some (replicate (unat ?n) 0)" by (simp add: mem_read_def)
    have "put_bytes s (case src of Some x \<Rightarrow> x | None \<Rightarrow> replicate (unat ?n) 0) ?n = Some s'"
      using p by (cases src) (simp_all add: stream_put_def r(2) sane put_bytes_def z Let_def)
    then show ?thesis using put_bytes_keeps[OF s(1) _ r(1)] by blast
  qed
qed

lemma puts_keep:
  assumes s: "stream_ok s"
  shows "can_take s (length (field_enc f)) \<Longrightarrow> put_field f s = Some (r, s') \<Longrightarrow> stream_ok s'"
  using put_field_ok[OF s] by (metis option.sel prod.inject)

lemma stream_read_keeps:
  assumes s: "stream_ok s" and io: "\<And>k. 0 < fst (readn k) \<Longrightarrow> length (snd (readn k)) = nat (fst (readn k)) \<and> nat (fst (readn k)) \<le> unat k"
    and r: "stream_read s readn n = Some (r, s')"
  shows "stream_ok s'"
proof (cases "0 < fst (readn n)")
  case True
  obtain k bs where e: "readn n = (k, bs)" by (cases "readn n")
  have w: "\<not> STREAM_WRITEABLE s < n" using r by (auto simp: stream_read_def split: bind_splits if_splits)
  have l: "length bs = nat k" "length bs \<le> room s" "0 < k" using io[OF True] e w writeable_less[OF s, of n] True by auto
  then have "of_int k = (of_nat (length bs) :: u64)" by simp
  then have "s' = app s bs"
    using r e l mem_write_app[OF l(2) s] by (auto simp: stream_read_def store_input_def app_def split: bind_splits if_splits)
  then show ?thesis using app_ok(1)[OF s l(2)] by simp
next
  case False
  then show ?thesis using r s by (auto simp: stream_read_def split: bind_splits if_splits prod.splits)
qed

lemmas steps_keep = patches_keep get_field_keeps reports_keep blocks_keep moves_keep puts_keep addr_keeps put_write_keep stream_read_keeps

lemma stream_step_ok: "stream_step s s' \<Longrightarrow> stream_ok s \<Longrightarrow> stream_ok s'"
  by (induction rule: stream_step.induct) (erule (2) steps_keep | erule (1) steps_keep | (rule stream_read_keeps; assumption))+

subsection \<open>Properties\<close>

text \<open>C23: A message of 8-, 16-, 24-, 32- and 64-bit integers written to a stream with room for it, or to an
  expandable one, is written completely and read back with the same values in the same order, and then
  nothing is left to read.\<close>

theorem stream_message_roundtrip:
  assumes "stream_ok s" "unread s = []" "can_take_all s fs" "list_all field_ok fs"
  shows "\<exists>s1 s2. put_fields fs s = Some s1 \<and> contents s1 = contents s @ concat (map field_enc fs) \<and>
    get_fields fs s1 = Some (fs, s2) \<and> unread s2 = []"
proof -
  obtain s1 where s1: "put_fields fs s = Some s1" "stream_ok s1" "contents s1 = contents s @ concat (map field_enc fs)"
    "unread s1 = concat (map field_enc fs)"
    using put_fields_ok[OF assms(1,3)] assms(2) by auto
  then show ?thesis using get_fields_ok[OF s1(2), of fs "[]"] assms(4) by auto
qed

definition stream4 :: stream where
  "stream4 = \<lparr>getp = 0, endp = 0, ssize = 4, allow_expansion = True, data = [0, 0, 0, 0]\<rparr>"

theorem stream_message_roundtrip_witness:
  "\<exists>s1 s2. put_fields [FW 0x1234, F3 0xabcdef, FQ 7] stream4 = Some s1 \<and>
     length (contents s1) = 13 \<and>
     get_fields [FW 0x1234, F3 0xabcdef, FQ 7] s1 = Some ([FW 0x1234, F3 0xabcdef, FQ 7], s2) \<and> unread s2 = []"
proof -
  let ?fs = "[FW 0x1234, F3 0xabcdef, FQ 7]"
  have "stream_ok stream4" "unread stream4 = []" "can_take_all stream4 ?fs" "list_all field_ok ?fs" "contents stream4 = []"
    by (simp_all add: stream4_def stream_ok_def unread_def contents_def can_take_all_def room_def)
  then show ?thesis using stream_message_roundtrip[of stream4 ?fs] by fastforce
qed



text \<open>C25: The reads that report errors never abort on a well-formed stream: they return the next bytes as a
  big-endian number and move past them, or, when too few bytes are left, return false and leave the stream as it is.\<close>

theorem stream_getl2_total:
  assumes "stream_ok s"
  shows "stream_getl2 s = Some (if 4 \<le> length (unread s)
    then (Some (be_dec (take 4 (unread s))), s\<lparr>getp := getp s + 4\<rparr>) else (None, s))"
  using getl.get_iff[OF assms] by (simp add: get2_report(3)[OF assms] report_def adv_def)

theorem stream_getl2_total_witness:
  "stream_getl2 (stream4\<lparr>endp := 3\<rparr>) = Some (None, stream4\<lparr>endp := 3\<rparr>)"
  using stream_getl2_total[of "stream4\<lparr>endp := 3\<rparr>"] by (simp add: stream4_def stream_ok_def unread_def contents_def)

text \<open>Writing a 32-bit number at a position of a stream replaces those four bytes and nothing else, and the
  number can be read from there.\<close>

theorem stream_putl_at_patches:
  assumes "stream_ok s" "unat i + 4 \<le> length (contents s)"
  shows "\<exists>s'. stream_putl_at s i l = Some (4, s') \<and> getp s' = getp s \<and> endp s' = endp s \<and>
    contents s' = take (unat i) (contents s) @ be_enc 4 l @ drop (unat i + 4) (contents s) \<and>
    stream_getl_from s' i = Some l"
  by (rule at_l.patched[OF assms, where x = l]) auto

theorem stream_putl_at_patches_witness:
  "\<exists>s'. stream_putl_at (stream4\<lparr>endp := 4\<rparr>) 0 0x01020304 = Some (4, s') \<and> contents s' = [1, 2, 3, 4]"
  using stream_putl_at_patches[of "stream4\<lparr>endp := 4\<rparr>" 0 "0x01020304"]
  by (auto simp: stream4_def stream_ok_def contents_def be_enc_simps)

text \<open>C26: A block written with \<open>stream_write\<close> is cut to the free space of the buffer, also when the stream may be
  expanded: the function never expands it.\<close>

theorem stream_write_truncates:
  assumes "stream_ok s" "unat (endp s) + unat n < 2 ^ 64" "unat n \<le> length src"
  shows "\<exists>s'. stream_write s src n = Some (of_nat (min (unat n) (room s)), s') \<and> ssize s' = ssize s \<and>
    contents s' = contents s @ take (min (unat n) (room s)) src"
  using stream_write_ok[OF assms] app_ok(2)[OF assms(1), of "take (min (unat n) (room s)) src"] assms(3) by simp

theorem stream_write_truncates_witness:
  "\<exists>s'. stream_write stream4 [1, 2, 3, 4, 5, 6] 6 = Some (4, s') \<and> contents s' = [1, 2, 3, 4]"
  using stream_write_truncates[of stream4 6 "[1, 2, 3, 4, 5, 6]"]
  by (auto simp: stream4_def stream_ok_def contents_def room_def)

text \<open>C27: \<open>stream_dupcat\<close> makes a stream with the second stream's data inserted into the first one's at the offset.\<close>

theorem stream_dupcat_inserts:
  assumes "stream_ok s1" "stream_ok s2" "unat off \<le> length (contents s1)" "contents s1 @ contents s2 \<noteq> []"
    "length (contents s1) + length (contents s2) < 2 ^ 64"
  shows "\<exists>s'. stream_dupcat s1 s2 off = Some (Some s') \<and> stream_ok s' \<and> getp s' = 0 \<and>
    contents s' = take (unat off) (contents s1) @ contents s2 @ drop (unat off) (contents s1)"
  using stream_dupcat_ok[OF assms] .

theorem stream_dupcat_inserts_witness:
  "\<exists>s'. stream_dupcat (stream4\<lparr>data := [1, 2, 3, 4], endp := 3\<rparr>) (stream4\<lparr>data := [7, 8, 0, 0], endp := 2\<rparr>) 1 = Some (Some s') \<and>
     contents s' = [1, 7, 8, 2, 3]"
  using stream_dupcat_inserts[of "stream4\<lparr>data := [1, 2, 3, 4], endp := 3\<rparr>" "stream4\<lparr>data := [7, 8, 0, 0], endp := 2\<rparr>" 1]
  by (auto simp: stream4_def stream_ok_def contents_def)

text \<open>Pulling a stream down drops the bytes already read and keeps the unread ones, in order.\<close>

theorem stream_pulldown_keeps_unread:
  assumes "stream_ok s"
  shows "\<exists>s'. stream_pulldown s = Some s' \<and> stream_ok s' \<and> unread s' = unread s \<and> contents s' = unread s \<and>
    ssize s' = ssize s"
  using stream_pulldown_ok[OF assms] by (auto simp: unread_def)

theorem stream_pulldown_keeps_unread_witness:
  "\<exists>s'. stream_pulldown (stream4\<lparr>data := [1, 2, 3, 4], getp := 2, endp := 4\<rparr>) = Some s' \<and> contents s' = [3, 4]"
  using stream_pulldown_keeps_unread[of "stream4\<lparr>data := [1, 2, 3, 4], getp := 2, endp := 4\<rparr>"]
  by (auto simp: stream4_def stream_ok_def contents_def unread_def)

text \<open>An IP address of either family written to a stream is read back unchanged.\<close>

theorem stream_ipaddr_roundtrip:
  assumes "stream_ok s" "unread s = []" "18 \<le> room s" "ipa_type a = IPADDR_V4 \<or> ipa_type a = IPADDR_V6"
    "length (ip a) = 16" "length (ip b) = 16"
  shows "\<exists>s1 s2 b'. stream_put_ipaddr s a = Some (True, s1) \<and> stream_get_ipaddr s1 b = Some (True, b', s2) \<and>
    ipa_type b' = ipa_type a \<and>
    take (if ipa_type a = IPADDR_V4 then 4 else 16) (ip b') = take (if ipa_type a = IPADDR_V4 then 4 else 16) (ip a)"
proof -
  let ?bs = "take (if ipa_type a = IPADDR_V4 then 4 else 16) (ip a)"
  obtain s1 where s1: "stream_put_ipaddr s a = Some (True, s1)" "stream_ok s1" "unread s1 = be_enc 2 (ipa_type a) @ ?bs @ []"
    using stream_put_ipaddr_ok[OF assms(1,3,4,5)] assms(2) by auto
  have "ipa_type a \<noteq> IPADDR_NONE" "length ?bs = (if ipa_type a = IPADDR_V4 then 4 else if ipa_type a = IPADDR_V6 then 16 else 0)"
    using assms(4,5) by (auto simp: IPADDR_V4_def IPADDR_V6_def IPADDR_NONE_def)
  then show ?thesis using stream_get_ipaddr_ok[OF s1(2,3) _ assms(6)] s1(1) assms(5) by auto
qed

theorem stream_ipaddr_roundtrip_witness:
  "\<exists>s1 s2 b'. stream_put_ipaddr \<lparr>getp = 0, endp = 0, ssize = 18, allow_expansion = False, data = replicate 18 0\<rparr>
       \<lparr>ipa_type = IPADDR_V4, ip = replicate 16 9\<rparr> = Some (True, s1) \<and>
     stream_get_ipaddr s1 \<lparr>ipa_type = 0, ip = replicate 16 0\<rparr> = Some (True, b', s2) \<and> ipa_type b' = IPADDR_V4"
  using stream_ipaddr_roundtrip[of "\<lparr>getp = 0, endp = 0, ssize = 18, allow_expansion = False, data = replicate 18 0\<rparr>"
      "\<lparr>ipa_type = IPADDR_V4, ip = replicate 16 9\<rparr>" "\<lparr>ipa_type = 0, ip = replicate 16 0\<rparr>"]
  by (auto simp: stream_ok_def contents_def unread_def room_def)

text \<open>C28: An address whose type is none of the known ones is accepted by \<open>stream_get_ipaddr\<close> as an address
  without bytes: only the type of no address is refused.\<close>

theorem stream_get_ipaddr_unknown_type:
  assumes "stream_ok s" "unread s = be_enc 2 t @ rest" "t \<notin> {IPADDR_NONE, IPADDR_V4, IPADDR_V6}" "length (ip a) = 16"
  shows "stream_get_ipaddr s a = Some (True, a\<lparr>ipa_type := t\<rparr>, s\<lparr>getp := getp s + 2\<rparr>)"
proof -
  have "length ([] :: u8 list) = (if t = IPADDR_V4 then 4 else if t = IPADDR_V6 then 16 else 0)" using assms(3) by simp
  then show ?thesis using stream_get_ipaddr_ok[of s t "[]" rest a] assms by (simp add: adv_def)
qed

theorem stream_get_ipaddr_unknown_type_witness:
  "stream_get_ipaddr (stream4\<lparr>data := [0, 5, 0, 0], endp := 2\<rparr>) \<lparr>ipa_type = 0, ip = replicate 16 0\<rparr> =
     Some (True, \<lparr>ipa_type = 5, ip = replicate 16 0\<rparr>, stream4\<lparr>data := [0, 5, 0, 0], getp := 2, endp := 2\<rparr>)"
  using stream_get_ipaddr_unknown_type[of "stream4\<lparr>data := [0, 5, 0, 0], endp := 2\<rparr>" 5 "[]" "\<lparr>ipa_type = 0, ip = replicate 16 0\<rparr>"]
  by (simp add: stream4_def stream_ok_def contents_def unread_def be_enc_simps IPADDR_NONE_def IPADDR_V4_def IPADDR_V6_def)

text \<open>C29: \<open>stream_put_ipv4\<close> on a full expandable stream expands it but does not write the address.\<close>

theorem stream_put_ipv4_drops:
  assumes "stream_ok s" "room s < 4" "allow_expansion s" "unat (ssize s) + 512 < 2 ^ 64"
  shows "\<exists>s'. stream_put_ipv4 s l = Some (0, s') \<and> contents s' = contents s \<and> 4 \<le> room s'"
proof -
  obtain s' where s': "stream_room s 4 = Some s'" "grown s s'" "4 \<le> room s'"
    using stream_room_ok[of s 4] assms by (auto simp: can_take_def)
  then show ?thesis
    using writeable_less[OF assms(1), of 4] assms(2) by (simp add: stream_put_ipv4_def stream_okD(9)[OF assms(1)] grown_def)
qed

theorem stream_put_ipv4_drops_witness:
  "\<exists>s'. stream_put_ipv4 (stream4\<lparr>endp := 1\<rparr>) [10, 0, 0, 1] = Some (0, s') \<and> contents s' = [0] \<and> 4 \<le> room s'"
  using stream_put_ipv4_drops[of "stream4\<lparr>endp := 1\<rparr>" "[10, 0, 0, 1]"]
  by (simp add: stream4_def stream_ok_def contents_def room_def)

end
