(* ===== verification/Stream_Fifo.thy ===== *)
theory Stream_Fifo
  imports Packet_Stream
begin

text \<open>
  \<^verbatim>\<open>struct stream_fifo\<close> of \<^verbatim>\<open>lib/stream.c\<close>: streams linked by their \<^verbatim>\<open>next\<close> pointers. The links live in a store, from the
  addresses of the allocated streams to their \<^verbatim>\<open>next\<close> field. The \<open>_safe\<close> variants run the same code
  under the mutex of the FIFO, so that a sequence of operations is a sequence of these steps.
\<close>

type_synonym saddr = nat

record stream_fifo =
  ff_next :: "saddr \<rightharpoonup> saddr option"
  ff_count :: u64
  ff_max_count :: u64
  ff_head :: "saddr option"
  ff_tail :: "saddr option"

definition stream_fifo_init :: "(saddr \<rightharpoonup> saddr option) \<Rightarrow> stream_fifo" where
  "stream_fifo_init m = \<lparr>ff_next = m, ff_count = 0, ff_max_count = 0, ff_head = None, ff_tail = None\<rparr>"

definition set_next :: "stream_fifo \<Rightarrow> saddr \<Rightarrow> saddr option \<Rightarrow> stream_fifo option" where
  "set_next ff a v = do { _ \<leftarrow> ff_next ff a; Some (ff\<lparr>ff_next := (ff_next ff)(a \<mapsto> v)\<rparr>) }"

definition stream_fifo_push :: "stream_fifo \<Rightarrow> saddr \<Rightarrow> stream_fifo option" where
  "stream_fifo_push ff s =
     do { ff \<leftarrow> (case ff_tail ff of Some t \<Rightarrow> set_next ff t (Some s) | None \<Rightarrow> Some (ff\<lparr>ff_head := Some s\<rparr>));
          ff \<leftarrow> set_next (ff\<lparr>ff_tail := Some s\<rparr>) s None;
          let mx = ff_count ff;
          let ff = ff\<lparr>ff_count := ff_count ff + 1\<rparr>;
          Some (if mx > ff_max_count ff then ff\<lparr>ff_max_count := mx\<rparr> else ff) }"

definition stream_fifo_pop :: "stream_fifo \<Rightarrow> (saddr option \<times> stream_fifo) option" where
  "stream_fifo_pop ff =
     (case ff_head ff of
        None \<Rightarrow> Some (None, ff)
      | Some s \<Rightarrow>
          do { nx \<leftarrow> ff_next ff s;
               let ff = ff\<lparr>ff_head := nx\<rparr>;
               let ff = (if ff_head ff = None then ff\<lparr>ff_tail := None\<rparr> else ff);
               ff \<leftarrow> set_next (ff\<lparr>ff_count := ff_count ff - 1\<rparr>) s None;
               Some (Some s, ff) })"

definition stream_fifo_head :: "stream_fifo \<Rightarrow> saddr option" where
  "stream_fifo_head ff = ff_head ff"

text \<open>The loop of \<^verbatim>\<open>stream_fifo_clean\<close>: each stream is freed after its link was read.\<close>

partial_function (option) clean_loop :: "stream_fifo \<Rightarrow> saddr option \<Rightarrow> stream_fifo option" where
  [code]: "clean_loop ff s =
     (case s of
        None \<Rightarrow> Some ff
      | Some a \<Rightarrow> do { nx \<leftarrow> ff_next ff a; clean_loop (ff\<lparr>ff_next := (ff_next ff)(a := None)\<rparr>) nx })"

definition stream_fifo_clean :: "stream_fifo \<Rightarrow> stream_fifo option" where
  "stream_fifo_clean ff =
     do { ff \<leftarrow> clean_loop ff (ff_head ff);
          Some (ff\<lparr>ff_head := None, ff_tail := None, ff_count := 0\<rparr>) }"

definition stream_fifo_count_safe :: "stream_fifo \<Rightarrow> u64" where
  "stream_fifo_count_safe ff = ff_count ff"

subsection \<open>The FIFO is a queue\<close>

text \<open>What a queue promises to its clients.\<close>

locale queue =
  fixes rep :: "'q \<Rightarrow> 'a list \<Rightarrow> bool" and free :: "'q \<Rightarrow> 'a \<Rightarrow> bool"
    and push :: "'q \<Rightarrow> 'a \<Rightarrow> 'q option" and pop :: "'q \<Rightarrow> ('a option \<times> 'q) option"
  assumes push_rep: "\<lbrakk>rep q xs; free q a; a \<notin> set xs\<rbrakk> \<Longrightarrow> \<exists>q'. push q a = Some q' \<and> rep q' (xs @ [a]) \<and> free q' = free q"
    and pop_rep: "rep q (a # xs) \<Longrightarrow> \<exists>q'. pop q = Some (Some a, q') \<and> rep q' xs \<and> free q' = free q"
    and pop_empty: "rep q [] \<Longrightarrow> pop q = Some (None, q)"
begin

fun push_all :: "'q \<Rightarrow> 'a list \<Rightarrow> 'q option" where
  "push_all q [] = Some q"
| "push_all q (a # as) = do { q \<leftarrow> push q a; push_all q as }"

fun pop_n :: "nat \<Rightarrow> 'q \<Rightarrow> ('a option list \<times> 'q) option" where
  "pop_n 0 q = Some ([], q)"
| "pop_n (Suc n) q = do { (a, q) \<leftarrow> pop q; (as, q) \<leftarrow> pop_n n q; Some (a # as, q) }"

lemma push_all_rep:
  "\<lbrakk>rep q xs; \<forall>a \<in> set as. free q a; distinct (xs @ as)\<rbrakk> \<Longrightarrow> \<exists>q'. push_all q as = Some q' \<and> rep q' (xs @ as)"
proof (induction as arbitrary: q xs)
  case (Cons a as)
  obtain q1 where q1: "push q a = Some q1" "rep q1 (xs @ [a])" "free q1 = free q"
    using push_rep[of q xs a] Cons.prems by auto
  have "\<exists>q'. push_all q1 as = Some q' \<and> rep q' ((xs @ [a]) @ as)"
    by (rule Cons.IH[OF q1(2)]) (use Cons.prems q1(3) in auto)
  then show ?case using q1(1) by simp
qed simp

lemma pop_n_rep: "rep q (xs @ ys) \<Longrightarrow> \<exists>q'. pop_n (length xs) q = Some (map Some xs, q') \<and> rep q' ys"
proof (induction xs arbitrary: q)
  case (Cons a xs)
  obtain q1 where "pop q = Some (Some a, q1)" "rep q1 (xs @ ys)" using pop_rep[of q a "xs @ ys"] Cons.prems by auto
  then show ?case using Cons.IH[of q1] by auto
qed simp

lemma fifo_order:
  assumes "rep q xs" "\<forall>a \<in> set as. free q a" "distinct (xs @ as)"
  shows "\<exists>q1 q2. push_all q as = Some q1 \<and> pop_n (length (xs @ as)) q1 = Some (map Some (xs @ as), q2) \<and> rep q2 []"
  using push_all_rep[OF assms] pop_n_rep[of _ "xs @ as" "[]"] by fastforce

end

fun chain :: "(saddr \<rightharpoonup> saddr option) \<Rightarrow> saddr option \<Rightarrow> saddr list \<Rightarrow> bool" where
  "chain m p [] \<longleftrightarrow> p = None"
| "chain m p (a # as) \<longleftrightarrow> p = Some a \<and> (case m a of None \<Rightarrow> False | Some nx \<Rightarrow> chain m nx as)"

definition fifo_rep :: "stream_fifo \<Rightarrow> saddr list \<Rightarrow> bool" where
  "fifo_rep ff xs \<longleftrightarrow> chain (ff_next ff) (ff_head ff) xs \<and> distinct xs \<and>
     ff_tail ff = (if xs = [] then None else Some (last xs)) \<and> ff_count ff = of_nat (length xs)"

definition fifo_free :: "stream_fifo \<Rightarrow> saddr \<Rightarrow> bool" where
  "fifo_free ff a \<longleftrightarrow> a \<in> dom (ff_next ff)"

lemma chain_upd: "a \<notin> set xs \<Longrightarrow> chain (m(a := v)) p xs = chain m p xs"
  by (induction xs arbitrary: p) (auto split: option.splits)

lemma chain_dom: "chain m p xs \<Longrightarrow> set xs \<subseteq> dom m"
  by (induction xs arbitrary: p) (auto split: option.splits)

lemma chain_snoc:
  "\<lbrakk>chain m p (xs @ [t]); distinct (xs @ [t]); a \<notin> set (xs @ [t])\<rbrakk> \<Longrightarrow>
     chain (m(t \<mapsto> Some a, a \<mapsto> None)) p (xs @ [t, a])"
  by (induction xs arbitrary: p) (auto simp: chain_upd split: option.splits)

lemma fifo_push:
  assumes r: "fifo_rep ff xs" and a: "fifo_free ff a" "a \<notin> set xs"
  shows "\<exists>ff'. stream_fifo_push ff a = Some ff' \<and> fifo_rep ff' (xs @ [a]) \<and> fifo_free ff' = fifo_free ff"
proof (cases xs rule: rev_cases)
  case Nil
  then show ?thesis using r a
    by (auto simp: fifo_rep_def fifo_free_def stream_fifo_push_def set_next_def Let_def fun_eq_iff)
next
  case (snoc ys t)
  have "t \<in> dom (ff_next ff)" using r snoc chain_dom[of "ff_next ff" "ff_head ff" xs] by (auto simp: fifo_rep_def)
  moreover have "chain ((ff_next ff)(t \<mapsto> Some a, a \<mapsto> None)) (ff_head ff) (ys @ [t, a])"
    using chain_snoc[of "ff_next ff" "ff_head ff" ys t a] r a(2) snoc by (simp add: fifo_rep_def)
  ultimately show ?thesis using r a snoc
    by (auto simp: fifo_rep_def fifo_free_def stream_fifo_push_def set_next_def Let_def fun_eq_iff)
qed

lemma fifo_pop:
  assumes r: "fifo_rep ff (a # xs)"
  shows "\<exists>ff'. stream_fifo_pop ff = Some (Some a, ff') \<and> fifo_rep ff' xs \<and> fifo_free ff' = fifo_free ff"
proof -
  obtain nx where nx: "ff_head ff = Some a" "ff_next ff a = Some nx" "chain (ff_next ff) nx xs"
    using r by (auto simp: fifo_rep_def split: option.splits)
  have "nx = None \<longleftrightarrow> xs = []" using nx(3) by (cases xs) auto
  then show ?thesis using r nx
    by (auto simp: fifo_rep_def fifo_free_def stream_fifo_pop_def set_next_def Let_def chain_upd fun_eq_iff)
qed

interpretation fifo: queue fifo_rep fifo_free stream_fifo_push stream_fifo_pop
proof
  show "fifo_rep q [] \<Longrightarrow> stream_fifo_pop q = Some (None, q)" for q by (simp add: fifo_rep_def stream_fifo_pop_def)
qed (fact fifo_push fifo_pop)+

lemma fifo_rep_init: "fifo_rep (stream_fifo_init m) []"
  by (simp add: fifo_rep_def stream_fifo_init_def)

lemma clean_loop_ok:
  "chain (ff_next ff) p xs \<Longrightarrow> distinct xs \<Longrightarrow>
     clean_loop ff p = Some (ff\<lparr>ff_next := (ff_next ff) |` (- set xs)\<rparr>)"
proof (induction xs arbitrary: ff p)
  case Nil
  then show ?case by (subst clean_loop.simps) (simp add: restrict_map_def)
next
  case (Cons a xs)
  then obtain nx where nx: "p = Some a" "ff_next ff a = Some nx" "chain (ff_next ff) nx xs" "a \<notin> set xs" "distinct xs"
    by (auto split: option.splits)
  let ?ff = "ff\<lparr>ff_next := (ff_next ff)(a := None)\<rparr>"
  have "chain (ff_next ?ff) nx xs" using chain_upd[of a xs "ff_next ff" None nx] nx(3,4) by simp
  then have "clean_loop ?ff nx = Some (?ff\<lparr>ff_next := (ff_next ?ff) |` (- set xs)\<rparr>)" using Cons.IH nx(5) by blast
  moreover have "(ff_next ?ff) |` (- set xs) = ff_next ff |` (- set (a # xs))"
    by (auto simp: restrict_map_def fun_eq_iff)
  ultimately show ?case using nx(1,2) by (subst clean_loop.simps) (simp del: fun_upd_apply)
qed

subsection \<open>Properties\<close>





end
