(* ===== verification/Checksum.thy ===== *)
theory Checksum
  imports Frr_Prelude
begin

text \<open>
  The checksums of \<^verbatim>\<open>lib/checksum.c\<close>: the Internet checksum over a vector of buffers, and the Fletcher checksum of OSPF
  and IS-IS packets. The machine is little-endian. An \<^verbatim>\<open>int\<close> is an integer whose overflow is \<open>None\<close>.
\<close>

subsection \<open>The Internet checksum\<close>

definition add_carry :: "u32 \<Rightarrow> u32 \<Rightarrow> u32" where
  "add_carry dst a = (let d = dst + a in if d < a then d + 1 else d)"

text \<open>A 16-bit and a 32-bit load of a little-endian machine.\<close>

definition load16 :: "u8 \<Rightarrow> u8 \<Rightarrow> u32" where
  "load16 a b = ucast a OR push_bit 8 (ucast b)"

definition load32 :: "u8 \<Rightarrow> u8 \<Rightarrow> u8 \<Rightarrow> u8 \<Rightarrow> u32" where
  "load32 a b c d = ucast a OR push_bit 8 (ucast b) OR push_bit 16 (ucast c) OR push_bit 24 (ucast d)"

fun sum_quads :: "u32 \<Rightarrow> u8 list \<Rightarrow> u32 \<times> u8 list" where
  "sum_quads acc (a # b # c # d # e # f # g # h # ptr) =
     sum_quads (add_carry (add_carry acc (load32 a b c d)) (load32 e f g h)) ptr"
| "sum_quads acc ptr = (acc, ptr)"

fun sum_words :: "u32 \<Rightarrow> u8 list \<Rightarrow> u32 \<times> u8 list" where
  "sum_words acc (a # b # ptr) = sum_words (add_carry acc (load16 a b)) ptr"
| "sum_words acc ptr = (acc, ptr)"

text \<open>One turn of the loop over the vector; the second component is \<^verbatim>\<open>wordbuf.bytes[0]\<close> when \<^verbatim>\<open>have_oddbyte\<close>.\<close>

definition cksum_iov :: "u32 \<times> u8 option \<Rightarrow> u8 list \<Rightarrow> u32 \<times> u8 option" where
  "cksum_iov st ptr =
     (if ptr = [] then st
      else let (acc, ptr) = (case st of
                 (acc, Some b) \<Rightarrow> (add_carry acc (load16 b (hd ptr)), tl ptr)
               | (acc, None) \<Rightarrow> (acc, ptr));
               (acc, ptr) = sum_quads acc ptr;
               (acc, ptr) = sum_words acc ptr
           in (acc, case ptr of [] \<Rightarrow> None | b # _ \<Rightarrow> Some b))"

definition in_cksumv :: "u8 list list \<Rightarrow> u16" where
  "in_cksumv iov =
     (let (acc, odd) = foldl cksum_iov (0, None) iov;
          acc = (case odd of Some b \<Rightarrow> add_carry acc (load16 b 0) | None \<Rightarrow> acc);
          acc = drop_bit 16 acc + (acc AND 0xffff);
          acc = acc + drop_bit 16 acc
      in ucast (NOT acc))"

subsection \<open>What it computes\<close>

text \<open>The sum of the 16-bit words, the last one padded with a 0 byte.\<close>

fun le_sum :: "u8 list \<Rightarrow> nat" where
  "le_sum [] = 0"
| "le_sum [a] = unat a"
| "le_sum (a # b # bs) = unat a + 256 * unat b + le_sum bs"

text \<open>The accumulator represents a number up to multiples of \<^term>\<open>(2 :: nat) ^ 16 - 1\<close>, but not 0 by another number.\<close>

definition ones_rep :: "u32 \<Rightarrow> nat \<Rightarrow> bool" where
  "ones_rep s n \<longleftrightarrow> unat s mod 65535 = n mod 65535 \<and> (s = 0 \<longleftrightarrow> n = 0)"

lemma u32_bound: "unat (x :: u32) < 4294967296"
  using unsigned_less[of x] by simp

lemma u8_bound: "unat (x :: u8) < 256"
  using unsigned_less[of x] by simp

lemma unat_add_carry:
  "unat (add_carry s a) = (if unat s + unat a < 4294967296 then unat s + unat a else unat s + unat a - 4294967295)"
proof (cases "unat s + unat a < 4294967296")
  case True
  then have "unat (s + a) = unat s + unat a" by (simp add: unat_word_ariths)
  then show ?thesis using True by (simp add: add_carry_def Let_def word_less_nat_alt)
next
  case False
  have m: "unat (s + a) = unat s + unat a - 4294967296"
    using False u32_bound[of s] u32_bound[of a] by (simp add: unat_word_ariths mod_if)
  then have lt: "s + a < a" using False u32_bound[of s] u32_bound[of a] by (simp add: word_less_nat_alt)
  have "unat (s + a) + 1 < 4294967296" using m u32_bound[of s] u32_bound[of a] by linarith
  then have "unat (s + a + 1) = unat (s + a) + 1" by (simp add: unat_word_ariths)
  then show ?thesis using False lt m by (simp add: add_carry_def Let_def)
qed

lemma add_carry_rep: "ones_rep s n \<Longrightarrow> ones_rep (add_carry s a) (n + unat a)"
proof -
  assume r: "ones_rep s n"
  have z: "s = 0 \<longleftrightarrow> n = 0" "unat s mod 65535 = n mod 65535" using r by (simp_all add: ones_rep_def)
  have "unat (add_carry s a) mod 65535 = (unat s + unat a) mod 65535"
    unfolding unat_add_carry using mod_mult_self2[of "unat s + unat a - 4294967295" 65535 65537] by auto
  also have "\<dots> = (n + unat a) mod 65535" using z(2) by (metis mod_add_left_eq)
  finally have "unat (add_carry s a) mod 65535 = (n + unat a) mod 65535" .
  moreover have "add_carry s a = 0 \<longleftrightarrow> s = 0 \<and> a = 0"
    unfolding unat_eq_zero[symmetric] unat_add_carry by auto
  ultimately show ?thesis using z(1) by (simp add: ones_rep_def unat_eq_zero)
qed

lemma or_eq_add:
  fixes x y :: "u32"
  assumes "\<And>i. bit x i \<Longrightarrow> bit y i \<Longrightarrow> False" "unat x + unat y < 4294967296"
  shows "unat (x OR y) = unat x + unat y"
proof -
  have "x OR y = x + y" using assms(1) by (intro disjunctive_add[symmetric]) auto
  then show ?thesis using assms(2) by (simp add: unat_word_ariths)
qed

lemma unat_shifted_byte:
  "k \<le> 24 \<Longrightarrow> unat (push_bit k (ucast (b :: u8)) :: u32) = unat b * 2 ^ k"
proof -
  assume k: "k \<le> 24"
  have u: "unat (ucast b :: u32) = unat b" using u8_bound[of b] by (simp add: unsigned_ucast_eq take_bit_nat_eq_self_iff)
  have "unat b * 2 ^ k < 2 ^ 8 * 2 ^ 24"
    using mult_less_le_imp_less[of "unat b" "2 ^ 8" "2 ^ k" "2 ^ 24 :: nat"] u8_bound[of b]
      power_increasing[OF k, of "2 :: nat"] by simp
  then have lt: "unat b * 2 ^ k < 4294967296" by simp
  have "unat (push_bit k (ucast b :: u32)) = take_bit 32 (push_bit k (unat (ucast b :: u32)))"
    by (simp add: unsigned_push_bit_eq)
  then show ?thesis using lt by (simp add: u push_bit_eq_mult take_bit_nat_eq_self_iff)
qed

lemma unat_load16: "unat (load16 a b) = unat a + 256 * unat b"
  unfolding load16_def
  using u8_bound[of a] u8_bound[of b] unat_shifted_byte[of 8 b] unat_shifted_byte[of 0 a]
  by (subst or_eq_add) (auto simp: bit_push_bit_iff bit_unsigned_iff)

lemma unat_load32: "unat (load32 a b c d) = unat a + 256 * unat b + 65536 * (unat c + 256 * unat d)"
proof -
  have sh: "unat (ucast x :: u32) = unat x" "unat (push_bit 8 (ucast x) :: u32) = unat x * 256"
    "unat (push_bit 16 (ucast x) :: u32) = unat x * 65536" "unat (push_bit 24 (ucast x) :: u32) = unat x * 16777216"
    for x :: u8
    using unat_shifted_byte[of 0 x] unat_shifted_byte[of 8 x] unat_shifted_byte[of 16 x] unat_shifted_byte[of 24 x] by simp_all
  note bd = u8_bound[of a] u8_bound[of b] u8_bound[of c] u8_bound[of d]
  let ?A = "ucast a :: u32" and ?B = "push_bit 8 (ucast b) :: u32" and ?C = "push_bit 16 (ucast c) :: u32"
    and ?D = "push_bit 24 (ucast d) :: u32"
  have cd: "unat (?C OR ?D) = unat c * 65536 + unat d * 16777216"
    using bd by (subst or_eq_add) (auto simp: sh bit_push_bit_iff bit_unsigned_iff)
  have bcd: "unat (?B OR ?C OR ?D) = unat b * 256 + unat c * 65536 + unat d * 16777216"
    using bd cd by (subst or_eq_add) (auto simp: sh bit_push_bit_iff bit_unsigned_iff bit_or_iff)
  have "unat (?A OR ?B OR ?C OR ?D) = unat a + (unat b * 256 + unat c * 65536 + unat d * 16777216)"
    using bd bcd by (subst or_eq_add) (auto simp: sh bit_push_bit_iff bit_unsigned_iff bit_or_iff)
  then show ?thesis by (simp add: load32_def)
qed

lemma ones_rep_cong: "ones_rep s n \<Longrightarrow> n mod 65535 = m mod 65535 \<Longrightarrow> n = 0 \<longleftrightarrow> m = 0 \<Longrightarrow> ones_rep s m"
  by (auto simp: ones_rep_def)

lemma load32_rep:
  "ones_rep s n \<Longrightarrow> ones_rep (add_carry s (load32 a b c d)) (n + (unat a + 256 * unat b + (unat c + 256 * unat d)))"
proof -
  assume "ones_rep s n"
  from add_carry_rep[OF this, of "load32 a b c d"]
  have r: "ones_rep (add_carry s (load32 a b c d)) (n + (unat a + 256 * unat b + 65536 * (unat c + 256 * unat d)))"
    by (simp add: unat_load32)
  let ?y = "unat c + 256 * unat d" and ?x = "n + (unat a + 256 * unat b)"
  have "?x + 65536 * ?y = ?x + ?y + ?y * 65535" by simp
  then have "(?x + 65536 * ?y) mod 65535 = (?x + ?y) mod 65535" by (simp only: mod_mult_self1)
  then show ?thesis by (intro ones_rep_cong[OF r]) (simp_all add: add.assoc)
qed

lemma sum_quads_rep:
  "\<lbrakk>ones_rep acc n; sum_quads acc ptr = (acc', ptr')\<rbrakk> \<Longrightarrow>
     \<exists>pre. ptr = pre @ ptr' \<and> even (length pre) \<and> ones_rep acc' (n + le_sum pre)"
proof (induction acc ptr arbitrary: n rule: sum_quads.induct)
  case (1 acc a b c d e f g h ptr)
  let ?m = "unat a + 256 * unat b + (unat c + 256 * unat d) + (unat e + 256 * unat f + (unat g + 256 * unat h))"
  have "ones_rep (add_carry (add_carry acc (load32 a b c d)) (load32 e f g h)) (n + ?m)"
    using load32_rep[OF load32_rep[OF 1(2), of a b c d], of e f g h] by (simp only: add.assoc)
  from 1(1)[OF this] 1(3) obtain pre where "ptr = pre @ ptr'" "even (length pre)" "ones_rep acc' (n + ?m + le_sum pre)" by auto
  then show ?case by (intro exI[of _ "[a, b, c, d, e, f, g, h] @ pre"]) (simp add: add.assoc)
qed auto

lemma sum_words_rep:
  "\<lbrakk>ones_rep acc n; sum_words acc ptr = (acc', ptr')\<rbrakk> \<Longrightarrow>
     length ptr' \<le> 1 \<and> (\<exists>pre. ptr = pre @ ptr' \<and> even (length pre) \<and> ones_rep acc' (n + le_sum pre))"
proof (induction acc ptr arbitrary: n rule: sum_words.induct)
  case (1 acc a b ptr)
  have "ones_rep (add_carry acc (load16 a b)) (n + unat (load16 a b))" by (intro add_carry_rep 1)
  from 1(1)[OF this] 1(3) obtain pre where "length ptr' \<le> 1" "ptr = pre @ ptr'" "even (length pre)"
    "ones_rep acc' (n + unat (load16 a b) + le_sum pre)" by auto
  then show ?case by (auto simp: unat_load16 add.assoc intro!: exI[of _ "[a, b] @ pre"])
qed auto

lemma le_sum_append: "even (length xs) \<Longrightarrow> le_sum (xs @ ys) = le_sum xs + le_sum ys"
  by (induction xs rule: le_sum.induct) auto

text \<open>After the bytes \<open>bs\<close>: all of them are summed up but an odd last one.\<close>

definition cksum_rep :: "u32 \<times> u8 option \<Rightarrow> u8 list \<Rightarrow> bool" where
  "cksum_rep st bs \<longleftrightarrow> (\<exists>cs. bs = cs @ (case snd st of None \<Rightarrow> [] | Some b \<Rightarrow> [b]) \<and> even (length cs) \<and>
     ones_rep (fst st) (le_sum cs))"

lemma cksum_iov_rep:
  assumes "cksum_rep st bs" shows "cksum_rep (cksum_iov st ptr) (bs @ ptr)"
proof (cases "ptr = []")
  case False
  obtain acc odd where st: "st = (acc, odd)" by (cases st)
  obtain cs where cs: "bs = cs @ (case odd of None \<Rightarrow> [] | Some b \<Rightarrow> [b])" "even (length cs)" "ones_rep acc (le_sum cs)"
    using assms by (auto simp: cksum_rep_def st)
  define acc1 ptr1 where "acc1 = (case odd of Some b \<Rightarrow> add_carry acc (load16 b (hd ptr)) | None \<Rightarrow> acc)"
    and "ptr1 = (case odd of Some b \<Rightarrow> tl ptr | None \<Rightarrow> ptr)"
  have "\<exists>cs1. bs @ ptr = cs1 @ ptr1 \<and> even (length cs1) \<and> ones_rep acc1 (le_sum cs1)"
  proof (cases odd)
    case None
    then show ?thesis using cs by (auto simp: acc1_def ptr1_def)
  next
    case (Some b)
    have "ones_rep acc1 (le_sum (cs @ [b, hd ptr]))"
      using add_carry_rep[OF cs(3), of "load16 b (hd ptr)"] cs(2) by (simp add: acc1_def Some unat_load16 le_sum_append)
    then show ?thesis using cs False by (intro exI[of _ "cs @ [b, hd ptr]"]) (simp add: Some ptr1_def)
  qed
  then obtain cs1 where cs1: "bs @ ptr = cs1 @ ptr1" "even (length cs1)" "ones_rep acc1 (le_sum cs1)" by blast
  obtain acc2 ptr2 where q: "sum_quads acc1 ptr1 = (acc2, ptr2)" by fastforce
  obtain p2 where p2: "ptr1 = p2 @ ptr2" "even (length p2)" "ones_rep acc2 (le_sum cs1 + le_sum p2)"
    using sum_quads_rep[OF cs1(3) q] by blast
  obtain acc3 ptr3 where w: "sum_words acc2 ptr2 = (acc3, ptr3)" by fastforce
  obtain p3 where p3: "length ptr3 \<le> 1" "ptr2 = p3 @ ptr3" "even (length p3)" "ones_rep acc3 (le_sum cs1 + le_sum p2 + le_sum p3)"
    using sum_words_rep[OF p2(3) w] by blast
  have "cksum_iov st ptr = (acc3, case ptr3 of [] \<Rightarrow> None | b # _ \<Rightarrow> Some b)"
    using False q w by (cases odd) (simp_all add: cksum_iov_def st acc1_def ptr1_def)
  moreover have "bs @ ptr = (cs1 @ p2 @ p3) @ ptr3" using cs1(1) p2(1) p3(2) by simp
  moreover have "ptr3 = (case case ptr3 of [] \<Rightarrow> None | b # _ \<Rightarrow> Some b of None \<Rightarrow> [] | Some b \<Rightarrow> [b])"
    using p3(1) by (cases ptr3) auto
  ultimately show ?thesis
    using cs1(2) p2(2) p3(3,4) by (auto simp: cksum_rep_def le_sum_append add.assoc intro!: exI[of _ "cs1 @ p2 @ p3"])
qed (use assms in \<open>simp add: cksum_iov_def\<close>)

lemma cksum_fold_rep: "cksum_rep st bs \<Longrightarrow> cksum_rep (foldl cksum_iov st iov) (bs @ concat iov)"
  by (induction iov arbitrary: st bs) (simp, metis cksum_iov_rep append.assoc concat.simps(2) foldl_Cons)

text \<open>The representative of a sum in one's complement arithmetic: 0 only for 0.\<close>

definition ones_norm :: "nat \<Rightarrow> nat" where
  "ones_norm n = (if n = 0 then 0 else if n mod 65535 = 0 then 65535 else n mod 65535)"

lemma unat_not16: "unat (NOT x) = 65535 - unat x" for x :: u16
proof -
  have "NOT x = (- 1) - x" by (simp add: not_eq_complement)
  moreover have "x \<le> - 1" by (rule word_order.extremum)
  moreover have "unat (- 1 :: u16) = 65535" by (simp add: unsigned_minus_1_eq_mask mask_eq_exp_minus_1)
  ultimately show ?thesis by (simp add: unat_sub)
qed

lemma fold16:
  assumes "ones_rep acc n"
  defines "s1 \<equiv> drop_bit 16 acc + (acc AND 0xffff)"
  shows "unat (ucast (NOT (s1 + drop_bit 16 s1)) :: u16) = 65535 - ones_norm n"
proof -
  have d: "unat (drop_bit 16 x) = unat x div 65536" for x :: u32 by (simp add: unat_drop_bit)
  have "acc AND 0xffff = take_bit 16 acc" by (simp add: take_bit_eq_mask mask_eq_exp_minus_1)
  then have a: "unat (acc AND 0xffff) = unat acc mod 65536" by (simp only: unsigned_take_bit_eq) (simp add: take_bit_eq_mod)
  define q r where "q = unat acc div 65536" and "r = unat acc mod 65536"
  have qr: "unat acc = q * 65536 + r" "q < 65536" "r < 65536"
    using u32_bound[of acc] by (auto simp: q_def r_def less_mult_imp_div_less)
  have s1: "unat s1 = q + r" using qr by (simp add: s1_def d a unat_word_ariths flip: q_def r_def)
  let ?c = "(q + r) div 65536"
  have s2: "unat (s1 + drop_bit 16 s1) = q + r + ?c" using qr s1 by (simp add: d unat_word_ariths)
  have v: "unat (ucast (s1 + drop_bit 16 s1) :: u16) = (q + r + ?c) mod 65536"
    unfolding s2[symmetric] by (simp add: unsigned_ucast_eq take_bit_eq_mod)
  have "(q + r + ?c) mod 65536 = ones_norm n"
  proof -
    have m: "n mod 65535 = (q + r) mod 65535"
    proof -
      have "unat acc = q + r + q * 65535" using qr(1) by simp
      then have "unat acc mod 65535 = (q + r) mod 65535" by (simp only: mod_mult_self1)
      then show ?thesis using assms(1) by (simp add: ones_rep_def)
    qed
    have z: "n = 0 \<longleftrightarrow> q + r = 0" using assms(1) qr(1) by (auto simp: ones_rep_def simp flip: unat_eq_zero)
    consider "q + r < 65535" | "q + r = 65535" | "65535 < q + r" "q + r < 131070" | "q + r = 131070" using qr(2,3) by linarith
    then show ?thesis
    proof cases
      case 3
      then have "?c = 1" by simp
      moreover have "(q + r) mod 65535 = q + r - 65535" using 3 by (simp add: mod_if)
      moreover have "(q + r + 1) mod 65536 = q + r - 65535"
      proof -
        have "q + r + 1 = (q + r - 65535) + 65536" using 3 by linarith
        then have "(q + r + 1) mod 65536 = (q + r - 65535) mod 65536" by (simp only: mod_add_self2)
        then show ?thesis using 3 by simp
      qed
      ultimately show ?thesis using 3 m z by (simp add: ones_norm_def)
    qed (use m z in \<open>auto simp: ones_norm_def\<close>)
  qed
  moreover have "unat (ucast (NOT w) :: u16) = 65535 - unat (ucast w :: u16)" for w :: u32
  proof -
    have "(ucast (NOT w) :: u16) = NOT (ucast w)" by (rule bit_word_eqI) (simp add: bit_unsigned_iff bit_not_iff)
    then show ?thesis by (simp add: unat_not16)
  qed
  ultimately show ?thesis using v by simp
qed

lemma in_cksumv_norm: "unat (in_cksumv iov) = 65535 - ones_norm (le_sum (concat iov))"
proof -
  have "cksum_rep (0, None) []" by (simp add: cksum_rep_def ones_rep_def)
  then have r: "cksum_rep (foldl cksum_iov (0, None) iov) (concat iov)" using cksum_fold_rep by fastforce
  obtain acc odd where st: "foldl cksum_iov (0, None) iov = (acc, odd)" by fastforce
  define acc1 where "acc1 = (case odd of Some b \<Rightarrow> add_carry acc (load16 b 0) | None \<Rightarrow> acc)"
  obtain cs where cs: "concat iov = cs @ (case odd of None \<Rightarrow> [] | Some b \<Rightarrow> [b])" "even (length cs)" "ones_rep acc (le_sum cs)"
    using r by (auto simp: cksum_rep_def st)
  have "ones_rep acc1 (le_sum (concat iov))"
    using cs add_carry_rep[OF cs(3), of "load16 (the odd) 0"]
    by (cases odd) (simp_all add: acc1_def le_sum_append unat_load16)
  from fold16[OF this] show ?thesis by (simp add: in_cksumv_def st acc1_def Let_def)
qed

lemma ones_norm_le: "ones_norm n \<le> 65535"
  by (simp add: ones_norm_def less_imp_le)

lemma ones_norm_mod: "ones_norm n mod 65535 = n mod 65535"
  by (simp add: ones_norm_def)

subsection \<open>Properties of the Internet checksum\<close>

text \<open>C32: \<open>in_cksumv\<close> is the one's complement of the one's complement sum of the 16-bit words of the data,
  with an odd last byte padded by 0, however the data are spread over the vector.\<close>

theorem in_cksumv_sum:
  "unat (NOT (in_cksumv iov)) = ones_norm (le_sum (concat iov)) \<and> in_cksumv iov = in_cksumv [concat iov]"
proof -
  have "unat (NOT (in_cksumv iov)) = ones_norm (le_sum (concat iov))"
    using in_cksumv_norm[of iov] ones_norm_le[of "le_sum (concat iov)"] by (simp add: unat_not16)
  moreover have "unat (in_cksumv iov) = unat (in_cksumv [concat iov])" by (simp add: in_cksumv_norm)
  ultimately show ?thesis by (simp add: word_unat_eq_iff)
qed

text \<open>C33: A packet whose checksum field, at an even position, is first 0 and then filled with the checksum of the
  packet has the checksum 0.\<close>

theorem in_cksumv_verifies:
  assumes "even (length pre)" "c = in_cksumv [pre @ [0, 0] @ post]"
  shows "in_cksumv [pre @ [ucast c, ucast (drop_bit 8 c)] @ post] = 0"
proof -
  let ?n = "le_sum (pre @ [0, 0] @ post)"
  have c: "unat c = 65535 - ones_norm ?n" using in_cksumv_norm[of "[pre @ [0, 0] @ post]"] assms(2) by simp
  have b: "unat (ucast c :: u8) + 256 * unat (ucast (drop_bit 8 c) :: u8) = unat c"
  proof -
    have "unat (drop_bit 8 c) = unat c div 256" by (simp add: unat_div drop_bit_eq_div)
    moreover have "unat c < 65536" using unsigned_less[of c] by simp
    ultimately show ?thesis by (simp add: unsigned_ucast_eq take_bit_eq_mod)
  qed
  have "le_sum (pre @ [ucast c, ucast (drop_bit 8 c)] @ post) = ?n + unat c"
    using assms(1) b by (simp add: le_sum_append)
  moreover have "ones_norm (?n + unat c) = 65535"
  proof -
    have "(?n + unat c) mod 65535 = (ones_norm ?n + unat c) mod 65535" by (metis mod_add_left_eq ones_norm_mod)
    also have "\<dots> = 0" using c ones_norm_le[of ?n] by simp
    finally have "(?n + unat c) mod 65535 = 0" .
    moreover have "?n + unat c \<noteq> 0" using c by (auto simp: ones_norm_def)
    ultimately show ?thesis by (simp add: ones_norm_def)
  qed
  ultimately have "unat (in_cksumv [pre @ [ucast c, ucast (drop_bit 8 c)] @ post]) = 0" by (simp add: in_cksumv_norm)
  then show ?thesis by (simp add: unat_eq_zero)
qed

theorem in_cksumv_verifies_witness:
  "in_cksumv [[0x45, 0] @ [ucast (in_cksumv [[0x45, 0] @ [0, 0] @ [7]]), ucast (drop_bit 8 (in_cksumv [[0x45, 0] @ [0, 0] @ [7]]))] @ [7]] = 0"
  using in_cksumv_verifies[of "[0x45, 0]" _ "[7]"] by simp

subsection \<open>The Fletcher checksum\<close>

definition cint :: "int \<Rightarrow> int option" where
  "cint i = (if - 2147483648 \<le> i \<and> i \<le> 2147483647 then Some i else None)"

text \<open>The remainder of C, with the sign of the dividend.\<close>

definition crem :: "int \<Rightarrow> int \<Rightarrow> int" where
  "crem a b = (if a < 0 then - ((- a) mod b) else a mod b)"

definition htons :: "u16 \<Rightarrow> u16" where
  "htons w = push_bit 8 w OR drop_bit 8 w"

definition FLETCHER_CHECKSUM_VALIDATE :: u16 where
  "FLETCHER_CHECKSUM_VALIDATE = 0xffff"

definition MODX :: nat where
  "MODX = 4102"

text \<open>The inner loop, over at most \<^const>\<open>MODX\<close> bytes.\<close>

fun fletcher_partial :: "nat \<Rightarrow> u8 list \<Rightarrow> int \<Rightarrow> int \<Rightarrow> (u8 list \<times> int \<times> int) option" where
  "fletcher_partial 0 p c0 c1 = Some (p, c0, c1)"
| "fletcher_partial (Suc n) [] c0 c1 = None"
| "fletcher_partial (Suc n) (b # p) c0 c1 =
     do { c0 \<leftarrow> cint (c0 + int (unat b));
          c1 \<leftarrow> cint (c1 + c0);
          fletcher_partial n p c0 c1 }"

function fletcher_loop :: "nat \<Rightarrow> u8 list \<Rightarrow> int \<Rightarrow> int \<Rightarrow> (int \<times> int) option" where
  "fletcher_loop left p c0 c1 =
     (if left = 0 then Some (c0, c1)
      else let partial_len = min left MODX
           in do { (p, c0, c1) \<leftarrow> fletcher_partial partial_len p c0 c1;
                   fletcher_loop (left - partial_len) p (crem c0 255) (crem c1 255) })"
  by pat_completeness auto
termination
  by (relation "measure (\<lambda>(left, _). left)") (auto simp: MODX_def)

declare fletcher_loop.simps [simp del]

text \<open>The two check bytes; the cast keeps the low 32 bits of the product.\<close>

definition fletcher_xy :: "u64 \<Rightarrow> u16 \<Rightarrow> int \<Rightarrow> int \<Rightarrow> int \<times> int" where
  "fletcher_xy len offset c0 c1 =
     (let x = crem (sint (ucast ((len - ucast offset - 1) * of_int c0 - of_int c1) :: u32)) 255;
          x = (if x \<le> 0 then x + 255 else x);
          y = 510 - c0 - x;
          y = (if y > 255 then y - 255 else y)
      in (x, y))"

definition fletcher_checksum :: "u8 list \<Rightarrow> u64 \<Rightarrow> u16 \<Rightarrow> (u16 \<times> u8 list) option" where
  "fletcher_checksum buffer len offset =
     do { let off = unat offset;
          buffer \<leftarrow>
            (if offset \<noteq> FLETCHER_CHECKSUM_VALIDATE then
               do { cassert (ucast offset < len - 1);
                    cassert (off + 1 < length buffer);
                    Some (buffer[off := 0, off + 1 := 0]) }
             else Some buffer);
          (c0, c1) \<leftarrow> fletcher_loop (unat len) buffer 0 0;
          let (x, y) = fletcher_xy len offset c0 c1;
          if offset = FLETCHER_CHECKSUM_VALIDATE then Some (of_int (c1 * 256 + c0), buffer)
          else Some (htons (of_int (x * 256) OR (of_int y AND 0xff)),
                     buffer[off := of_int x, off + 1 := of_int y]) }"

subsection \<open>The sums it takes\<close>

definition byte_sum :: "u8 list \<Rightarrow> int" where
  "byte_sum bs = (\<Sum>b\<leftarrow>bs. int (unat b))"

fun weighted_sum :: "u8 list \<Rightarrow> int" where
  "weighted_sum [] = 0"
| "weighted_sum (b # bs) = int (length (b # bs)) * int (unat b) + weighted_sum bs"

lemma byte_sum_simps [simp]:
  "byte_sum [] = 0" "byte_sum (b # bs) = int (unat b) + byte_sum bs" "byte_sum (bs @ cs) = byte_sum bs + byte_sum cs"
  by (simp_all add: byte_sum_def)

lemma weighted_sum_append: "weighted_sum (bs @ cs) = weighted_sum bs + int (length cs) * byte_sum bs + weighted_sum cs"
  by (induction bs) (simp_all add: algebra_simps)

lemma crem_nonneg: "0 \<le> a \<Longrightarrow> crem a b = a mod b"
  by (simp add: crem_def)

lemma mod_lin: "(a mod m + n * (b mod m) + c) mod m = (a + n * b + c) mod (m :: int)"
  by (intro mod_add_cong mod_mult_cong) simp_all

lemma cint_ok: "- 2147483648 \<le> i \<Longrightarrow> i \<le> 2147483647 \<Longrightarrow> cint i = Some i"
  by (simp add: cint_def)

lemma fletcher_partial_ok:
  assumes "n \<le> length p" "n + j \<le> 4102" "0 \<le> c0" "c0 \<le> 254 + 255 * int j" "0 \<le> c1"
    "2 * c1 \<le> 508 + 508 * int j + 255 * int j * (int j + 1)"
  shows "fletcher_partial n p c0 c1 =
    Some (drop n p, c0 + byte_sum (take n p), c1 + int n * c0 + weighted_sum (take n p))"
  using assms
proof (induction n arbitrary: p c0 c1 j)
  case (Suc n)
  obtain b q where p: "p = b # q" using Suc.prems(1) by (cases p) auto
  let ?b = "int (unat b)"
  have "unat b \<le> 255" using u8_bound[of b] by simp
  then have "int (unat b) \<le> int 255" by (simp only: of_nat_le_iff)
  then have b: "0 \<le> ?b" "?b \<le> 255" by simp_all
  have j: "int j \<le> 4101" using Suc.prems(2) by simp
  have c0: "0 \<le> c0 + ?b" "c0 + ?b \<le> 254 + 255 * int (Suc j)" using Suc.prems(3,4) b by simp_all
  have "255 * int j * (int j + 1) \<le> 255 * 4101 * 4102"
    by (intro mult_mono) (use j in auto)
  then have c1: "0 \<le> c1 + (c0 + ?b)" "c1 + (c0 + ?b) \<le> 2147483647" using Suc.prems(5,6) c0 j by simp_all
  have c1': "2 * (c1 + (c0 + ?b)) \<le> 508 + 508 * int (Suc j) + 255 * int (Suc j) * (int (Suc j) + 1)"
    using Suc.prems(6) c0(2) by (simp add: algebra_simps)
  have "fletcher_partial n q (c0 + ?b) (c1 + (c0 + ?b)) =
      Some (drop n q, c0 + ?b + byte_sum (take n q), c1 + (c0 + ?b) + int n * (c0 + ?b) + weighted_sum (take n q))"
    by (rule Suc.IH[where j = "Suc j"]) (use Suc.prems p c0 c1 c1' in auto)
  moreover have "length q \<ge> n" using Suc.prems(1) p by simp
  ultimately show ?case using c0 c1 j by (simp add: p cint_ok algebra_simps)
qed simp

lemma fletcher_loop_ok:
  "\<lbrakk>n = length p; 0 \<le> c0; c0 \<le> 254; 0 \<le> c1; c1 \<le> 254\<rbrakk> \<Longrightarrow>
     fletcher_loop n p c0 c1 = Some ((c0 + byte_sum p) mod 255, (c1 + int n * c0 + weighted_sum p) mod 255)"
proof (induction n p c0 c1 rule: fletcher_loop.induct)
  case (1 left p c0 c1)
  show ?case
  proof (cases "left = 0")
    case True
    then show ?thesis using 1 by (simp add: fletcher_loop.simps)
  next
    case False
    define k where "k = min left MODX"
    let ?p = "take k p" and ?q = "drop k p"
    have k: "k \<le> left" "k \<le> 4102" by (auto simp: k_def MODX_def)
    have part: "fletcher_partial k p c0 c1 = Some (?q, c0 + byte_sum ?p, c1 + int k * c0 + weighted_sum ?p)"
      by (rule fletcher_partial_ok[where j = 0]) (use 1 k in auto)
    have pos: "0 \<le> byte_sum bs" "0 \<le> weighted_sum bs" for bs by (induction bs) auto
    let ?c0 = "(c0 + byte_sum ?p) mod 255" and ?c1 = "(c1 + int k * c0 + weighted_sum ?p) mod 255"
    have rem: "crem (c0 + byte_sum ?p) 255 = ?c0" "crem (c1 + int k * c0 + weighted_sum ?p) 255 = ?c1"
      by (intro crem_nonneg add_nonneg_nonneg mult_nonneg_nonneg; use pos[of ?p] 1(3,5) in simp)+
    have run: "fletcher_loop left p c0 c1 = fletcher_loop (left - k) ?q ?c0 ?c1"
      using False part rem by (subst fletcher_loop.simps) (simp add: k_def Let_def)
    have "fletcher_loop (left - k) ?q ?c0 ?c1 = Some ((?c0 + byte_sum ?q) mod 255,
        (?c1 + int (left - k) * ?c0 + weighted_sum ?q) mod 255)"
      using 1(1)[OF False k_def part refl] 1(2) rem by simp
    moreover have "(?c0 + byte_sum ?q) mod 255 = (c0 + byte_sum p) mod 255"
      using byte_sum_simps(3)[of ?p ?q] by (simp add: mod_add_left_eq add.assoc)
    moreover have "(?c1 + int (left - k) * ?c0 + weighted_sum ?q) mod 255 = (c1 + int left * c0 + weighted_sum p) mod 255"
    proof -
      have "weighted_sum p = weighted_sum ?p + int (left - k) * byte_sum ?p + weighted_sum ?q"
        using weighted_sum_append[of ?p ?q] 1(2) by simp
      then have "c1 + int left * c0 + weighted_sum p =
          c1 + int k * c0 + weighted_sum ?p + int (left - k) * (c0 + byte_sum ?p) + weighted_sum ?q"
        using k(1) by (simp add: algebra_simps of_nat_diff)
      then show ?thesis by (simp only: mod_lin)
    qed
    ultimately show ?thesis by (simp only: run)
  qed
qed

subsection \<open>Properties of the Fletcher checksum\<close>

lemma mod255_range: "0 \<le> i mod 255 \<and> i mod 255 \<le> (254 :: int)"
  using pos_mod_bound[of 255 i] by simp

lemma fletcher_validate:
  assumes "length buf < 2 ^ 64"
  shows "fletcher_checksum buf (of_nat (length buf)) FLETCHER_CHECKSUM_VALIDATE =
    Some (of_int (weighted_sum buf mod 255 * 256 + byte_sum buf mod 255), buf)"
proof -
  have "unat (of_nat (length buf) :: u64) = length buf" using assms by (simp add: unat_of_nat)
  then have "fletcher_loop (unat (of_nat (length buf) :: u64)) buf 0 0 = Some (byte_sum buf mod 255, weighted_sum buf mod 255)"
    using fletcher_loop_ok[of "length buf" buf 0 0] by simp
  then show ?thesis by (simp add: fletcher_checksum_def Let_def split_beta del: unat_of_nat)
qed

lemma of_int_u16_0: "0 \<le> i \<Longrightarrow> i < 65536 \<Longrightarrow> (of_int i :: u16) = 0 \<longleftrightarrow> i = 0"
  using word_of_int_eq_iff[of i 0, where ?'a = 16] by (simp add: take_bit_int_eq_self)

lemma validate_zero:
  "(of_int (weighted_sum buf mod 255 * 256 + byte_sum buf mod 255) :: u16) = 0 \<longleftrightarrow>
     weighted_sum buf mod 255 = 0 \<and> byte_sum buf mod 255 = 0"
proof -
  let ?i = "weighted_sum buf mod 255 * 256 + byte_sum buf mod 255"
  have r: "0 \<le> ?i" "?i < 65536" using mod255_range[of "weighted_sum buf"] mod255_range[of "byte_sum buf"] by simp_all
  have "(of_int ?i :: u16) = 0 \<longleftrightarrow> ?i = 0" using of_int_u16_0[OF r] .
  also have "\<dots> \<longleftrightarrow> weighted_sum buf mod 255 = 0 \<and> byte_sum buf mod 255 = 0"
    using mod255_range[of "weighted_sum buf"] mod255_range[of "byte_sum buf"] by auto
  finally show ?thesis .
qed

text \<open>The two check bytes: the solution of the two congruences in the range of 1 to 255.\<close>

definition check_x :: "int \<Rightarrow> int" where
  "check_x i = (let x = crem i 255 in if x \<le> 0 then x + 255 else x)"

definition check_y :: "int \<Rightarrow> int \<Rightarrow> int" where
  "check_y c0 x = (let y = 510 - c0 - x in if y > 255 then y - 255 else y)"

lemma check_x: "1 \<le> check_x i \<and> check_x i \<le> 255 \<and> check_x i mod 255 = i mod 255"
proof (cases "i < 0")
  case True
  have r: "0 \<le> (- i) mod 255" "(- i) mod 255 \<le> 254" using mod255_range by blast+
  have "check_x i = 255 - (- i) mod 255" using True r by (simp add: check_x_def crem_def)
  moreover have "(255 - (- i) mod 255) mod 255 = i mod 255"
    by (metis mod_diff_right_eq minus_add_distrib add.inverse_inverse diff_minus_eq_add mod_add_self1)
  ultimately show ?thesis using r by simp
next
  case False
  then show ?thesis using mod255_range[of i] by (auto simp: check_x_def crem_def Let_def)
qed

lemma check_y:
  assumes "0 \<le> c0" "c0 \<le> 254" "1 \<le> x" "x \<le> 255"
  shows "1 \<le> check_y c0 x \<and> check_y c0 x \<le> 255 \<and> (c0 + x + check_y c0 x) mod 255 = 0"
  using assms by (auto simp: check_y_def Let_def)

lemma list_zero_pair:
  assumes "o1 + 1 < length buf"
  shows "buf[o1 := a, o1 + 1 := b] = take o1 buf @ [a, b] @ drop (o1 + 2) buf"
proof -
  have "buf = take o1 buf @ buf ! o1 # buf ! (o1 + 1) # drop (o1 + 2) buf"
    using assms by (simp add: Cons_nth_drop_Suc)
  then have "buf[o1 := a, o1 + 1 := b] = (take o1 buf @ buf ! o1 # buf ! (o1 + 1) # drop (o1 + 2) buf)[o1 := a, o1 + 1 := b]"
    by simp
  also have "\<dots> = take o1 buf @ [a, b] @ drop (o1 + 2) buf" using assms by (simp add: list_update_append)
  finally show ?thesis .
qed

lemma sint_u32: "- 2147483648 \<le> i \<Longrightarrow> i < 2147483648 \<Longrightarrow> sint (of_int i :: u32) = i"
  using signed_take_bit_int_eq_self_iff[of 31 i] by (simp add: sint_sbintrunc')

lemma fletcher_x:
  fixes n :: nat
  assumes "n < 8388608" "o1 + 1 < n" "0 \<le> c0" "c0 \<le> 254" "0 \<le> c1" "c1 \<le> 254"
  shows "sint (ucast ((of_nat n - of_nat o1 - 1 :: u64) * of_int c0 - of_int c1) :: u32) = int (n - o1 - 1) * c0 - c1"
proof -
  let ?i = "int (n - o1 - 1) * c0 - c1"
  have "(of_nat n - of_nat o1 - 1 :: u64) * of_int c0 - of_int c1 = of_int ?i"
    using assms(2) by (simp add: of_nat_diff algebra_simps)
  then have u: "(ucast ((of_nat n - of_nat o1 - 1 :: u64) * of_int c0 - of_int c1) :: u32) = of_int ?i"
    using ucast_down_wi[where ?'a = 64 and ?'b = 32, of ?i] by (simp only:) (simp add: is_down)
  have "int (n - o1 - 1) * c0 \<le> 8388608 * 254" by (rule mult_mono) (use assms in auto)
  moreover have "0 \<le> int (n - o1 - 1) * c0" using assms(3) by simp
  ultimately show ?thesis unfolding u by (intro sint_u32) (use assms(5,6) in linarith)+
qed

lemma unat_check_byte: "1 \<le> i \<Longrightarrow> i \<le> 255 \<Longrightarrow> int (unat (of_int i :: u8)) = i"
  by (simp add: uint_word_of_int_eq take_bit_int_eq_self)

lemma fletcher_sums:
  assumes "length A = o1" "n = length (A @ [0, 0] @ B)"
    and x: "1 \<le> x" "x \<le> 255" "x mod 255 = (int (n - o1 - 1) * c0 - c1) mod 255"
    and y: "1 \<le> y" "y \<le> 255" "(c0 + x + y) mod 255 = 0"
    and c: "c0 = byte_sum (A @ [0, 0] @ B) mod 255" "c1 = weighted_sum (A @ [0, 0] @ B) mod 255"
  shows "byte_sum (A @ [of_int x, of_int y] @ B) mod 255 = 0" "weighted_sum (A @ [of_int x, of_int y] @ B) mod 255 = 0"
proof -
  let ?S = "byte_sum (A @ [0, 0] @ B)" and ?W = "weighted_sum (A @ [0, 0] @ B)" and ?k = "int (length B)"
  have bx: "uint (of_int x :: u8) = x" "uint (of_int y :: u8) = y" using unat_check_byte x(1,2) y(1,2) by simp_all
  have S: "byte_sum (A @ [of_int x, of_int y] @ B) = ?S + x + y" by (simp add: bx)
  have "(?S + x + y) mod 255 = (c0 + x + y) mod 255" unfolding c(1) by (simp only: add.assoc mod_add_left_eq)
  then show "byte_sum (A @ [of_int x, of_int y] @ B) mod 255 = 0" unfolding S using y(3) by simp
  have W: "weighted_sum (A @ [of_int x, of_int y] @ B) = ?W + (?k + 2) * x + (?k + 1) * y"
    by (simp add: weighted_sum_append bx algebra_simps)
  have k: "int (n - o1 - 1) = ?k + 1" using assms(1,2) by simp
  have "255 dvd x - ((?k + 1) * c0 - c1)" using x(3) unfolding k by (simp add: mod_eq_dvd_iff)
  then obtain u where u: "x = (?k + 1) * c0 - c1 + 255 * u" by (metis add.commute diff_add_cancel dvdE)
  obtain v where v: "c0 + x + y = 255 * v" using y(3) by (auto simp: mod_eq_0_iff_dvd)
  have "c1 + (?k + 2) * x + (?k + 1) * y = c1 + x - (?k + 1) * c0 + (?k + 1) * (c0 + x + y)" by (simp add: algebra_simps)
  also have "\<dots> = 255 * (u + (?k + 1) * v)" using u v by (simp add: algebra_simps)
  finally have "(c1 + (?k + 2) * x + (?k + 1) * y) mod 255 = 0" by simp
  moreover have "(?W + (?k + 2) * x + (?k + 1) * y) mod 255 = (c1 + (?k + 2) * x + (?k + 1) * y) mod 255"
    unfolding c(2) by (simp only: add.assoc mod_add_left_eq)
  ultimately show "weighted_sum (A @ [of_int x, of_int y] @ B) mod 255 = 0" unfolding W by simp
qed

lemma fletcher_checksum_ok:
  assumes n: "length buf < 8388608" and off: "unat off + 1 < length buf" "off \<noteq> FLETCHER_CHECKSUM_VALIDATE"
  obtains cs x y where
    "fletcher_checksum buf (of_nat (length buf)) off = Some (cs, take (unat off) buf @ [of_int x, of_int y] @ drop (unat off + 2) buf)"
    "byte_sum (take (unat off) buf @ [of_int x, of_int y] @ drop (unat off + 2) buf) mod 255 = 0"
    "weighted_sum (take (unat off) buf @ [of_int x, of_int y] @ drop (unat off + 2) buf) mod 255 = 0"
    "1 \<le> x" "x \<le> 255" "1 \<le> y" "y \<le> 255"
proof -
  let ?o = "unat off" and ?n = "length buf" and ?len = "of_nat (length buf) :: u64"
  let ?A = "take ?o buf" and ?B = "drop (?o + 2) buf"
  define buf0 where "buf0 = ?A @ [0, 0] @ ?B"
  have upd: "buf[?o := a, ?o + 1 := b] = ?A @ [a, b] @ ?B" for a b by (rule list_zero_pair[OF off(1)])
  have l0: "length buf0 = ?n" using off(1) by (simp add: buf0_def)
  define c0 c1 where "c0 = byte_sum buf0 mod 255" and "c1 = weighted_sum buf0 mod 255"
  have c: "0 \<le> c0" "c0 \<le> 254" "0 \<le> c1" "c1 \<le> 254" using mod255_range unfolding c0_def c1_def by blast+
  have un: "unat ?len = ?n" using n by (simp add: unat_of_nat)
  have loop: "fletcher_loop (unat ?len) buf0 0 0 = Some (c0, c1)"
    using fletcher_loop_ok[of "length buf0" buf0 0 0] l0 un by (simp add: c0_def c1_def)
  have uo: "(ucast off :: u64) = of_nat ?o" by (simp add: of_nat_unat)
  have "unat (?len - 1) = ?n - 1" using un off(1) by (subst unat_minus_one) (auto simp: unat_eq_zero[symmetric])
  moreover have "unat (ucast off :: u64) = ?o" using off(1) n unfolding uo unat_of_nat by simp
  ultimately have lt: "ucast off < ?len - 1" using off(1) by (simp add: word_less_nat_alt)
  let ?i = "int (?n - ?o - 1) * c0 - c1"
  have si: "sint (ucast ((?len - ucast off - 1) * of_int c0 - of_int c1) :: u32) = ?i"
    unfolding uo by (rule fletcher_x[OF n off(1) c])
  define x y where "x = check_x ?i" and "y = check_y c0 x"
  have x: "1 \<le> x" "x \<le> 255" "x mod 255 = ?i mod 255" using check_x by (auto simp: x_def)
  have y: "1 \<le> y" "y \<le> 255" "(c0 + x + y) mod 255 = 0" using check_y[OF c(1,2) x(1,2)] by (auto simp: y_def)
  have xy: "fletcher_xy ?len off c0 c1 = (x, y)"
    unfolding fletcher_xy_def si x_def y_def check_x_def check_y_def Let_def ..
  have "buf[?o := 0, Suc ?o := 0] = buf0" "Suc ?o < ?n" using upd[of 0 0] off(1) by (simp_all add: buf0_def)
  then have "\<exists>cs. fletcher_checksum buf ?len off = Some (cs, buf0[?o := of_int x, ?o + 1 := of_int y])"
    using off(2) lt loop xy by (simp add: fletcher_checksum_def Let_def)
  moreover have "buf0[?o := of_int x, ?o + 1 := of_int y] = ?A @ [of_int x, of_int y] @ ?B"
    using list_zero_pair[of ?o buf0] l0 off(1) by (simp add: buf0_def)
  moreover have "byte_sum (?A @ [of_int x, of_int y] @ ?B) mod 255 = 0" "weighted_sum (?A @ [of_int x, of_int y] @ ?B) mod 255 = 0"
    using fletcher_sums[OF _ l0[symmetric, unfolded buf0_def] x y c0_def[unfolded buf0_def] c1_def[unfolded buf0_def]] off(1)
    by simp_all
  ultimately show ?thesis using that x(1,2) y(1,2) by metis
qed

text \<open>C34: A packet of at most \<open>2 ^ 23\<close> bytes into which \<open>fletcher_checksum\<close> has written its two bytes is accepted
  by the validation: it returns 0. The accumulators never overflow, the check bytes are never 0, and
  no other byte of the packet changes.\<close>

theorem fletcher_checksum_validates:
  assumes "length buf < 8388608" "unat off + 1 < length buf" "off \<noteq> FLETCHER_CHECKSUM_VALIDATE"
  shows "\<exists>cs x y. x \<noteq> 0 \<and> y \<noteq> 0 \<and>
    fletcher_checksum buf (of_nat (length buf)) off = Some (cs, take (unat off) buf @ [x, y] @ drop (unat off + 2) buf) \<and>
    fletcher_checksum (take (unat off) buf @ [x, y] @ drop (unat off + 2) buf) (of_nat (length buf)) FLETCHER_CHECKSUM_VALIDATE =
      Some (0, take (unat off) buf @ [x, y] @ drop (unat off + 2) buf)"
proof -
  obtain cs x y where r:
    "fletcher_checksum buf (of_nat (length buf)) off = Some (cs, take (unat off) buf @ [of_int x, of_int y] @ drop (unat off + 2) buf)"
    "byte_sum (take (unat off) buf @ [of_int x, of_int y] @ drop (unat off + 2) buf) mod 255 = 0"
    "weighted_sum (take (unat off) buf @ [of_int x, of_int y] @ drop (unat off + 2) buf) mod 255 = 0"
    "1 \<le> x" "x \<le> 255" "1 \<le> y" "y \<le> 255"
    by (rule fletcher_checksum_ok[OF assms])
  let ?buf = "take (unat off) buf @ [of_int x, of_int y] @ drop (unat off + 2) buf"
  have l: "length ?buf = length buf" using assms(2) by simp
  have v: "fletcher_checksum ?buf (of_nat (length buf)) FLETCHER_CHECKSUM_VALIDATE = Some (0, ?buf)"
    using fletcher_validate[of ?buf] validate_zero[of ?buf] r(2,3) assms(1) unfolding l by simp
  have "(of_int x :: u8) \<noteq> 0" "(of_int y :: u8) \<noteq> 0"
    using unat_check_byte[OF r(4,5)] unat_check_byte[OF r(6,7)] r(4,6) by auto
  then show ?thesis using r(1) v by blast
qed

theorem fletcher_checksum_validates_witness:
  "\<exists>cs x y. x \<noteq> 0 \<and> y \<noteq> 0 \<and> fletcher_checksum [1, 2, 3, 4, 5] 5 2 = Some (cs, [1, 2, x, y, 5]) \<and>
     fletcher_checksum [1, 2, x, y, 5] 5 FLETCHER_CHECKSUM_VALIDATE = Some (0, [1, 2, x, y, 5])"
  using fletcher_checksum_validates[of "[1, 2, 3, 4, 5]" 2] by (simp add: FLETCHER_CHECKSUM_VALIDATE_def)



lemma fletcher_partial_len: "fletcher_partial n p c0 c1 = Some r \<Longrightarrow> n \<le> length p"
  by (induction n p c0 c1 rule: fletcher_partial.induct) (auto split: bind_splits)

lemma fletcher_partial_exact:
  "fletcher_partial n p c0 c1 = Some (q, d0, d1) \<Longrightarrow>
     d1 = c1 + int n * c0 + weighted_sum (take n p) \<and> (0 < n \<longrightarrow> d1 \<le> 2147483647)"
proof (induction n p c0 c1 rule: fletcher_partial.induct)
  case (3 n b p c0 c1)
  let ?b = "int (unat b)"
  have a: "cint (c0 + ?b) = Some (c0 + ?b)" "cint (c1 + (c0 + ?b)) = Some (c1 + (c0 + ?b))" "c1 + (c0 + ?b) \<le> 2147483647"
    using 3(2) by (auto simp: cint_def split: if_splits)
  then have r: "fletcher_partial n p (c0 + ?b) (c1 + (c0 + ?b)) = Some (q, d0, d1)" using 3(2) by simp
  then have "n \<le> length p" using fletcher_partial_len by blast
  then show ?case using 3(1)[OF a(1,2) r] a(3) by (cases n) (auto simp: algebra_simps)
qed auto

lemma weighted_sum_replicate: "2 * weighted_sum (replicate n b) = int (unat b) * int n * (int n + 1)"
  by (induction n) (simp_all add: algebra_simps)


end
