(* ===== verification/Spf_Backoff.thy ===== *)
theory Spf_Backoff
  imports Frr_Prelude
begin

text \<open>
  The SPF delay algorithm of \<^verbatim>\<open>lib/spf_backoff.c\<close> that OSPF and IS-IS share: a state machine driven by the
  topology events and two timers, with the part of \<^verbatim>\<open>lib/event.c\<close> it uses. Times are in milliseconds; a
  pending timer is its deadline on the monotonic clock.
\<close>

subsection \<open>Timers\<close>

text \<open>\<^verbatim>\<open>event_add_timer_msec\<close>: an event that is already scheduled is left alone.\<close>

definition event_add_timer_msec :: "int \<Rightarrow> int \<Rightarrow> int option \<Rightarrow> int option" where
  "event_add_timer_msec now timer t = (if t \<noteq> None then t else Some (now + timer))"

definition event_cancel :: "int option \<Rightarrow> int option" where
  "event_cancel t = None"

subsection \<open>The state machine\<close>

datatype spf_backoff_state = SPF_BACKOFF_QUIET | SPF_BACKOFF_SHORT_WAIT | SPF_BACKOFF_LONG_WAIT

record spf_backoff =
  init_delay :: int
  short_delay :: int
  long_delay :: int
  holddown :: int
  timetolearn :: int
  bo_state :: spf_backoff_state
  t_holddown :: "int option"
  t_timetolearn :: "int option"
  first_event_time :: "int option"
  last_event_time :: "int option"

fun spf_backoff_state2str :: "spf_backoff_state \<Rightarrow> string" where
  "spf_backoff_state2str SPF_BACKOFF_QUIET = ''QUIET''"
| "spf_backoff_state2str SPF_BACKOFF_SHORT_WAIT = ''SHORT_WAIT''"
| "spf_backoff_state2str SPF_BACKOFF_LONG_WAIT = ''LONG_WAIT''"

definition spf_backoff_new :: "int \<Rightarrow> int \<Rightarrow> int \<Rightarrow> int \<Rightarrow> int \<Rightarrow> spf_backoff" where
  "spf_backoff_new i s l h t =
     \<lparr>init_delay = i, short_delay = s, long_delay = l, holddown = h, timetolearn = t,
      bo_state = SPF_BACKOFF_QUIET, t_holddown = None, t_timetolearn = None,
      first_event_time = None, last_event_time = None\<rparr>"

text \<open>The timer callbacks. When an event runs, the event loop has cleared the pointer to it.\<close>

definition spf_backoff_timetolearn_elapsed :: "spf_backoff \<Rightarrow> spf_backoff" where
  "spf_backoff_timetolearn_elapsed b = b\<lparr>t_timetolearn := None, bo_state := SPF_BACKOFF_LONG_WAIT\<rparr>"

definition spf_backoff_holddown_elapsed :: "spf_backoff \<Rightarrow> spf_backoff" where
  "spf_backoff_holddown_elapsed b =
     b\<lparr>t_holddown := None, t_timetolearn := event_cancel (t_timetolearn b),
       first_event_time := None, bo_state := SPF_BACKOFF_QUIET\<rparr>"

text \<open>A topology event, at a time of the monotonic clock and of the wall clock.\<close>

definition spf_backoff_schedule :: "int \<Rightarrow> int \<Rightarrow> spf_backoff \<Rightarrow> int \<times> spf_backoff" where
  "spf_backoff_schedule mtime now b =
     (let b = b\<lparr>last_event_time := Some now\<rparr>
      in case bo_state b of
           SPF_BACKOFF_QUIET \<Rightarrow>
             (init_delay b,
              b\<lparr>bo_state := SPF_BACKOFF_SHORT_WAIT,
                t_timetolearn := event_add_timer_msec mtime (timetolearn b) (t_timetolearn b),
                t_holddown := event_add_timer_msec mtime (holddown b) (t_holddown b),
                first_event_time := Some now\<rparr>)
         | _ \<Rightarrow>
             (if bo_state b = SPF_BACKOFF_SHORT_WAIT then short_delay b else long_delay b,
              b\<lparr>t_holddown := event_add_timer_msec mtime (holddown b) (event_cancel (t_holddown b))\<rparr>))"

subsection \<open>Runs\<close>

text \<open>
  A run: the clock advances, topology events come, and the event loop runs a timer at or after its
  deadline. The history records when the current series of events began and when its last one came.
\<close>

record run =
  clock :: int
  backoff :: spf_backoff
  series_start :: int
  last_event :: int

inductive spf_step :: "run \<Rightarrow> run \<Rightarrow> bool" where
  tick: "0 \<le> d \<Longrightarrow> spf_step r (r\<lparr>clock := clock r + d\<rparr>)"
| topology: "spf_backoff_schedule (clock r) now (backoff r) = (delay, b) \<Longrightarrow>
    spf_step r (r\<lparr>backoff := b, last_event := clock r,
      series_start := (if bo_state (backoff r) = SPF_BACKOFF_QUIET then clock r else series_start r)\<rparr>)"
| learned: "t_timetolearn (backoff r) = Some t \<Longrightarrow> t \<le> clock r \<Longrightarrow>
    spf_step r (r\<lparr>backoff := spf_backoff_timetolearn_elapsed (backoff r)\<rparr>)"
| held: "t_holddown (backoff r) = Some t \<Longrightarrow> t \<le> clock r \<Longrightarrow>
    spf_step r (r\<lparr>backoff := spf_backoff_holddown_elapsed (backoff r)\<rparr>)"

inductive_cases spf_stepE: "spf_step r r'"

definition spf_start :: "int \<Rightarrow> spf_backoff \<Rightarrow> run" where
  "spf_start now b = \<lparr>clock = now, backoff = b, series_start = now, last_event = now\<rparr>"

text \<open>Which timers are pending in which state, and until when.\<close>

fun timers_ok :: "run \<Rightarrow> bool" where
  "timers_ok r = (case bo_state (backoff r) of
     SPF_BACKOFF_QUIET \<Rightarrow> t_holddown (backoff r) = None \<and> t_timetolearn (backoff r) = None
   | SPF_BACKOFF_SHORT_WAIT \<Rightarrow>
       t_holddown (backoff r) = Some (last_event r + holddown (backoff r)) \<and>
       t_timetolearn (backoff r) = Some (series_start r + timetolearn (backoff r))
   | SPF_BACKOFF_LONG_WAIT \<Rightarrow>
       t_holddown (backoff r) = Some (last_event r + holddown (backoff r)) \<and> t_timetolearn (backoff r) = None \<and>
       series_start r + timetolearn (backoff r) \<le> clock r)"

definition run_ok :: "run \<Rightarrow> bool" where
  "run_ok r \<longleftrightarrow> timers_ok r \<and> series_start r \<le> last_event r \<and> last_event r \<le> clock r"

lemmas spf_defs = spf_backoff_schedule_def spf_backoff_timetolearn_elapsed_def spf_backoff_holddown_elapsed_def
  event_add_timer_msec_def event_cancel_def Let_def

lemma spf_step_ok: "spf_step r r' \<Longrightarrow> run_ok r \<Longrightarrow> run_ok r'"
  by (induction rule: spf_step.induct)
     (auto simp: run_ok_def spf_defs split: spf_backoff_state.splits)

lemma spf_step_params:
  "spf_step r r' \<Longrightarrow> holddown (backoff r') = holddown (backoff r) \<and> timetolearn (backoff r') = timetolearn (backoff r) \<and>
     init_delay (backoff r') = init_delay (backoff r) \<and> short_delay (backoff r') = short_delay (backoff r) \<and>
     long_delay (backoff r') = long_delay (backoff r)"
  by (induction rule: spf_step.induct) (auto simp: spf_defs split: spf_backoff_state.splits)

lemma spf_reach_ok: "spf_step\<^sup>*\<^sup>* r r' \<Longrightarrow> run_ok r \<Longrightarrow> run_ok r'"
  by (induction rule: rtranclp_induct) (auto intro: spf_step_ok)

lemma spf_reach_params:
  "spf_step\<^sup>*\<^sup>* r r' \<Longrightarrow> holddown (backoff r') = holddown (backoff r) \<and> timetolearn (backoff r') = timetolearn (backoff r) \<and>
     init_delay (backoff r') = init_delay (backoff r) \<and> short_delay (backoff r') = short_delay (backoff r) \<and>
     long_delay (backoff r') = long_delay (backoff r)"
  by (induction rule: rtranclp_induct) (auto dest: spf_step_params)

lemma spf_start_ok: "run_ok (spf_start now (spf_backoff_new i s l h t))"
  by (simp add: run_ok_def spf_start_def spf_backoff_new_def)

subsection \<open>Properties\<close>

text \<open>C37: In every reachable state the hold-down timer is pending exactly when the machine is not quiet, for the
  configured time after the last topology event, and the time-to-learn timer exactly while it is in the short wait
  state, for the configured time after the first event of the series.\<close>

theorem spf_backoff_timers:
  assumes "spf_step\<^sup>*\<^sup>* (spf_start now (spf_backoff_new i s l h t)) r"
  shows "(t_holddown (backoff r) = None \<longleftrightarrow> bo_state (backoff r) = SPF_BACKOFF_QUIET) \<and>
    t_holddown (backoff r) \<in> {None, Some (last_event r + h)} \<and>
    (t_timetolearn (backoff r) = None \<longleftrightarrow> bo_state (backoff r) \<noteq> SPF_BACKOFF_SHORT_WAIT) \<and>
    t_timetolearn (backoff r) \<in> {None, Some (series_start r + t)}"
proof -
  have "run_ok r" using spf_reach_ok[OF assms spf_start_ok] .
  moreover have "holddown (backoff r) = h" "timetolearn (backoff r) = t"
    using spf_reach_params[OF assms] by (simp_all add: spf_start_def spf_backoff_new_def)
  ultimately show ?thesis by (auto simp: run_ok_def split: spf_backoff_state.splits)
qed

definition run0 :: run where
  "run0 = spf_start 0 (spf_backoff_new 50 200 5000 10000 500)"

definition run1 :: run where
  "run1 = run0\<lparr>backoff := snd (spf_backoff_schedule 0 7 (backoff run0))\<rparr>"

lemma run1_reached: "spf_step\<^sup>*\<^sup>* run0 run1"
proof -
  have "spf_step run0 (run0\<lparr>backoff := snd (spf_backoff_schedule 0 7 (backoff run0)), last_event := 0, series_start := 0\<rparr>)"
    using spf_step.topology[of run0 7] by (simp add: run0_def spf_start_def spf_defs spf_backoff_new_def)
  then show ?thesis by (simp add: run1_def run0_def spf_start_def r_into_rtranclp)
qed

theorem spf_backoff_timers_witness:
  "t_holddown (backoff run1) = Some 10000 \<and> t_timetolearn (backoff run1) = Some 500"
  using spf_backoff_timers[OF run1_reached[unfolded run0_def]]
  by (auto simp: run1_def run0_def spf_start_def spf_backoff_new_def spf_defs)

text \<open>C38: A topology event is answered with the initial delay in the quiet state, the short delay in the short wait
  state and the long delay in the long wait state; it starts the machine from the quiet state, restarts the
  hold-down time and changes nothing else.\<close>

theorem spf_backoff_schedule_delay:
  assumes "spf_step\<^sup>*\<^sup>* (spf_start t0 (spf_backoff_new i s l h t)) r"
    "spf_backoff_schedule (clock r) now (backoff r) = (delay, b)"
  shows "delay = (case bo_state (backoff r) of SPF_BACKOFF_QUIET \<Rightarrow> i | SPF_BACKOFF_SHORT_WAIT \<Rightarrow> s | SPF_BACKOFF_LONG_WAIT \<Rightarrow> l) \<and>
    bo_state b = (if bo_state (backoff r) = SPF_BACKOFF_QUIET then SPF_BACKOFF_SHORT_WAIT else bo_state (backoff r)) \<and>
    t_holddown b = Some (clock r + h) \<and>
    t_timetolearn b = (if bo_state (backoff r) = SPF_BACKOFF_QUIET then Some (clock r + t) else t_timetolearn (backoff r))"
proof -
  have "run_ok r" using spf_reach_ok[OF assms(1) spf_start_ok] .
  moreover note spf_reach_params[OF assms(1)]
  ultimately show ?thesis using assms(2)
    by (auto simp: run_ok_def spf_start_def spf_backoff_new_def spf_defs split: spf_backoff_state.splits)
qed

theorem spf_backoff_schedule_delay_witness:
  "fst (spf_backoff_schedule 0 9 (backoff run1)) = 200"
proof -
  obtain d b where db: "spf_backoff_schedule (clock run1) 9 (backoff run1) = (d, b)" by fastforce
  have c: "clock run1 = 0" "bo_state (backoff run1) = SPF_BACKOFF_SHORT_WAIT"
    by (simp_all add: run1_def run0_def spf_start_def spf_backoff_new_def spf_defs)
  show ?thesis using spf_backoff_schedule_delay[OF run1_reached[unfolded run0_def] db] db c by simp
qed

text \<open>C39: The machine gives the long delay only when events have been coming in for at least the time to learn since
  the series began, and it returns to the quiet state only when no event has come for the hold-down time.\<close>

theorem spf_backoff_no_early_change:
  assumes "spf_step\<^sup>*\<^sup>* (spf_start t0 (spf_backoff_new i s l h t)) r" "spf_step r r'"
  shows "(bo_state (backoff r') = SPF_BACKOFF_LONG_WAIT \<longrightarrow> series_start r' + t \<le> clock r') \<and>
    (bo_state (backoff r') = SPF_BACKOFF_QUIET \<longrightarrow> bo_state (backoff r) = SPF_BACKOFF_QUIET \<or> last_event r' + h \<le> clock r')"
proof -
  have ok: "run_ok r" using spf_reach_ok[OF assms(1) spf_start_ok] .
  have "run_ok r'" using spf_step_ok[OF assms(2) ok] .
  moreover note spf_reach_params[OF assms(1)] spf_step_params[OF assms(2)]
  moreover have "bo_state (backoff r') = SPF_BACKOFF_QUIET \<Longrightarrow> bo_state (backoff r) = SPF_BACKOFF_QUIET \<or> last_event r' + h \<le> clock r'"
    using assms(2) ok spf_reach_params[OF assms(1)]
    by (cases rule: spf_stepE)
       (auto simp: run_ok_def spf_start_def spf_backoff_new_def spf_defs split: spf_backoff_state.splits)
  ultimately show ?thesis by (auto simp: run_ok_def spf_start_def spf_backoff_new_def)
qed

theorem spf_backoff_no_early_change_witness:
  "\<exists>r'. spf_step run1 r' \<and> clock r' = 3 \<and> bo_state (backoff r') \<noteq> SPF_BACKOFF_LONG_WAIT"
proof -
  have st: "spf_step run1 (run1\<lparr>clock := clock run1 + 3\<rparr>)" by (rule spf_step.tick) simp
  have "clock run1 = 0" "series_start run1 = 0" by (simp_all add: run1_def run0_def spf_start_def)
  then show ?thesis using spf_backoff_no_early_change[OF run1_reached[unfolded run0_def] st] st by auto
qed



end
