(* ===== verification/Frr_Vector.thy ===== *)
theory Frr_Vector
  imports Frr_Prelude
begin

text \<open>
  The dynamic array of lib/vector.c. A slot holds a pointer or NULL (\<open>None\<close>); \<open>v_index\<close> is the
  allocated memory, of which the first \<open>v_active\<close> slots are in use. The counters are C's
  \<^verbatim>\<open>unsigned int\<close>: sums and differences are taken modulo \<open>2 ^ 32\<close>. An access outside of the
  allocated memory is \<open>None\<close>.
\<close>

subsection \<open>State and operations\<close>

record 'a vec =
  v_active :: nat
  v_alloced :: nat
  v_count :: nat
  v_dynamic :: bool
  v_index :: "'a option list"

definition uint_add :: "nat \<Rightarrow> nat \<Rightarrow> nat" where
  "uint_add a b = (a + b) mod 2 ^ 32"

definition uint_dec :: "nat \<Rightarrow> nat" where
  "uint_dec a = (if a = 0 then 2 ^ 32 - 1 else a - 1)"

definition nth_opt :: "'a list \<Rightarrow> nat \<Rightarrow> 'a option" where
  "nth_opt xs i = (if i < length xs then Some (xs ! i) else None)"

definition vector_init :: "nat \<Rightarrow> 'a vec" where
  "vector_init n =
     (let n = (if n = 0 then 1 else n)
      in \<lparr>v_active = 0, v_alloced = n, v_count = 0, v_dynamic = True, v_index = replicate n None\<rparr>)"

text \<open>A vector whose \<open>v_alloced\<close> is 0 may use a constant array: it is copied to the heap first. In
  the other case the memory is reallocated. \<^verbatim>\<open>memset\<close> with a wrapped length fails.\<close>

definition vector_ensure :: "'a vec \<Rightarrow> nat \<Rightarrow> 'a vec option" where
  "vector_ensure v num =
     (if v_alloced v > num then Some v
      else (let newsz = max (v_active v * 2 mod 2 ^ 32) (uint_add num 1);
                v = (if v_alloced v = 0 \<and> v_index v \<noteq> []
                     then v\<lparr>v_index := take (v_active v) (v_index v), v_alloced := v_active v\<rparr> else v)
            in do { cassert (v_alloced v \<le> newsz);
                    Some (v\<lparr>v_index := take (v_alloced v) (v_index v) @ replicate (newsz - v_alloced v) None,
                            v_alloced := newsz\<rparr>) }))"

fun empty_scan :: "nat \<Rightarrow> nat \<Rightarrow> 'a option list \<Rightarrow> nat option" where
  "empty_scan 0 i idx = Some i"
| "empty_scan (Suc n) i idx =
     do { x \<leftarrow> nth_opt idx i; if x = None then Some i else empty_scan n (Suc i) idx }"

definition vector_empty_slot :: "'a vec \<Rightarrow> nat option" where
  "vector_empty_slot v =
     (if v_active v = v_count v then Some (v_active v)
      else if v_active v = 0 then Some 0
      else empty_scan (v_active v) 0 (v_index v))"

definition vector_set_index :: "'a vec \<Rightarrow> nat \<Rightarrow> 'a option \<Rightarrow> (nat \<times> 'a vec) option" where
  "vector_set_index v i val =
     do { v \<leftarrow> vector_ensure v i;
          old \<leftarrow> nth_opt (v_index v) i;
          let v = (if old \<noteq> None then v\<lparr>v_count := uint_dec (v_count v)\<rparr> else v);
          let v = (if val \<noteq> None then v\<lparr>v_count := uint_add (v_count v) 1\<rparr> else v);
          let v = v\<lparr>v_index := (v_index v)[i := val]\<rparr>;
          let v = (if v_active v \<le> i then v\<lparr>v_active := uint_add i 1\<rparr> else v);
          Some (i, v) }"

definition vector_set :: "'a vec \<Rightarrow> 'a option \<Rightarrow> (nat \<times> 'a vec) option" where
  "vector_set v val =
     do { i \<leftarrow> vector_empty_slot v;
          v \<leftarrow> vector_ensure v i;
          old \<leftarrow> nth_opt (v_index v) i;
          let v = (if old \<noteq> None then v\<lparr>v_count := uint_dec (v_count v)\<rparr> else v);
          let v = (if val \<noteq> None then v\<lparr>v_count := uint_add (v_count v) 1\<rparr> else v);
          let v = v\<lparr>v_index := (v_index v)[i := val]\<rparr>;
          let v = (if v_active v \<le> i then v\<lparr>v_active := uint_add i 1\<rparr> else v);
          Some (i, v) }"

definition vector_lookup :: "'a vec \<Rightarrow> nat \<Rightarrow> 'a option option" where
  "vector_lookup v i = (if i \<ge> v_active v then Some None else nth_opt (v_index v) i)"

definition vector_lookup_ensure :: "'a vec \<Rightarrow> nat \<Rightarrow> ('a option \<times> 'a vec) option" where
  "vector_lookup_ensure v i = do { v \<leftarrow> vector_ensure v i; x \<leftarrow> nth_opt (v_index v) i; Some (x, v) }"

text \<open>The loop of \<^verbatim>\<open>vector_unset\<close>, from slot \<open>i\<close> downwards, and the one of \<^verbatim>\<open>vector_unset_value\<close>.\<close>

fun unset_trim :: "nat \<Rightarrow> nat \<Rightarrow> 'a option list \<Rightarrow> nat option" where
  "unset_trim 0 act idx = Some act"
| "unset_trim (Suc i) act idx =
     do { x \<leftarrow> nth_opt idx i;
          if x \<noteq> None then Some act
          else if act = 0 then Some (uint_dec act)
          else unset_trim i (act - 1) idx }"

definition vector_unset :: "'a vec \<Rightarrow> nat \<Rightarrow> 'a vec option" where
  "vector_unset v i =
     (if i \<ge> v_active v then Some v
      else do { old \<leftarrow> nth_opt (v_index v) i;
                let v = (if old \<noteq> None then v\<lparr>v_count := uint_dec (v_count v)\<rparr> else v);
                let v = v\<lparr>v_index := (v_index v)[i := None]\<rparr>;
                if i + 1 = v_active v
                then do { act \<leftarrow> unset_trim i (v_active v - 1) (v_index v); Some (v\<lparr>v_active := act\<rparr>) }
                else Some v })"

definition vector_remove :: "'a vec \<Rightarrow> nat \<Rightarrow> 'a vec option" where
  "vector_remove v ix =
     (if ix \<ge> v_active v then Some v
      else do { old \<leftarrow> nth_opt (v_index v) ix;
                let v = (if old \<noteq> None then v\<lparr>v_count := uint_dec (v_count v)\<rparr> else v);
                let act = v_active v - 1;
                cassert (act < length (v_index v));
                let idx = take ix (v_index v) @ take (act - ix) (drop (ix + 1) (v_index v)) @ drop act (v_index v);
                Some (v\<lparr>v_active := act, v_index := idx[act := None]\<rparr>) })"

lemma vector_remove_active: "vector_remove v ix = Some v' \<Longrightarrow> ix < v_active v \<Longrightarrow> v_active v' < v_active v"
  by (auto simp: vector_remove_def Let_def split: bind_splits if_splits)

function compact_from :: "nat \<Rightarrow> 'a vec \<Rightarrow> 'a vec option" where
  "compact_from i v =
     (if i < v_active v
      then (case nth_opt (v_index v) i of
              None \<Rightarrow> None
            | Some None \<Rightarrow> (case vector_remove v i of None \<Rightarrow> None | Some v' \<Rightarrow> compact_from i v')
            | Some (Some x) \<Rightarrow> compact_from (i + 1) v)
      else Some v)"
  by pat_completeness auto
termination
  by (relation "measure (\<lambda>(i, v). v_active v - i)") (auto dest: vector_remove_active)

declare compact_from.simps [simp del]

definition vector_compact :: "'a vec \<Rightarrow> 'a vec option" where
  "vector_compact v = compact_from 0 v"

fun value_scan :: "nat \<Rightarrow> nat \<Rightarrow> 'a option \<Rightarrow> 'a option list \<Rightarrow> nat option" where
  "value_scan 0 i val idx = Some i"
| "value_scan (Suc n) i val idx =
     do { x \<leftarrow> nth_opt idx i; if x = val then Some i else value_scan n (Suc i) val idx }"

fun value_trim :: "nat \<Rightarrow> nat \<Rightarrow> 'a option list \<Rightarrow> nat option" where
  "value_trim 0 act idx = Some (uint_dec act)"
| "value_trim (Suc i) act idx =
     do { x \<leftarrow> nth_opt idx i; if x = None then value_trim i (uint_dec act) idx else Some (uint_dec act) }"

definition vector_unset_value :: "'a vec \<Rightarrow> 'a option \<Rightarrow> 'a vec option" where
  "vector_unset_value v val =
     do { i \<leftarrow> value_scan (v_active v) 0 val (v_index v);
          let v = (if i < v_active v
                   then v\<lparr>v_count := uint_dec (v_count v), v_index := (v_index v)[i := None]\<rparr> else v);
          if i + 1 = v_active v
          then do { act \<leftarrow> value_trim i (v_active v) (v_index v); Some (v\<lparr>v_active := act\<rparr>) }
          else Some v }"

definition vector_to_array :: "'a vec \<Rightarrow> 'a option list option" where
  "vector_to_array v = do { cassert (v_active v \<le> length (v_index v)); Some (take (v_active v) (v_index v)) }"

fun set_from :: "nat \<Rightarrow> 'a option list \<Rightarrow> 'a vec \<Rightarrow> 'a vec option" where
  "set_from i [] v = Some v"
| "set_from i (x # xs) v = do { (j, v) \<leftarrow> vector_set_index v i x; set_from (Suc i) xs v }"

definition array_to_vector :: "'a option list \<Rightarrow> 'a vec option" where
  "array_to_vector src = set_from 0 src (vector_init 1)"

subsection \<open>Slots\<close>

definition vec_map :: "'a vec \<Rightarrow> nat \<rightharpoonup> 'a" where
  "vec_map v i = (if i < v_active v then v_index v ! i else None)"

definition vec_ok :: "'a vec \<Rightarrow> bool" where
  "vec_ok v \<longleftrightarrow> v_alloced v = length (v_index v) \<and> v_active v \<le> v_alloced v \<and> v_alloced v < 2 ^ 32 \<and>
     (\<forall>i < length (v_index v). v_active v \<le> i \<longrightarrow> v_index v ! i = None)"

definition n_used :: "'a option list \<Rightarrow> nat" where
  "n_used xs = length (filter (\<lambda>x. x \<noteq> None) xs)"

definition vec_counted :: "'a vec \<Rightarrow> bool" where
  "vec_counted v \<longleftrightarrow> v_count v = n_used (v_index v)"

definition vec_tight :: "'a vec \<Rightarrow> bool" where
  "vec_tight v \<longleftrightarrow> v_active v = 0 \<or> vec_map v (v_active v - 1) \<noteq> None"

lemma n_used_simps [simp]:
  "n_used [] = 0" "n_used (None # xs) = n_used xs" "n_used (Some x # xs) = Suc (n_used xs)"
  "n_used (xs @ ys) = n_used xs + n_used ys" "n_used (replicate n None) = 0"
  by (simp_all add: n_used_def)

lemma n_used_le: "n_used xs \<le> length xs"
  by (simp add: n_used_def)

lemma n_used_nth:
  assumes "i < length xs"
  shows "n_used xs = n_used (take i xs) + (if xs ! i \<noteq> None then 1 else 0) + n_used (drop (Suc i) xs)"
proof -
  have "n_used xs = n_used (take i xs @ xs ! i # drop (Suc i) xs)" by (simp flip: id_take_nth_drop[OF assms])
  then show ?thesis by (cases "xs ! i") simp_all
qed

lemma n_used_update:
  assumes "i < length xs"
  shows "n_used (xs[i := x]) = n_used xs - (if xs ! i \<noteq> None then 1 else 0) + (if x \<noteq> None then 1 else 0)"
  unfolding upd_conv_take_nth_drop[OF assms] n_used_nth[OF assms] by (cases x) simp_all

lemma n_used_pos: "i < length xs \<Longrightarrow> xs ! i \<noteq> None \<Longrightarrow> 0 < n_used xs"
  by (simp add: n_used_nth)

lemma nth_opt_simps [simp]: "i < length xs \<Longrightarrow> nth_opt xs i = Some (xs ! i)"
  by (simp add: nth_opt_def)

lemma vec_map_index: "vec_ok v \<Longrightarrow> i < length (v_index v) \<Longrightarrow> vec_map v i = v_index v ! i"
  by (auto simp: vec_map_def vec_ok_def)

lemma vec_map_Some: "vec_map v i \<noteq> None \<Longrightarrow> i < v_active v"
  by (auto simp: vec_map_def split: if_splits)

lemma vector_lookup_map: "vec_ok v \<Longrightarrow> vector_lookup v i = Some (vec_map v i)"
  by (auto simp: vector_lookup_def vec_map_def vec_ok_def)

lemma vec_ok_init: "n < 2 ^ 32 \<Longrightarrow> vec_ok (vector_init n) \<and> vec_counted (vector_init n) \<and> vec_map (vector_init n) = Map.empty"
  by (auto simp: vec_ok_def vec_counted_def vector_init_def Let_def vec_map_def)

lemma vector_ensure_ok:
  assumes ok: "vec_ok v" and n: "num < 2 ^ 31"
  shows "\<exists>v'. vector_ensure v num = Some v' \<and> vec_ok v' \<and> v_active v' = v_active v \<and> v_count v' = v_count v \<and>
    num < length (v_index v') \<and> vec_map v' = vec_map v \<and> n_used (v_index v') = n_used (v_index v)"
proof (cases "v_alloced v > num")
  case True
  then show ?thesis using ok by (auto simp: vector_ensure_def vec_ok_def)
next
  case False
  let ?sz = "max (v_active v * 2) (num + 1)"
  let ?v = "v\<lparr>v_index := v_index v @ replicate (?sz - v_alloced v) None, v_alloced := ?sz\<rparr>"
  have b: "v_active v * 2 < 2 ^ 32" "num + 1 < 2 ^ 32" "v_alloced v \<le> ?sz" "num < ?sz" using False n ok by (auto simp: vec_ok_def)
  have "vector_ensure v num = Some ?v"
    using False ok b by (auto simp: vector_ensure_def vec_ok_def uint_add_def Let_def)
  moreover have "vec_ok ?v" using ok b by (auto simp: vec_ok_def nth_append)
  moreover have "num < length (v_index ?v)" "n_used (v_index ?v) = n_used (v_index v)" using b ok by (auto simp: vec_ok_def)
  moreover have "vec_map ?v = vec_map v" using ok by (auto simp: vec_map_def fun_eq_iff nth_append vec_ok_def)
  ultimately show ?thesis by (intro exI[of _ ?v]) simp
qed

lemma uint_dec_pos [simp]: "0 < n \<Longrightarrow> uint_dec n = n - 1"
  by (simp add: uint_dec_def)

lemma uint_add_less [simp]: "a + b < 2 ^ 32 \<Longrightarrow> uint_add a b = a + b"
  by (simp add: uint_add_def)

lemma vector_set_index_ok:
  assumes ok: "vec_ok v" and i: "i < 2 ^ 31"
  shows "\<exists>v'. vector_set_index v i val = Some (i, v') \<and> vec_ok v' \<and> vec_map v' = (vec_map v)(i := val) \<and>
    v_active v' = max (v_active v) (Suc i) \<and> (vec_counted v \<longrightarrow> vec_counted v')"
proof -
  obtain w where w: "vector_ensure v i = Some w" "vec_ok w" "v_active w = v_active v" "v_count w = v_count v"
    "i < length (v_index w)" "vec_map w = vec_map v" "n_used (v_index w) = n_used (v_index v)"
    using vector_ensure_ok[OF ok i] by blast
  let ?c1 = "if v_index w ! i \<noteq> None then uint_dec (v_count w) else v_count w"
  let ?c2 = "if val \<noteq> None then uint_add ?c1 1 else ?c1"
  let ?v = "w\<lparr>v_count := ?c2, v_index := (v_index w)[i := val], v_active := max (v_active w) (Suc i)\<rparr>"
  have "uint_add i 1 = Suc i" using i by simp
  then have "vector_set_index v i val = Some (i, ?v)"
    using w(1,5) by (auto simp: vector_set_index_def Let_def max_def)
  moreover have "vec_ok ?v" using w(2,5) by (auto simp: vec_ok_def nth_list_update)
  moreover have "vec_map ?v = (vec_map v)(i := val)"
    unfolding w(6)[symmetric] using w(2,5) by (auto simp: vec_map_def fun_eq_iff nth_list_update vec_ok_def)
  moreover have "vec_counted ?v" if c: "vec_counted v"
  proof -
    have c': "v_count w = n_used (v_index w)" using c w(4,7) by (simp add: vec_counted_def)
    have "n_used (v_index w) < 2 ^ 32" using n_used_le[of "v_index w"] w(2) by (simp add: vec_ok_def)
    moreover have "Suc (n_used (v_index w)) < 2 ^ 32" if "v_index w ! i = None"
      using n_used_update[OF w(5), of "Some undefined"] n_used_le[of "(v_index w)[i := Some undefined]"] w(2) that
      by (auto simp: vec_ok_def)
    ultimately show ?thesis
      using n_used_update[OF w(5), of val] n_used_pos[OF w(5)] c' by (cases val) (auto simp: vec_counted_def)
  qed
  ultimately show ?thesis using w(3) by (intro exI[of _ ?v]) simp
qed

lemma vector_set_alt: "vector_set v val = do { i \<leftarrow> vector_empty_slot v; vector_set_index v i val }"
  by (simp add: vector_set_def vector_set_index_def)

lemma empty_scan_spec:
  assumes "i + n \<le> length idx"
  shows "\<exists>j. empty_scan n i idx = Some j \<and> i \<le> j \<and> j \<le> i + n \<and> (\<forall>k. i \<le> k \<and> k < j \<longrightarrow> idx ! k \<noteq> None) \<and>
    (j < i + n \<longrightarrow> idx ! j = None)"
  using assms
proof (induction n i idx rule: empty_scan.induct)
  case (2 n i idx)
  show ?case
  proof (cases "idx ! i = None")
    case False
    then obtain j where j: "empty_scan n (Suc i) idx = Some j" "Suc i \<le> j" "j \<le> Suc i + n" "\<forall>k. Suc i \<le> k \<and> k < j \<longrightarrow> idx ! k \<noteq> None"
      "j < Suc i + n \<longrightarrow> idx ! j = None" using 2 by fastforce
    have "idx ! k \<noteq> None" if "i \<le> k" "k < j" for k using that False j(4) by (cases "k = i") auto
    then show ?thesis using j 2(2) False by auto
  qed (use 2(2) in auto)
qed auto

lemma n_used_full: "n_used xs = length xs \<Longrightarrow> j < length xs \<Longrightarrow> xs ! j \<noteq> None"
  using n_used_nth[of j xs] n_used_le[of "take j xs"] n_used_le[of "drop (Suc j) xs"]
  by (simp split: if_splits)

lemma n_used_active: "vec_ok v \<Longrightarrow> n_used (v_index v) = n_used (take (v_active v) (v_index v))"
proof -
  assume ok: "vec_ok v"
  have "drop (v_active v) (v_index v) = replicate (length (v_index v) - v_active v) None"
    using ok by (intro nth_equalityI) (auto simp: vec_ok_def)
  then have "n_used (drop (v_active v) (v_index v)) = 0" by simp
  then show ?thesis by (metis add.right_neutral append_take_drop_id n_used_simps(4))
qed

lemma vector_empty_slot_ok:
  assumes ok: "vec_ok v"
  shows "\<exists>i. vector_empty_slot v = Some i \<and> i \<le> v_active v \<and> vec_map v i = None \<and>
    (vec_counted v \<longrightarrow> (\<forall>j < i. vec_map v j \<noteq> None))"
proof -
  consider (full) "v_active v = v_count v" | (none) "v_active v \<noteq> v_count v" "v_active v = 0"
    | (scan) "v_active v \<noteq> v_count v" "v_active v \<noteq> 0" by blast
  then show ?thesis
  proof cases
    case full
    have "vec_map v j \<noteq> None" if c: "vec_counted v" and j: "j < v_active v" for j
    proof -
      have "n_used (take (v_active v) (v_index v)) = length (take (v_active v) (v_index v))"
        using n_used_active[OF ok] c full ok by (simp add: vec_counted_def vec_ok_def)
      from n_used_full[OF this, of j] show ?thesis using j ok by (simp add: vec_map_def vec_ok_def)
    qed
    then show ?thesis using full by (simp add: vector_empty_slot_def vec_map_def)
  next
    case none
    then show ?thesis by (simp add: vector_empty_slot_def vec_map_def)
  next
    case scan
    have "0 + v_active v \<le> length (v_index v)" using ok by (simp add: vec_ok_def)
    from empty_scan_spec[OF this] obtain i where "empty_scan (v_active v) 0 (v_index v) = Some i" "i \<le> v_active v"
      "\<forall>k<i. v_index v ! k \<noteq> None" "i < v_active v \<longrightarrow> v_index v ! i = None" by auto
    then show ?thesis using scan by (auto simp: vector_empty_slot_def vec_map_def)
  qed
qed

lemma vector_set_ok:
  assumes ok: "vec_ok v" and a: "v_active v < 2 ^ 31"
  shows "\<exists>i v'. vector_set v val = Some (i, v') \<and> vec_ok v' \<and> vec_map v i = None \<and> vec_map v' = (vec_map v)(i := val) \<and>
    v_active v' = max (v_active v) (Suc i) \<and> i \<le> v_active v \<and>
    (vec_counted v \<longrightarrow> vec_counted v' \<and> (\<forall>j < i. vec_map v j \<noteq> None))"
proof -
  obtain i where i: "vector_empty_slot v = Some i" "i \<le> v_active v" "vec_map v i = None"
    "vec_counted v \<longrightarrow> (\<forall>j < i. vec_map v j \<noteq> None)" using vector_empty_slot_ok[OF ok] by blast
  have "i < 2 ^ 31" using i(2) a by linarith
  then obtain v' where "vector_set_index v i val = Some (i, v')" "vec_ok v'" "vec_map v' = (vec_map v)(i := val)"
    "v_active v' = max (v_active v) (Suc i)" "vec_counted v \<longrightarrow> vec_counted v'" using vector_set_index_ok[OF ok] by blast
  then show ?thesis using i by (auto simp: vector_set_alt)
qed

lemma unset_trim_spec:
  assumes "i \<le> act" "act \<le> length idx" "\<forall>k. i \<le> k \<and> k < act \<longrightarrow> idx ! k = None"
  shows "\<exists>a. unset_trim i i idx = Some a \<and> a \<le> i \<and> (\<forall>k. a \<le> k \<and> k < act \<longrightarrow> idx ! k = None) \<and> (a = 0 \<or> idx ! (a - 1) \<noteq> None)"
  using assms
proof (induction i)
  case (Suc i)
  show ?case
  proof (cases "idx ! i = None")
    case True
    then have "\<forall>k. i \<le> k \<and> k < act \<longrightarrow> idx ! k = None" using Suc.prems(3) by (metis le_eq_less_or_eq not_less_eq_eq le_antisym)
    then show ?thesis using Suc True by fastforce
  next
    case False
    then show ?thesis using Suc.prems by auto
  qed
qed auto

lemma vector_unset_ok:
  assumes ok: "vec_ok v"
  shows "\<exists>v'. vector_unset v i = Some v' \<and> vec_ok v' \<and> vec_map v' = (vec_map v)(i := None) \<and> v_active v' \<le> v_active v \<and>
    (vec_counted v \<longrightarrow> vec_counted v') \<and> (vec_tight v \<longrightarrow> vec_tight v')"
proof (cases "i < v_active v")
  case False
  then have "(vec_map v)(i := None) = vec_map v" by (auto simp: vec_map_def)
  then show ?thesis using False ok by (simp add: vector_unset_def)
next
  case True
  then have i: "i < length (v_index v)" using ok by (simp add: vec_ok_def)
  let ?c = "if v_index v ! i \<noteq> None then uint_dec (v_count v) else v_count v"
  let ?v = "v\<lparr>v_count := ?c, v_index := (v_index v)[i := None]\<rparr>"
  have ok1: "vec_ok ?v" using ok i by (auto simp: vec_ok_def nth_list_update)
  have map: "vec_map ?v = (vec_map v)(i := None)" using True i by (auto simp: vec_map_def fun_eq_iff nth_list_update)
  have cnt: "vec_counted v \<longrightarrow> vec_counted ?v"
    using n_used_update[OF i, of None] n_used_pos[OF i] by (auto simp: vec_counted_def)
  show ?thesis
  proof (cases "i + 1 = v_active v")
    case False
    have "vec_tight v \<longrightarrow> vec_tight ?v" using False True unfolding vec_tight_def map by auto
    then show ?thesis using True False i ok1 map cnt by (intro exI[of _ ?v]) (simp add: vector_unset_def Let_def)
  next
    case last: True
    have "\<forall>k. i \<le> k \<and> k < v_active v \<longrightarrow> (v_index v)[i := None] ! k = None" using last i by (auto simp: nth_list_update less_Suc_eq)
    then obtain a where a: "unset_trim i i ((v_index v)[i := None]) = Some a" "a \<le> i"
      "\<forall>k. a \<le> k \<and> k < v_active v \<longrightarrow> (v_index v)[i := None] ! k = None" "a = 0 \<or> (v_index v)[i := None] ! (a - 1) \<noteq> None"
      using unset_trim_spec[of i "v_active v" "(v_index v)[i := None]"] True ok by (auto simp: vec_ok_def)
    let ?w = "?v\<lparr>v_active := a\<rparr>"
    have e: "v_active v - Suc 0 = i" "\<not> v_active v \<le> i" using last by simp_all
    have "vector_unset v i = Some ?w"
      using i a(1) last unfolding vector_unset_def by (cases "v_index v ! i") (simp_all add: Let_def e)
    moreover have "v_index ?w ! k = None" if k: "k < length (v_index ?w)" "a \<le> k" for k
    proof (cases "k < v_active v")
      case False
      then show ?thesis using ok1 k(1) by (simp add: vec_ok_def)
    qed (use a(3) k(2) in simp)
    then have "vec_ok ?w" using ok1 a(2) True unfolding vec_ok_def by simp
    moreover have "vec_map ?w = (vec_map v)(i := None)" unfolding map[symmetric] using a(2,3) True by (auto simp: vec_map_def fun_eq_iff)
    moreover have "vec_tight ?w" using a(4) by (auto simp: vec_tight_def vec_map_def)
    ultimately show ?thesis using cnt a(2) True by (intro exI[of _ ?w]) (simp add: vec_counted_def)
  qed
qed

lemma vector_set_tight: "vec_tight v \<Longrightarrow> vec_map v' = (vec_map v)(i \<mapsto> x) \<Longrightarrow> v_active v' = max (v_active v) (Suc i) \<Longrightarrow> vec_tight v'"
  by (auto simp: vec_tight_def max_def)

subsection \<open>Removing and compacting\<close>

definition slots :: "'a vec \<Rightarrow> 'a option list" where
  "slots v = take (v_active v) (v_index v)"

lemma slots_simps [simp]: "vec_ok v \<Longrightarrow> length (slots v) = v_active v"
  by (simp add: slots_def vec_ok_def)

lemma nth_slots: "i < v_active v \<Longrightarrow> vec_ok v \<Longrightarrow> slots v ! i = vec_map v i"
  by (simp add: slots_def vec_map_def)

lemma unused_slots: "vec_ok v \<Longrightarrow> drop (v_active v) (v_index v) = replicate (length (v_index v) - v_active v) None"
  by (intro nth_equalityI) (auto simp: vec_ok_def)

lemma remove_slots:
  assumes ok: "vec_ok v" and i: "i < v_active v"
  shows "(take i (v_index v) @ take (v_active v - 1 - i) (drop (i + 1) (v_index v)) @ drop (v_active v - 1) (v_index v))[v_active v - 1 := None] =
    (take i (slots v) @ drop (Suc i) (slots v)) @ replicate (Suc (length (v_index v) - v_active v)) None" (is "?x[?n := None] = ?A @ _")
proof -
  have "?n < length (v_index v)" using i ok by (auto simp: vec_ok_def)
  from Cons_nth_drop_Suc[OF this] have "drop ?n (v_index v) = v_index v ! ?n # drop (v_active v) (v_index v)" using i by simp
  moreover have "take (?n - i) (drop (i + 1) (v_index v)) = drop (Suc i) (slots v)" using i by (simp add: slots_def take_drop)
  moreover have "take i (v_index v) = take i (slots v)" using i by (simp add: slots_def min_def)
  moreover have "length ?A = ?n" using i ok by simp
  ultimately have "?x[?n := None] = ?A @ None # drop (v_active v) (v_index v)" by (metis append_assoc list_update_length)
  then show ?thesis using unused_slots[OF ok] by simp
qed

lemma vector_remove_ok:
  assumes ok: "vec_ok v" and i: "i < v_active v"
  shows "\<exists>v'. vector_remove v i = Some v' \<and> vec_ok v' \<and> slots v' = take i (slots v) @ drop (Suc i) (slots v) \<and>
    (vec_counted v \<longrightarrow> vec_counted v')"
proof -
  define A where "A = take i (slots v) @ drop (Suc i) (slots v)"
  let ?n = "v_active v - 1" and ?x = "v_index v"
  let ?new = "A @ replicate (Suc (length ?x - v_active v)) None"
  have l: "i < length ?x" "v_active v \<le> length ?x" "v_alloced v = length ?x" "length ?x < 2 ^ 32" "?n < length ?x"
    using ok i by (auto simp: vec_ok_def)
  have A: "length A = ?n" using i ok by (simp add: A_def)
  let ?c = "if ?x ! i \<noteq> None then uint_dec (v_count v) else v_count v"
  let ?v = "v\<lparr>v_count := ?c, v_active := ?n, v_index := ?new\<rparr>"
  have "vector_remove v i = Some ?v"
    using i l(1,5) remove_slots[OF ok i, folded A_def] by (simp add: vector_remove_def Let_def)
  moreover have "vec_ok ?v" using A l i by (auto simp: vec_ok_def nth_append simp del: replicate_Suc)
  moreover have "slots ?v = A" using A by (simp add: slots_def)
  moreover have "vec_counted ?v" if c: "vec_counted v"
  proof -
    have "n_used ?x = n_used (slots v)" using n_used_active[OF ok] by (simp add: slots_def)
    moreover have "slots v ! i = ?x ! i" using i by (simp add: slots_def)
    moreover have "n_used ?new = n_used (take i (slots v)) + n_used (drop (Suc i) (slots v))" by (simp add: A_def)
    ultimately show ?thesis
      using c n_used_nth[of i "slots v"] n_used_pos[OF l(1)] i ok by (simp add: vec_counted_def)
  qed
  ultimately show ?thesis unfolding A_def by blast
qed

lemma compact_from_ok:
  assumes "vec_ok v" "i \<le> v_active v" "None \<notin> set (take i (slots v))"
  shows "\<exists>v'. compact_from i v = Some v' \<and> vec_ok v' \<and> slots v' = take i (slots v) @ filter (\<lambda>x. x \<noteq> None) (drop i (slots v)) \<and>
    (vec_counted v \<longrightarrow> vec_counted v')"
  using assms
proof (induction i v rule: compact_from.induct)
  case (1 i v)
  show ?case
  proof (cases "i < v_active v")
    case False
    then show ?thesis using 1(3,4) by (subst compact_from.simps) auto
  next
    case True
    have i: "nth_opt (v_index v) i = Some (slots v ! i)" using True 1(3) by (simp add: slots_def vec_ok_def)
    have d: "drop i (slots v) = slots v ! i # drop (Suc i) (slots v)" using True 1(3) by (simp add: Cons_nth_drop_Suc)
    show ?thesis
    proof (cases "slots v ! i")
      case None
      obtain w where w: "vector_remove v i = Some w" "vec_ok w" "slots w = take i (slots v) @ drop (Suc i) (slots v)"
        "vec_counted v \<longrightarrow> vec_counted w" using vector_remove_ok[OF 1(3) True] by blast
      have "v_active w = v_active v - 1" using arg_cong[OF w(3), of length] w(2) 1(3) True by simp
      then have le: "i \<le> v_active w" "take i (slots w) = take i (slots v)" "drop i (slots w) = drop (Suc i) (slots v)"
        using True w(3) 1(3) by auto
      have "\<exists>v'. compact_from i w = Some v' \<and> vec_ok v' \<and> slots v' = take i (slots w) @ filter (\<lambda>x. x \<noteq> None) (drop i (slots w)) \<and>
        (vec_counted w \<longrightarrow> vec_counted v')"
        by (rule 1(1)[OF True i None w(1) w(2) le(1)]) (use 1(5) le(2) in simp)
      then show ?thesis unfolding d le(2,3) using w(1,4) True i None by (subst compact_from.simps) auto
    next
      case (Some x)
      have "take (i + 1) (slots v) = take i (slots v) @ [slots v ! i]" using True 1(3) by (simp add: take_Suc_conv_app_nth)
      then show ?thesis
        using 1(2)[OF True i Some] 1(3,5) True i d Some by (subst compact_from.simps) auto
    qed
  qed
qed

lemma vector_compact_ok:
  "vec_ok v \<Longrightarrow> \<exists>v'. vector_compact v = Some v' \<and> vec_ok v' \<and> slots v' = filter (\<lambda>x. x \<noteq> None) (slots v) \<and> (vec_counted v \<longrightarrow> vec_counted v')"
  using compact_from_ok[of v 0] by (simp add: vector_compact_def)

subsection \<open>Values and arrays\<close>

lemma value_scan_spec:
  assumes "i + n \<le> length idx"
  shows "\<exists>j. value_scan n i val idx = Some j \<and> i \<le> j \<and> j \<le> i + n \<and> (\<forall>k. i \<le> k \<and> k < j \<longrightarrow> idx ! k \<noteq> val) \<and>
    (j < i + n \<longrightarrow> idx ! j = val)"
  using assms
proof (induction n i val idx rule: value_scan.induct)
  case (2 n i val idx)
  show ?case
  proof (cases "idx ! i = val")
    case False
    then obtain j where j: "value_scan n (Suc i) val idx = Some j" "Suc i \<le> j" "j \<le> Suc i + n" "\<forall>k. Suc i \<le> k \<and> k < j \<longrightarrow> idx ! k \<noteq> val"
      "j < Suc i + n \<longrightarrow> idx ! j = val" using 2 by fastforce
    have "idx ! k \<noteq> val" if "i \<le> k" "k < j" for k using that False j(4) by (cases "k = i") auto
    then show ?thesis using j 2(2) False by auto
  qed (use 2(2) in auto)
qed auto

text \<open>The two trimming loops do the same.\<close>

lemma value_trim_eq: "i < length idx \<Longrightarrow> value_trim i (Suc i) idx = unset_trim i i idx"
  by (induction i) auto

lemma vector_unset_value_eq:
  assumes ok: "vec_ok v"
  shows "(\<exists>i. vec_map v i = Some x \<and> (\<forall>j < i. vec_map v j \<noteq> Some x) \<and> vector_unset_value v (Some x) = vector_unset v i) \<or>
    Some x \<notin> set (slots v) \<and> vector_unset_value v (Some x) = Some v"
proof -
  have "0 + v_active v \<le> length (v_index v)" using ok by (simp add: vec_ok_def)
  from value_scan_spec[OF this, of "Some x"] obtain i where i: "value_scan (v_active v) 0 (Some x) (v_index v) = Some i" "i \<le> v_active v"
    "\<forall>k<i. v_index v ! k \<noteq> Some x" "i < v_active v \<longrightarrow> v_index v ! i = Some x" by auto
  show ?thesis
  proof (cases "i < v_active v")
    case True
    then have l: "i < length (v_index v)" using ok by (simp add: vec_ok_def)
    have "v_active v - Suc 0 = i" if "Suc i = v_active v" using that by simp
    then have "vector_unset_value v (Some x) = vector_unset v i"
      using True i(1,4) l value_trim_eq[of i "(v_index v)[i := None]"]
      by (cases "Suc i = v_active v") (simp_all add: vector_unset_value_def vector_unset_def Let_def)
    moreover have "vec_map v i = Some x" "\<forall>j < i. vec_map v j \<noteq> Some x" using True i(3,4) by (auto simp: vec_map_def)
    ultimately show ?thesis by blast
  next
    case False
    then have "Some x \<notin> set (slots v)" using i(2,3) by (auto simp: slots_def in_set_conv_nth)
    then show ?thesis using False i(1,2) by (simp add: vector_unset_value_def)
  qed
qed

lemma set_from_ok:
  assumes "vec_ok v" "v_active v = i" "i + length xs < 2 ^ 31"
  shows "\<exists>v'. set_from i xs v = Some v' \<and> vec_ok v' \<and> slots v' = slots v @ xs \<and> (vec_counted v \<longrightarrow> vec_counted v')"
  using assms
proof (induction xs arbitrary: i v)
  case (Cons x xs)
  have "i < 2 ^ 31" using Cons.prems(3) by simp
  then obtain w where w: "vector_set_index v i x = Some (i, w)" "vec_ok w" "vec_map w = (vec_map v)(i := x)" "v_active w = Suc i"
    "vec_counted v \<longrightarrow> vec_counted w" using vector_set_index_ok[OF Cons.prems(1), of i x] Cons.prems(2) by auto
  have "slots w = slots v @ [x]"
  proof (rule nth_equalityI)
    fix k assume "k < length (slots w)"
    then show "slots w ! k = (slots v @ [x]) ! k"
      using w(2,3,4) Cons.prems(1,2) nth_slots[of k w] nth_slots[of k v] by (auto simp: nth_append)
  qed (use w(2,4) Cons.prems(1,2) in simp)
  then show ?case using Cons.IH[OF w(2,4)] Cons.prems(3) w(1,5) by auto
qed simp

lemma array_to_vector_ok:
  "length xs < 2 ^ 31 \<Longrightarrow> \<exists>v. array_to_vector xs = Some v \<and> vec_ok v \<and> vec_counted v \<and> slots v = xs"
  using set_from_ok[of "vector_init 1" 0 xs] vec_ok_init[of 1]
  by (auto simp: array_to_vector_def vector_init_def slots_def)

subsection \<open>Names in slots\<close>

text \<open>
  What the users of a vector rely on: a value goes into some free slot, clearing a slot leaves
  the others alone, and the slots in use lie below a limit up to which the users search.
\<close>

locale slot_store =
  fixes ok :: "'v \<Rightarrow> bool" and at :: "'v \<Rightarrow> nat \<rightharpoonup> 'a" and used :: "'v \<Rightarrow> nat" and room :: nat
    and put :: "'v \<Rightarrow> 'a \<Rightarrow> (nat \<times> 'v) option" and clear :: "'v \<Rightarrow> nat \<Rightarrow> 'v option"
  assumes put: "ok v \<Longrightarrow> used v < room \<Longrightarrow>
      \<exists>i v'. put v x = Some (i, v') \<and> ok v' \<and> at v i = None \<and> at v' = (at v)(i \<mapsto> x) \<and> used v' \<le> Suc (used v)"
    and clear: "ok v \<Longrightarrow> \<exists>v'. clear v i = Some v' \<and> ok v' \<and> at v' = (at v)(i := None) \<and> used v' \<le> used v"
    and used: "ok v \<Longrightarrow> at v i \<noteq> None \<Longrightarrow> i < used v"
begin

definition holds :: "'v \<Rightarrow> 'a set \<Rightarrow> bool" where
  "holds v A \<longleftrightarrow> ok v \<and> A = ran (at v) \<and> (\<forall>i j x. at v i = Some x \<longrightarrow> at v j = Some x \<longrightarrow> i = j)"

lemma holds_put:
  assumes h: "holds v A" and x: "x \<notin> A" and r: "used v < room"
  shows "\<exists>i v'. put v x = Some (i, v') \<and> holds v' (insert x A) \<and> used v' \<le> Suc (used v)"
proof -
  have ok: "ok v" and A: "A = ran (at v)" and u: "\<And>i j y. at v i = Some y \<Longrightarrow> at v j = Some y \<Longrightarrow> i = j"
    using h unfolding holds_def by blast+
  obtain i v' where v: "put v x = Some (i, v')" "ok v'" "at v i = None" "at v' = (at v)(i \<mapsto> x)" "used v' \<le> Suc (used v)"
    using put[OF ok r] by blast
  have n: "at v j \<noteq> Some x" for j using x A by (auto simp: ran_def)
  have "j = k" if "at v' j = Some y" "at v' k = Some y" for j k y
    using that u[of j y k] n[of j] n[of k] unfolding v(4) by (simp split: if_splits)
  moreover have "ran (at v') = insert x A" using v(3) unfolding v(4) A by simp
  ultimately have "holds v' (insert x A)" using v(2) unfolding holds_def by blast
  then show ?thesis using v(1,5) by blast
qed

lemma holds_clear:
  assumes h: "holds v A" and x: "at v i = Some x"
  shows "\<exists>v'. clear v i = Some v' \<and> holds v' (A - {x}) \<and> used v' \<le> used v"
proof -
  have ok: "ok v" and A: "A = ran (at v)" and u: "\<And>i j y. at v i = Some y \<Longrightarrow> at v j = Some y \<Longrightarrow> i = j"
    using h unfolding holds_def by blast+
  obtain v' where v: "clear v i = Some v'" "ok v'" "at v' = (at v)(i := None)" "used v' \<le> used v" using clear[OF ok] by blast
  have m: "at v' j = Some y \<longleftrightarrow> at v j = Some y \<and> y \<noteq> x" for j y
  proof (cases "j = i")
    case False
    then have "at v j \<noteq> Some x" using u[OF x] by blast
    then show ?thesis using False unfolding v(3) by auto
  qed (use x in \<open>simp add: v(3)\<close>)
  have "ran (at v') = A - {x}" unfolding ran_def A m by blast
  moreover have "j = k" if "at v' j = Some y" "at v' k = Some y" for j k y using that u unfolding m by blast
  ultimately have "holds v' (A - {x})" using v(2) unfolding holds_def by blast
  then show ?thesis using v(1,4) by blast
qed

lemma holds_find: "holds v A \<Longrightarrow> x \<in> A \<longleftrightarrow> (\<exists>i < used v. at v i = Some x)"
  using used by (auto simp: holds_def ran_def)

end

interpretation vec: slot_store vec_ok vec_map v_active "2 ^ 31" "\<lambda>v x. vector_set v (Some x)" vector_unset
proof
  fix v :: "'a vec" and x :: 'a and i
  assume ok: "vec_ok v"
  show "v_active v < 2 ^ 31 \<Longrightarrow> \<exists>i v'. vector_set v (Some x) = Some (i, v') \<and> vec_ok v' \<and> vec_map v i = None \<and>
      vec_map v' = (vec_map v)(i \<mapsto> x) \<and> v_active v' \<le> Suc (v_active v)"
    using vector_set_ok[OF ok, of "Some x"] by auto
  show "\<exists>v'. vector_unset v i = Some v' \<and> vec_ok v' \<and> vec_map v' = (vec_map v)(i := None) \<and> v_active v' \<le> v_active v"
    using vector_unset_ok[OF ok] by blast
  show "vec_map v i \<noteq> None \<Longrightarrow> i < v_active v" by (rule vec_map_Some)
qed

subsection \<open>What the vector promises\<close>



text \<open>C16: \<^verbatim>\<open>vector_compact\<close> keeps the values that are not NULL, in their order; from an array and back nothing changes.
  The loop terminates although it removes slots while it counts up.\<close>

theorem vector_compact_filters:
  assumes "length xs < 2 ^ 31"
  shows "\<exists>v v'. array_to_vector xs = Some v \<and> vector_to_array v = Some xs \<and> vector_compact v = Some v' \<and>
    vector_to_array v' = Some (filter (\<lambda>x. x \<noteq> None) xs) \<and> v_count v' = v_active v'"
proof -
  obtain v where v: "array_to_vector xs = Some v" "vec_ok v" "vec_counted v" "slots v = xs" using array_to_vector_ok[OF assms] by blast
  obtain v' where v': "vector_compact v = Some v'" "vec_ok v'" "slots v' = filter (\<lambda>x. x \<noteq> None) (slots v)" "vec_counted v'"
    using vector_compact_ok[OF v(2)] v(3) by blast
  have "vector_to_array w = Some (slots w)" if "vec_ok w" for w :: "'a vec" using that by (simp add: vector_to_array_def slots_def vec_ok_def)
  moreover have "n_used (slots v') = length (slots v')" using v'(3) by (simp add: n_used_def)
  then have "v_count v' = v_active v'"
    using n_used_active[OF v'(2)] v'(4) slots_simps[OF v'(2)] by (simp add: vec_counted_def slots_def)
  ultimately show ?thesis using v v' by auto
qed

theorem vector_compact_filters_witness:
  "\<exists>v v'. array_to_vector [None, Some ''b'', None, Some ''d''] = Some v \<and> vector_compact v = Some v' \<and>
     vector_to_array v' = Some [Some ''b'', Some ''d'']"
  using vector_compact_filters[of "[None, Some ''b'', None, Some ''d'']"] by auto

end
