(* ===== verification/Rip_Interface.thy ===== *)
theory Rip_Interface
  imports Route_Contract Frr_Vector
begin

text \<open>
  The interface configuration of the RIP daemon, ripd/rip_interface.c: on which networks and
  interfaces RIP runs, its neighbours and its passive interfaces. Networks and neighbours are
  sets of prefixes in routing tables (lib/table.c), interface names stand in the slots of
  vectors (lib/vector.c). Joining a multicast group, sending and withdrawing routes when an
  interface is turned on or off are not modelled: the model says for which interfaces it happens.
\<close>

subsection \<open>State\<close>

datatype nb_error = NB_OK | NB_ERR_INCONSISTENCY

text \<open>An interface with its \<^verbatim>\<open>struct rip_interface\<close>. \<open>ri_rip\<close> says that \<^verbatim>\<open>ri->rip\<close> is not NULL.\<close>

record rip_interface =
  if_name :: string
  if_operative :: bool
  if_connected :: "prefix list"
  ri_rip :: bool
  ri_running :: bool
  ri_enable_network :: bool
  ri_enable_interface :: bool
  ri_passive :: bool

text \<open>The part of \<^verbatim>\<open>struct rip\<close>, with the interfaces of its VRF. The \<^verbatim>\<open>info\<close> of a node is only
  compared to NULL.\<close>

record rip =
  rip_enable_network :: "unit route_table"
  rip_neighbor :: "unit route_table"
  rip_enable_interface :: "string vec"
  rip_passive_nondefault :: "string vec"
  rip_passive_default :: bool
  rip_ifs :: "rip_interface list"

text \<open>What \<^verbatim>\<open>rip_enable_apply\<close> does to an interface besides its flags: start the wake-up timer
  and \<^verbatim>\<open>rip_connect_set(ifp, 1)\<close>, or \<^verbatim>\<open>rip_if_down\<close> and \<^verbatim>\<open>rip_connect_set(ifp, 0)\<close>.\<close>

datatype rip_action = RIP_IF_NONE | RIP_IF_WAKEUP | RIP_IF_DOWN

definition IPV4_MAX_BITLEN :: nat where
  "IPV4_MAX_BITLEN = 32"

text \<open>The \<^verbatim>\<open>struct prefix_ipv4\<close> of one address; the bytes behind the address are not read.\<close>

definition host_prefix :: "u8 list \<Rightarrow> prefix" where
  "host_prefix addr = \<lparr>family = AF_INET, prefixlen = IPV4_MAX_BITLEN, u_val = take 4 addr @ replicate 12 0\<rparr>"

subsection \<open>Interface names\<close>

fun name_scan :: "nat \<Rightarrow> nat \<Rightarrow> string \<Rightarrow> string option list \<Rightarrow> nat option option" where
  "name_scan 0 i ifname idx = Some None"
| "name_scan (Suc n) i ifname idx =
     do { x \<leftarrow> nth_opt idx i;
          if x = Some ifname then Some (Some i) else name_scan n (Suc i) ifname idx }"

definition rip_enable_if_lookup :: "rip \<Rightarrow> string \<Rightarrow> nat option option" where
  "rip_enable_if_lookup rip ifname =
     name_scan (v_active (rip_enable_interface rip)) 0 ifname (v_index (rip_enable_interface rip))"

definition rip_passive_nondefault_lookup :: "rip \<Rightarrow> string \<Rightarrow> nat option option" where
  "rip_passive_nondefault_lookup rip ifname =
     name_scan (v_active (rip_passive_nondefault rip)) 0 ifname (v_index (rip_passive_nondefault rip))"

text \<open>Setting every used slot below \<open>v_active\<close> to NULL, as \<^verbatim>\<open>rip_clean_network\<close> and
  \<^verbatim>\<open>rip_passive_nondefault_clean\<close> do.\<close>

fun clean_slots :: "nat \<Rightarrow> nat \<Rightarrow> 'a option list \<Rightarrow> 'a option list option" where
  "clean_slots 0 i idx = Some idx"
| "clean_slots (Suc n) i idx =
     do { x \<leftarrow> nth_opt idx i;
          clean_slots n (Suc i) (if x \<noteq> None then idx[i := None] else idx) }"

definition vector_clean :: "'a vec \<Rightarrow> 'a vec option" where
  "vector_clean v = do { idx \<leftarrow> clean_slots (v_active v) 0 (v_index v); Some (v\<lparr>v_index := idx\<rparr>) }"

subsection \<open>Networks\<close>

definition rip_enable_network_lookup2 :: "rip \<Rightarrow> prefix \<Rightarrow> (bool \<times> rip) option" where
  "rip_enable_network_lookup2 rip p =
     (if family p = AF_INET then
        do { (node, s) \<leftarrow> route_node_match (rip_enable_network rip) (host_prefix (u_val p));
             case node of
               Some a \<Rightarrow> do { s \<leftarrow> route_unlock_node s a; Some (True, rip\<lparr>rip_enable_network := s\<rparr>) }
             | None \<Rightarrow> Some (False, rip\<lparr>rip_enable_network := s\<rparr>) }
      else Some (False, rip))"

fun lookup_connected :: "rip \<Rightarrow> prefix list \<Rightarrow> (bool \<times> rip) option" where
  "lookup_connected rip [] = Some (False, rip)"
| "lookup_connected rip (p # ps) =
     (if family p = AF_INET then
        do { (node, s) \<leftarrow> route_node_match (rip_enable_network rip) (host_prefix (u_val p));
             case node of
               Some a \<Rightarrow> do { s \<leftarrow> route_unlock_node s a; Some (True, rip\<lparr>rip_enable_network := s\<rparr>) }
             | None \<Rightarrow> lookup_connected (rip\<lparr>rip_enable_network := s\<rparr>) ps }
      else lookup_connected rip ps)"

definition rip_enable_network_lookup_if :: "rip \<Rightarrow> rip_interface \<Rightarrow> (bool \<times> rip) option" where
  "rip_enable_network_lookup_if rip ri =
     (if \<not> ri_rip ri then Some (False, rip) else lookup_connected rip (if_connected ri))"

definition rip_if_ipv4_address_check :: "rip_interface \<Rightarrow> nat" where
  "rip_if_ipv4_address_check ri = length (filter (\<lambda>p. family p = AF_INET) (if_connected ri))"

definition rip_enable_apply :: "rip \<Rightarrow> rip_interface \<Rightarrow> (rip_action \<times> rip_interface \<times> rip) option" where
  "rip_enable_apply rip ri =
     (if \<not> if_operative ri then Some (RIP_IF_NONE, ri, rip)
      else do {
        (m, rip) \<leftarrow> rip_enable_network_lookup_if rip ri;
        let ri = ri\<lparr>ri_enable_network := m\<rparr>;
        i \<leftarrow> (if ri_rip ri then rip_enable_if_lookup rip (if_name ri) else Some None);
        let ri = ri\<lparr>ri_enable_interface := i \<noteq> None\<rparr>;
        let ri = (if rip_if_ipv4_address_check ri = 0
                  then ri\<lparr>ri_enable_network := False, ri_enable_interface := False\<rparr> else ri);
        if ri_enable_network ri \<or> ri_enable_interface ri then Some (RIP_IF_WAKEUP, ri, rip)
        else if ri_running ri then Some (RIP_IF_DOWN, (if ri_rip ri then ri\<lparr>ri_running := False\<rparr> else ri), rip)
        else Some (RIP_IF_NONE, ri, rip) })"

fun apply_ifs :: "rip \<Rightarrow> rip_interface list \<Rightarrow> (rip_action list \<times> rip_interface list \<times> rip) option" where
  "apply_ifs rip [] = Some ([], [], rip)"
| "apply_ifs rip (ri # ris) =
     do { (act, ri, rip) \<leftarrow> rip_enable_apply rip ri;
          (acts, ris, rip) \<leftarrow> apply_ifs rip ris;
          Some (act # acts, ri # ris, rip) }"

definition rip_enable_apply_all :: "rip \<Rightarrow> (rip_action list \<times> rip) option" where
  "rip_enable_apply_all rip =
     do { (acts, ris, rip) \<leftarrow> apply_ifs rip (rip_ifs rip); Some (acts, rip\<lparr>rip_ifs := ris\<rparr>) }"

definition rip_enable_network_add :: "rip \<Rightarrow> prefix \<Rightarrow> (nb_error \<times> rip_action list \<times> rip) option" where
  "rip_enable_network_add rip p =
     do { (node, s) \<leftarrow> route_node_get (rip_enable_network rip) p;
          n \<leftarrow> rt_mem s node;
          if rn_info n \<noteq> None then
            do { s \<leftarrow> route_unlock_node s node;
                 Some (NB_ERR_INCONSISTENCY, [], rip\<lparr>rip_enable_network := s\<rparr>) }
          else
            do { s \<leftarrow> rn_upd s node (\<lambda>n. n\<lparr>rn_info := Some ()\<rparr>);
                 (acts, rip) \<leftarrow> rip_enable_apply_all (rip\<lparr>rip_enable_network := s\<rparr>);
                 Some (NB_OK, acts, rip) } }"

definition rip_enable_network_delete :: "rip \<Rightarrow> prefix \<Rightarrow> (nb_error \<times> rip_action list \<times> rip) option" where
  "rip_enable_network_delete rip p =
     do { (node, s) \<leftarrow> route_node_lookup (rip_enable_network rip) p;
          case node of
            Some a \<Rightarrow>
              do { s \<leftarrow> rn_upd s a (\<lambda>n. n\<lparr>rn_info := None\<rparr>);
                   s \<leftarrow> route_unlock_node s a;
                   s \<leftarrow> route_unlock_node s a;
                   (acts, rip) \<leftarrow> rip_enable_apply_all (rip\<lparr>rip_enable_network := s\<rparr>);
                   Some (NB_OK, acts, rip) }
          | None \<Rightarrow> Some (NB_ERR_INCONSISTENCY, [], rip\<lparr>rip_enable_network := s\<rparr>) }"

definition rip_enable_if_add :: "rip \<Rightarrow> string \<Rightarrow> (nb_error \<times> rip_action list \<times> rip) option" where
  "rip_enable_if_add rip ifname =
     do { i \<leftarrow> rip_enable_if_lookup rip ifname;
          if i \<noteq> None then Some (NB_ERR_INCONSISTENCY, [], rip)
          else do { (j, v) \<leftarrow> vector_set (rip_enable_interface rip) (Some ifname);
                    (acts, rip) \<leftarrow> rip_enable_apply_all (rip\<lparr>rip_enable_interface := v\<rparr>);
                    Some (NB_OK, acts, rip) } }"

definition rip_enable_if_delete :: "rip \<Rightarrow> string \<Rightarrow> (nb_error \<times> rip_action list \<times> rip) option" where
  "rip_enable_if_delete rip ifname =
     do { i \<leftarrow> rip_enable_if_lookup rip ifname;
          case i of
            None \<Rightarrow> Some (NB_ERR_INCONSISTENCY, [], rip)
          | Some i \<Rightarrow> do { v \<leftarrow> vector_unset (rip_enable_interface rip) i;
                           (acts, rip) \<leftarrow> rip_enable_apply_all (rip\<lparr>rip_enable_interface := v\<rparr>);
                           Some (NB_OK, acts, rip) } }"

partial_function (option) clean_walk :: "'i route_table \<Rightarrow> addr option \<Rightarrow> 'i route_table option" where
  [code]: "clean_walk s node =
     (case node of
        None \<Rightarrow> Some s
      | Some a \<Rightarrow>
          do { n \<leftarrow> rt_mem s a;
               s \<leftarrow> (if rn_info n \<noteq> None
                     then do { s \<leftarrow> rn_upd s a (\<lambda>n. n\<lparr>rn_info := None\<rparr>); route_unlock_node s a }
                     else Some s);
               (node, s) \<leftarrow> route_next s a;
               clean_walk s node })"

definition rip_clean_network :: "rip \<Rightarrow> rip option" where
  "rip_clean_network rip =
     do { (node, s) \<leftarrow> route_top (rip_enable_network rip);
          s \<leftarrow> clean_walk s node;
          v \<leftarrow> vector_clean (rip_enable_interface rip);
          Some (rip\<lparr>rip_enable_network := s, rip_enable_interface := v\<rparr>) }"

subsection \<open>Neighbours\<close>

definition rip_neighbor_lookup :: "rip \<Rightarrow> u8 list \<Rightarrow> (bool \<times> rip) option" where
  "rip_neighbor_lookup rip sin_addr =
     do { (node, s) \<leftarrow> route_node_lookup (rip_neighbor rip) (host_prefix sin_addr);
          case node of
            Some a \<Rightarrow> do { s \<leftarrow> route_unlock_node s a; Some (True, rip\<lparr>rip_neighbor := s\<rparr>) }
          | None \<Rightarrow> Some (False, rip\<lparr>rip_neighbor := s\<rparr>) }"

definition rip_neighbor_add :: "rip \<Rightarrow> prefix \<Rightarrow> (nb_error \<times> rip) option" where
  "rip_neighbor_add rip p =
     do { (node, s) \<leftarrow> route_node_get (rip_neighbor rip) p;
          n \<leftarrow> rt_mem s node;
          if rn_info n \<noteq> None then Some (NB_ERR_INCONSISTENCY, rip\<lparr>rip_neighbor := s\<rparr>)
          else do { s \<leftarrow> rn_upd s node (\<lambda>n. n\<lparr>rn_info := Some ()\<rparr>);
                    Some (NB_OK, rip\<lparr>rip_neighbor := s\<rparr>) } }"

definition rip_neighbor_delete :: "rip \<Rightarrow> prefix \<Rightarrow> (nb_error \<times> rip) option" where
  "rip_neighbor_delete rip p =
     do { (node, s) \<leftarrow> route_node_lookup (rip_neighbor rip) p;
          case node of
            None \<Rightarrow> Some (NB_ERR_INCONSISTENCY, rip\<lparr>rip_neighbor := s\<rparr>)
          | Some a \<Rightarrow>
              do { s \<leftarrow> rn_upd s a (\<lambda>n. n\<lparr>rn_info := None\<rparr>);
                   s \<leftarrow> route_unlock_node s a;
                   s \<leftarrow> route_unlock_node s a;
                   Some (NB_OK, rip\<lparr>rip_neighbor := s\<rparr>) } }"

subsection \<open>Passive interfaces\<close>

definition rip_passive_interface_apply :: "rip \<Rightarrow> rip_interface \<Rightarrow> rip_interface option" where
  "rip_passive_interface_apply rip ri =
     (if \<not> ri_rip ri then Some ri
      else do { i \<leftarrow> rip_passive_nondefault_lookup rip (if_name ri);
                Some (ri\<lparr>ri_passive := (if i = None then rip_passive_default rip
                                         else \<not> rip_passive_default rip)\<rparr>) })"

definition rip_passive_interface_apply_all :: "rip \<Rightarrow> rip option" where
  "rip_passive_interface_apply_all rip =
     do { ris \<leftarrow> those (map (rip_passive_interface_apply rip) (rip_ifs rip));
          Some (rip\<lparr>rip_ifs := ris\<rparr>) }"

definition rip_passive_nondefault_set :: "rip \<Rightarrow> string \<Rightarrow> (nb_error \<times> rip) option" where
  "rip_passive_nondefault_set rip ifname =
     do { i \<leftarrow> rip_passive_nondefault_lookup rip ifname;
          if i \<noteq> None then Some (NB_OK, rip)
          else do { (j, v) \<leftarrow> vector_set (rip_passive_nondefault rip) (Some ifname);
                    rip \<leftarrow> rip_passive_interface_apply_all (rip\<lparr>rip_passive_nondefault := v\<rparr>);
                    Some (NB_OK, rip) } }"

definition rip_passive_nondefault_unset :: "rip \<Rightarrow> string \<Rightarrow> (nb_error \<times> rip) option" where
  "rip_passive_nondefault_unset rip ifname =
     do { i \<leftarrow> rip_passive_nondefault_lookup rip ifname;
          case i of
            None \<Rightarrow> Some (NB_OK, rip)
          | Some i \<Rightarrow> do { v \<leftarrow> vector_unset (rip_passive_nondefault rip) i;
                           rip \<leftarrow> rip_passive_interface_apply_all (rip\<lparr>rip_passive_nondefault := v\<rparr>);
                           Some (NB_OK, rip) } }"

definition rip_passive_nondefault_clean :: "rip \<Rightarrow> rip option" where
  "rip_passive_nondefault_clean rip =
     do { v \<leftarrow> vector_clean (rip_passive_nondefault rip);
          rip_passive_interface_apply_all (rip\<lparr>rip_passive_nondefault := v\<rparr>) }"

text \<open>\<^verbatim>\<open>ripd_instance_passive_default_modify\<close> in the apply phase of a transaction.\<close>

definition passive_default_modify :: "rip \<Rightarrow> bool \<Rightarrow> rip option" where
  "passive_default_modify rip b = rip_passive_nondefault_clean (rip\<lparr>rip_passive_default := b\<rparr>)"

definition rip_create :: "bool \<Rightarrow> rip_interface list \<Rightarrow> rip" where
  "rip_create dflt ifs =
     \<lparr>rip_enable_network = route_table_init, rip_neighbor = route_table_init,
      rip_enable_interface = vector_init 1, rip_passive_nondefault = vector_init 1,
      rip_passive_default = dflt, rip_ifs = ifs\<rparr>"

subsection \<open>Searching names\<close>

lemma name_scan_spec:
  assumes "i + n \<le> length idx"
  shows "\<exists>r. name_scan n i nm idx = Some r \<and> (case r of None \<Rightarrow> \<forall>k. i \<le> k \<and> k < i + n \<longrightarrow> idx ! k \<noteq> Some nm
    | Some j \<Rightarrow> i \<le> j \<and> j < i + n \<and> idx ! j = Some nm)"
  using assms
proof (induction n i nm idx rule: name_scan.induct)
  case (2 n i nm idx)
  show ?case
  proof (cases "idx ! i = Some nm")
    case False
    then obtain r where r: "name_scan n (Suc i) nm idx = Some r" "case r of None \<Rightarrow> \<forall>k. Suc i \<le> k \<and> k < Suc i + n \<longrightarrow> idx ! k \<noteq> Some nm
      | Some j \<Rightarrow> Suc i \<le> j \<and> j < Suc i + n \<and> idx ! j = Some nm" using 2 by fastforce
    have "idx ! k \<noteq> Some nm" if "r = None" "i \<le> k" "k < i + Suc n" for k
      using that r(2) False by (cases "k = i") auto
    then show ?thesis using r False 2(2) by (auto split: option.splits)
  qed (use 2(2) in auto)
qed auto

lemma name_lookup:
  assumes ok: "vec_ok v"
  shows "(nm \<notin> ran (vec_map v) \<and> name_scan (v_active v) 0 nm (v_index v) = Some None) \<or>
    (\<exists>i. vec_map v i = Some nm \<and> name_scan (v_active v) 0 nm (v_index v) = Some (Some i))"
proof -
  have "0 + v_active v \<le> length (v_index v)" using ok by (simp add: vec_ok_def)
  from name_scan_spec[OF this, of nm] obtain r where r: "name_scan (v_active v) 0 nm (v_index v) = Some r"
    "case r of None \<Rightarrow> \<forall>k. 0 \<le> k \<and> k < 0 + v_active v \<longrightarrow> v_index v ! k \<noteq> Some nm
    | Some j \<Rightarrow> 0 \<le> j \<and> j < 0 + v_active v \<and> v_index v ! j = Some nm" by blast
  show ?thesis
  proof (cases r)
    case None
    then show ?thesis using r by (auto simp: ran_def vec_map_def split: if_splits)
  next
    case (Some j)
    then show ?thesis using r by (auto simp: vec_map_def)
  qed
qed

lemma vector_clean_ok:
  assumes ok: "vec_ok v"
  shows "\<exists>v'. vector_clean v = Some v' \<and> vec_ok v' \<and> vec_map v' = Map.empty \<and> v_active v' = v_active v \<and> v_count v' = v_count v"
proof -
  have c: "\<exists>idx'. clean_slots n i idx = Some idx' \<and> length idx' = length idx \<and>
      (\<forall>k < length idx. idx' ! k = (if i \<le> k \<and> k < i + n then None else idx ! k))"
    if "i + n \<le> length idx" for n i and idx :: "'a option list"
    using that
  proof (induction n i idx rule: clean_slots.induct)
    case (2 n i idx)
    let ?y = "if idx ! i \<noteq> None then idx[i := None] else idx"
    have "nth_opt idx i = Some (idx ! i)" "Suc i + n \<le> length ?y" using 2(2) by simp_all
    from 2(1)[OF this] obtain z where z: "clean_slots n (Suc i) ?y = Some z" "length z = length ?y"
      "\<forall>k < length ?y. z ! k = (if Suc i \<le> k \<and> k < Suc i + n then None else ?y ! k)" by blast
    have "z ! k = (if i \<le> k \<and> k < i + Suc n then None else idx ! k)" if "k < length idx" for k
      using z(3) that by (cases "k = i") auto
    then show ?case using z(1,2) 2(2) by (intro exI[of _ z]) simp
  qed auto
  have "0 + v_active v \<le> length (v_index v)" using ok by (simp add: vec_ok_def)
  from c[OF this] obtain z where z: "clean_slots (v_active v) 0 (v_index v) = Some z" "length z = length (v_index v)"
    "\<forall>k < length (v_index v). z ! k = (if 0 \<le> k \<and> k < 0 + v_active v then None else v_index v ! k)" by blast
  have "vec_ok (v\<lparr>v_index := z\<rparr>)" using ok z(2,3) by (auto simp: vec_ok_def)
  moreover have "vec_map (v\<lparr>v_index := z\<rparr>) = Map.empty" using ok z(3) by (auto simp: vec_map_def fun_eq_iff vec_ok_def)
  ultimately show ?thesis using z(1) by (simp add: vector_clean_def)
qed

subsection \<open>Interfaces and the configuration\<close>

text \<open>An interface RIP should run on, given the configured networks and interface names.\<close>

definition covered :: "bool list set \<Rightarrow> prefix \<Rightarrow> bool" where
  "covered A p \<longleftrightarrow> family p = AF_INET \<and> (\<exists>k \<in> A. Sublist.prefix k (key (host_prefix (u_val p))))"

definition if_wanted :: "bool list set \<Rightarrow> string set \<Rightarrow> rip_interface \<Rightarrow> bool" where
  "if_wanted A B ri \<longleftrightarrow> ri_rip ri \<and> (\<exists>p \<in> set (if_connected ri). family p = AF_INET) \<and>
     ((\<exists>p \<in> set (if_connected ri). covered A p) \<or> if_name ri \<in> B)"

definition if_valid :: "rip_interface \<Rightarrow> bool" where
  "if_valid ri \<longleftrightarrow> (\<forall>p \<in> set (if_connected ri). prefix_ok p)"

definition if_enabled :: "rip_interface \<Rightarrow> bool" where
  "if_enabled ri \<longleftrightarrow> ri_enable_network ri \<or> ri_enable_interface ri"

lemma host_prefix_ok: "4 \<le> length addr \<Longrightarrow> prefix_ok (host_prefix addr) \<and> family (host_prefix addr) = AF_INET"
  by (simp add: host_prefix_def prefix_ok_def IPV4_MAX_BITLEN_def)

lemma match_covered:
  assumes rep: "table_rep AF_INET s A" and p: "prefix_ok p" "family p = AF_INET"
  shows "if covered A p then \<exists>a s1. route_node_match s (host_prefix (u_val p)) = Some (Some a, s1) \<and> route_unlock_node s1 a = Some s
    else route_node_match s (host_prefix (u_val p)) = Some (None, s)"
proof -
  obtain t where t: "settled AF_INET s t" "A = info_keys s t" using rep by (auto simp: table_rep_def)
  have "4 \<le> length (u_val p)" using p(1) by (simp add: prefix_ok_def)
  then have h: "prefix_ok (host_prefix (u_val p))" using host_prefix_ok by blast
  show ?thesis
  proof (cases "covered A p")
    case True
    then have "\<exists>k \<in> info_keys s t. Sublist.prefix k (key (host_prefix (u_val p)))" using t(2) by (simp add: covered_def)
    then obtain a where "a \<in> set_tree t" "route_node_match s (host_prefix (u_val p)) = Some (Some a, hold s (Some a))"
      using match_settled(2)[OF t(1) h] by blast
    then show ?thesis using unhold_same[OF t(1)] True by auto
  next
    case False
    then have "\<forall>k \<in> info_keys s t. \<not> Sublist.prefix k (key (host_prefix (u_val p)))" using t(2) p(2) by (auto simp: covered_def)
    then show ?thesis using match_settled(1)[OF t(1) h] False by simp
  qed
qed

lemma lookup_connected_spec:
  assumes rep: "table_rep AF_INET (rip_enable_network rip) A" and v: "\<forall>p \<in> set ps. prefix_ok p"
  shows "lookup_connected rip ps = Some (\<exists>p \<in> set ps. covered A p, rip)"
  using v
proof (induction ps)
  case (Cons p ps)
  show ?case
  proof (cases "family p = AF_INET")
    case True
    note m = match_covered[OF rep _ True]
    show ?thesis
    proof (cases "covered A p")
      case True
      then show ?thesis using m \<open>family p = AF_INET\<close> Cons.prems by auto
    next
      case False
      then show ?thesis using m \<open>family p = AF_INET\<close> Cons by simp
    qed
  next
    case False
    then show ?thesis using Cons by (simp add: covered_def)
  qed
qed simp

text \<open>Networks \<open>A\<close> and interface names \<open>B\<close> are configured; every operative interface knows about it.\<close>

definition rip_tables :: "rip \<Rightarrow> bool list set \<Rightarrow> string set \<Rightarrow> bool" where
  "rip_tables rip A B \<longleftrightarrow> table_rep AF_INET (rip_enable_network rip) A \<and> vec.holds (rip_enable_interface rip) B"

definition rip_synced :: "rip \<Rightarrow> bool list set \<Rightarrow> string set \<Rightarrow> bool" where
  "rip_synced rip A B \<longleftrightarrow> (\<forall>ri \<in> set (rip_ifs rip). if_operative ri \<longrightarrow> if_enabled ri = if_wanted A B ri)"

lemma rip_enable_if_lookup_spec:
  assumes "vec.holds (rip_enable_interface rip) B"
  shows "\<exists>r. rip_enable_if_lookup rip nm = Some r \<and> (r \<noteq> None \<longleftrightarrow> nm \<in> B) \<and>
    (\<forall>i. r = Some i \<longrightarrow> vec_map (rip_enable_interface rip) i = Some nm)"
  using name_lookup[of "rip_enable_interface rip" nm] assms ranI by (fastforce simp: rip_enable_if_lookup_def vec.holds_def)

lemma rip_enable_apply_spec:
  assumes rt: "rip_tables rip A B" and v: "if_valid ri"
  shows "\<exists>act ri'. rip_enable_apply rip ri = Some (act, ri', rip) \<and>
    if_name ri' = if_name ri \<and> if_operative ri' = if_operative ri \<and> if_connected ri' = if_connected ri \<and> ri_rip ri' = ri_rip ri \<and>
    (if_operative ri \<longrightarrow> if_enabled ri' = if_wanted A B ri \<and>
       act = (if if_wanted A B ri then RIP_IF_WAKEUP else if ri_running ri then RIP_IF_DOWN else RIP_IF_NONE)) \<and>
    (\<not> if_operative ri \<longrightarrow> ri' = ri \<and> act = RIP_IF_NONE)"
proof (cases "if_operative ri")
  case False
  then show ?thesis by (simp add: rip_enable_apply_def)
next
  case True
  have rep: "table_rep AF_INET (rip_enable_network rip) A" "vec.holds (rip_enable_interface rip) B"
    using rt by (simp_all add: rip_tables_def)
  have net: "rip_enable_network_lookup_if rip ri = Some (ri_rip ri \<and> (\<exists>p \<in> set (if_connected ri). covered A p), rip)"
    using lookup_connected_spec[OF rep(1), of "if_connected ri"] v by (simp add: rip_enable_network_lookup_if_def if_valid_def)
  obtain r where nm: "rip_enable_if_lookup rip (if_name ri) = Some r" "r \<noteq> None \<longleftrightarrow> if_name ri \<in> B"
    using rip_enable_if_lookup_spec[OF rep(2)] by blast
  have cnt: "rip_if_ipv4_address_check x = 0 \<longleftrightarrow> \<not> (\<exists>p \<in> set (if_connected x). family p = AF_INET)" for x
    by (auto simp: rip_if_ipv4_address_check_def filter_empty_conv)
  show ?thesis
  proof (cases "ri_rip ri")
    case True
    then show ?thesis
      using \<open>if_operative ri\<close> net nm by (simp add: rip_enable_apply_def Let_def cnt if_enabled_def if_wanted_def)
  next
    case False
    then show ?thesis
      using \<open>if_operative ri\<close> net by (simp add: rip_enable_apply_def Let_def cnt if_enabled_def if_wanted_def)
  qed
qed

lemma if_wanted_cong:
  "if_name ri' = if_name ri \<Longrightarrow> if_connected ri' = if_connected ri \<Longrightarrow> ri_rip ri' = ri_rip ri \<Longrightarrow> if_wanted A B ri' = if_wanted A B ri"
  by (simp add: if_wanted_def)

lemma apply_ifs_spec:
  assumes rt: "rip_tables rip A B" and v: "\<forall>ri \<in> set ris. if_valid ri"
  shows "\<exists>acts ris'. apply_ifs rip ris = Some (acts, ris', rip) \<and> (\<forall>ri \<in> set ris'. if_valid ri) \<and>
    (\<forall>ri \<in> set ris'. if_operative ri \<longrightarrow> if_enabled ri = if_wanted A B ri) \<and> map if_name ris' = map if_name ris"
  using v
proof (induction ris)
  case (Cons ri ris)
  obtain acts ris' where r: "apply_ifs rip ris = Some (acts, ris', rip)" "\<forall>ri \<in> set ris'. if_valid ri"
    "\<forall>ri \<in> set ris'. if_operative ri \<longrightarrow> if_enabled ri = if_wanted A B ri" "map if_name ris' = map if_name ris" using Cons by auto
  have "if_valid ri" using Cons.prems by simp
  from rip_enable_apply_spec[OF rt this] obtain act ri' where a: "rip_enable_apply rip ri = Some (act, ri', rip)"
    "if_name ri' = if_name ri" "if_operative ri' = if_operative ri" "if_connected ri' = if_connected ri" "ri_rip ri' = ri_rip ri"
    "if_operative ri \<longrightarrow> if_enabled ri' = if_wanted A B ri" by blast
  have "if_valid ri'" "if_operative ri' \<longrightarrow> if_enabled ri' = if_wanted A B ri'"
    using Cons.prems a(3,4,6) if_wanted_cong[OF a(2,4,5)] by (simp_all add: if_valid_def)
  then show ?case using a(1,2) r by simp
qed simp

definition rip_rep :: "rip \<Rightarrow> bool list set \<Rightarrow> string set \<Rightarrow> bool" where
  "rip_rep rip A B \<longleftrightarrow> rip_tables rip A B \<and> rip_synced rip A B \<and> (\<forall>ri \<in> set (rip_ifs rip). if_valid ri)"

lemma rip_enable_apply_all_spec:
  assumes "rip_tables rip A B" "\<forall>ri \<in> set (rip_ifs rip). if_valid ri"
  shows "\<exists>acts rip'. rip_enable_apply_all rip = Some (acts, rip') \<and> rip_rep rip' A B \<and> rip' = rip\<lparr>rip_ifs := rip_ifs rip'\<rparr>"
proof -
  obtain acts ris where r: "apply_ifs rip (rip_ifs rip) = Some (acts, ris, rip)" "\<forall>ri \<in> set ris. if_valid ri"
    "\<forall>ri \<in> set ris. if_operative ri \<longrightarrow> if_enabled ri = if_wanted A B ri" using apply_ifs_spec[OF assms] by blast
  let ?r = "rip\<lparr>rip_ifs := ris\<rparr>"
  have "rip_rep ?r A B" using assms(1) r(2,3) by (simp add: rip_rep_def rip_tables_def rip_synced_def)
  then show ?thesis using r(1) by (intro exI[of _ acts] exI[of _ ?r]) (simp add: rip_enable_apply_all_def)
qed

subsection \<open>A set of configured items\<close>

text \<open>
  What the configuration code promises to the northbound layer: adding an item succeeds unless it
  is there, deleting one succeeds if it is there, and nothing else changes. The number bounds how
  often items were added.
\<close>

fun run_cmds :: "('s \<Rightarrow> 'x \<Rightarrow> (bool \<times> 's) option) \<Rightarrow> ('s \<Rightarrow> 'x \<Rightarrow> (bool \<times> 's) option) \<Rightarrow> 's \<Rightarrow> (bool \<times> 'x) list \<Rightarrow> (bool list \<times> 's) option" where
  "run_cmds add del s [] = Some ([], s)"
| "run_cmds add del s ((b, x) # cs) =
     do { (r, s) \<leftarrow> (if b then add s x else del s x); (rs, s) \<leftarrow> run_cmds add del s cs; Some (r # rs, s) }"

fun spec_cmds :: "'k set \<Rightarrow> (bool \<times> 'k) list \<Rightarrow> bool list \<times> 'k set" where
  "spec_cmds A [] = ([], A)"
| "spec_cmds A ((b, k) # cs) =
     (let (rs, A') = spec_cmds (if b then insert k A else A - {k}) cs in ((if b then k \<notin> A else k \<in> A) # rs, A'))"

locale config_set =
  fixes rep :: "'s \<Rightarrow> 'k set \<Rightarrow> nat \<Rightarrow> bool" and keyof :: "'x \<Rightarrow> 'k" and valid :: "'x \<Rightarrow> bool" and room :: nat
    and add :: "'s \<Rightarrow> 'x \<Rightarrow> (bool \<times> 's) option" and del :: "'s \<Rightarrow> 'x \<Rightarrow> (bool \<times> 's) option"
  assumes add: "rep s A n \<Longrightarrow> valid x \<Longrightarrow> n < room \<Longrightarrow>
      \<exists>s'. add s x = Some (keyof x \<notin> A, s') \<and> rep s' (insert (keyof x) A) (Suc n)"
    and del: "rep s A n \<Longrightarrow> valid x \<Longrightarrow> \<exists>s'. del s x = Some (keyof x \<in> A, s') \<and> rep s' (A - {keyof x}) n"
    and more: "rep s A n \<Longrightarrow> rep s A (Suc n)"
begin

lemma run_spec:
  assumes "rep s A n" "\<forall>(b, x) \<in> set cs. valid x" "n + length cs \<le> room"
  shows "\<exists>s'. run_cmds add del s cs = Some (fst (spec_cmds A (map (map_prod id keyof) cs)), s') \<and>
    rep s' (snd (spec_cmds A (map (map_prod id keyof) cs))) (n + length cs)"
  using assms
proof (induction cs arbitrary: s A n)
  case (Cons c cs)
  obtain b x where c: "c = (b, x)" by (cases c)
  let ?A = "if b then insert (keyof x) A else A - {keyof x}"
  have v: "valid x" "n < room" using Cons.prems(2,3) c by auto
  obtain s1 where s1: "(if b then add s x else del s x) = Some (if b then keyof x \<notin> A else keyof x \<in> A, s1)" "rep s1 ?A (Suc n)"
    using add[OF Cons.prems(1) v] del[OF Cons.prems(1) v(1)] more by (cases b) auto
  have "\<forall>(b, x) \<in> set cs. valid x" "Suc n + length cs \<le> room" using Cons.prems(2,3) by auto
  from Cons.IH[OF s1(2) this] show ?case using s1(1) by (auto simp: c split: prod.splits)
qed simp

end

lemma rip_enable_network_add_spec:
  assumes r: "rip_rep rip A B" and p: "prefix_ok p" "family p = AF_INET" and room: "card A < 2 ^ 28"
  shows "\<exists>acts rip'. rip_enable_network_add rip p = Some (if key p \<in> A then NB_ERR_INCONSISTENCY else NB_OK, acts, rip') \<and>
    rip_rep rip' (insert (key p) A) B \<and> (key p \<in> A \<longrightarrow> rip' = rip \<and> acts = [])"
proof -
  let ?s = "rip_enable_network rip"
  have rep: "table_rep AF_INET ?s A" "vec.holds (rip_enable_interface rip) B" "\<forall>ri \<in> set (rip_ifs rip). if_valid ri"
    using r by (simp_all add: rip_rep_def rip_tables_def)
  show ?thesis
  proof (cases "key p \<in> A")
    case True
    obtain a n s1 where "route_node_get ?s p = Some (a, s1)" "rt_mem s1 a = Some n" "rn_info n \<noteq> None" "route_unlock_node s1 a = Some ?s"
      using table_add_present[OF rep(1) p True] by blast
    then have "rip_enable_network_add rip p = Some (NB_ERR_INCONSISTENCY, [], rip)" by (simp add: rip_enable_network_add_def)
    then show ?thesis using True r by (simp add: insert_absorb)
  next
    case False
    obtain a n s1 s2 where g: "route_node_get ?s p = Some (a, s1)" "rt_mem s1 a = Some n" "rn_info n = None"
      "rn_upd s1 a (\<lambda>n. n\<lparr>rn_info := Some ()\<rparr>) = Some s2" "table_rep AF_INET s2 (insert (key p) A)"
      using table_add_new[OF rep(1) p False room] by blast
    have "rip_tables (rip\<lparr>rip_enable_network := s2\<rparr>) (insert (key p) A) B" "\<forall>ri \<in> set (rip_ifs (rip\<lparr>rip_enable_network := s2\<rparr>)). if_valid ri"
      using g(5) rep by (simp_all add: rip_tables_def)
    from rip_enable_apply_all_spec[OF this] obtain acts rip' where
      "rip_enable_apply_all (rip\<lparr>rip_enable_network := s2\<rparr>) = Some (acts, rip')" "rip_rep rip' (insert (key p) A) B" by blast
    then show ?thesis using g False by (simp add: rip_enable_network_add_def)
  qed
qed

lemma rip_enable_network_delete_spec:
  assumes r: "rip_rep rip A B" and p: "prefix_ok p" "family p = AF_INET"
  shows "\<exists>acts rip'. rip_enable_network_delete rip p = Some (if key p \<in> A then NB_OK else NB_ERR_INCONSISTENCY, acts, rip') \<and>
    rip_rep rip' (A - {key p}) B \<and> (key p \<notin> A \<longrightarrow> rip' = rip \<and> acts = [])"
proof -
  let ?s = "rip_enable_network rip"
  have rep: "table_rep AF_INET ?s A" "vec.holds (rip_enable_interface rip) B" "\<forall>ri \<in> set (rip_ifs rip). if_valid ri"
    using r by (simp_all add: rip_rep_def rip_tables_def)
  note d = table_delete[OF rep(1) p]
  show ?thesis
  proof (cases "key p \<in> A")
    case False
    then have "rip_enable_network_delete rip p = Some (NB_ERR_INCONSISTENCY, [], rip)"
      using d(1) by (simp add: rip_enable_network_delete_def)
    then show ?thesis using False r by simp
  next
    case True
    obtain a s1 s2 where g: "route_node_lookup ?s p = Some (Some a, s1)"
      "do { s \<leftarrow> rn_upd s1 a (\<lambda>n. n\<lparr>rn_info := None\<rparr>); s \<leftarrow> route_unlock_node s a; route_unlock_node s a } = Some s2"
      "table_rep AF_INET s2 (A - {key p})" using d(2)[OF True] by blast
    have "rip_tables (rip\<lparr>rip_enable_network := s2\<rparr>) (A - {key p}) B" "\<forall>ri \<in> set (rip_ifs (rip\<lparr>rip_enable_network := s2\<rparr>)). if_valid ri"
      using g(3) rep by (simp_all add: rip_tables_def)
    from rip_enable_apply_all_spec[OF this] obtain acts rip' where
      a: "rip_enable_apply_all (rip\<lparr>rip_enable_network := s2\<rparr>) = Some (acts, rip')" "rip_rep rip' (A - {key p}) B" by blast
    have "rip_enable_network_delete rip p = do { s \<leftarrow> do { s \<leftarrow> rn_upd s1 a (\<lambda>n. n\<lparr>rn_info := None\<rparr>); s \<leftarrow> route_unlock_node s a; route_unlock_node s a };
        (acts, rip) \<leftarrow> rip_enable_apply_all (rip\<lparr>rip_enable_network := s\<rparr>); Some (NB_OK, acts, rip) }"
      using g(1) by (simp add: rip_enable_network_delete_def)
    then show ?thesis using g(2) a True by simp
  qed
qed

lemma rip_enable_if_add_spec:
  assumes r: "rip_rep rip A B" and room: "v_active (rip_enable_interface rip) < 2 ^ 31"
  shows "\<exists>acts rip'. rip_enable_if_add rip nm = Some (if nm \<in> B then NB_ERR_INCONSISTENCY else NB_OK, acts, rip') \<and>
    rip_rep rip' A (insert nm B) \<and> v_active (rip_enable_interface rip') \<le> Suc (v_active (rip_enable_interface rip))"
proof -
  have rep: "table_rep AF_INET (rip_enable_network rip) A" "vec.holds (rip_enable_interface rip) B" "\<forall>ri \<in> set (rip_ifs rip). if_valid ri"
    using r by (simp_all add: rip_rep_def rip_tables_def)
  obtain i where i: "rip_enable_if_lookup rip nm = Some i" "i \<noteq> None \<longleftrightarrow> nm \<in> B" using rip_enable_if_lookup_spec[OF rep(2)] by blast
  show ?thesis
  proof (cases "nm \<in> B")
    case True
    then show ?thesis using i r by (simp add: rip_enable_if_add_def insert_absorb)
  next
    case False
    obtain j v where v: "vector_set (rip_enable_interface rip) (Some nm) = Some (j, v)" "vec.holds v (insert nm B)"
      "v_active v \<le> Suc (v_active (rip_enable_interface rip))" using vec.holds_put[OF rep(2) False room] by blast
    have "rip_tables (rip\<lparr>rip_enable_interface := v\<rparr>) A (insert nm B)" "\<forall>ri \<in> set (rip_ifs (rip\<lparr>rip_enable_interface := v\<rparr>)). if_valid ri"
      using v(2) rep by (simp_all add: rip_tables_def)
    from rip_enable_apply_all_spec[OF this] obtain acts rip' where
      "rip_enable_apply_all (rip\<lparr>rip_enable_interface := v\<rparr>) = Some (acts, rip')" "rip_rep rip' A (insert nm B)"
      "rip' = rip\<lparr>rip_enable_interface := v, rip_ifs := rip_ifs rip'\<rparr>" by auto
    moreover from this(3) have "rip_enable_interface rip' = v" by (metis rip.select_convs(3) rip.surjective rip.update_convs(3,6))
    ultimately show ?thesis using i v(1,3) False by (simp add: rip_enable_if_add_def)
  qed
qed

lemma rip_enable_if_delete_spec:
  assumes r: "rip_rep rip A B"
  shows "\<exists>acts rip'. rip_enable_if_delete rip nm = Some (if nm \<in> B then NB_OK else NB_ERR_INCONSISTENCY, acts, rip') \<and>
    rip_rep rip' A (B - {nm}) \<and> v_active (rip_enable_interface rip') \<le> v_active (rip_enable_interface rip)"
proof -
  have rep: "table_rep AF_INET (rip_enable_network rip) A" "vec.holds (rip_enable_interface rip) B" "\<forall>ri \<in> set (rip_ifs rip). if_valid ri"
    using r by (simp_all add: rip_rep_def rip_tables_def)
  obtain i where i: "rip_enable_if_lookup rip nm = Some i" "i \<noteq> None \<longleftrightarrow> nm \<in> B"
    "\<And>j. i = Some j \<Longrightarrow> vec_map (rip_enable_interface rip) j = Some nm" using rip_enable_if_lookup_spec[OF rep(2)] by blast
  show ?thesis
  proof (cases i)
    case None
    then show ?thesis using i r by (simp add: rip_enable_if_delete_def)
  next
    case (Some j)
    obtain v where v: "vector_unset (rip_enable_interface rip) j = Some v" "vec.holds v (B - {nm})"
      "v_active v \<le> v_active (rip_enable_interface rip)" using vec.holds_clear[OF rep(2) i(3)[OF Some]] by blast
    have "rip_tables (rip\<lparr>rip_enable_interface := v\<rparr>) A (B - {nm})" "\<forall>ri \<in> set (rip_ifs (rip\<lparr>rip_enable_interface := v\<rparr>)). if_valid ri"
      using v(2) rep by (simp_all add: rip_tables_def)
    from rip_enable_apply_all_spec[OF this] obtain acts rip' where
      "rip_enable_apply_all (rip\<lparr>rip_enable_interface := v\<rparr>) = Some (acts, rip')" "rip_rep rip' A (B - {nm})"
      "rip' = rip\<lparr>rip_enable_interface := v, rip_ifs := rip_ifs rip'\<rparr>" by auto
    moreover from this(3) have "rip_enable_interface rip' = v" by (metis rip.select_convs(3) rip.surjective rip.update_convs(3,6))
    ultimately show ?thesis using i(1,2) v(1,3) Some by (simp add: rip_enable_if_delete_def)
  qed
qed

text \<open>Both kinds of items follow the contract.\<close>

definition net_add :: "rip \<Rightarrow> prefix \<Rightarrow> (bool \<times> rip) option" where
  "net_add rip p = map_option (\<lambda>(r, acts, rip'). (r = NB_OK, rip')) (rip_enable_network_add rip p)"

definition net_del :: "rip \<Rightarrow> prefix \<Rightarrow> (bool \<times> rip) option" where
  "net_del rip p = map_option (\<lambda>(r, acts, rip'). (r = NB_OK, rip')) (rip_enable_network_delete rip p)"

definition ifn_add :: "rip \<Rightarrow> string \<Rightarrow> (bool \<times> rip) option" where
  "ifn_add rip nm = map_option (\<lambda>(r, acts, rip'). (r = NB_OK, rip')) (rip_enable_if_add rip nm)"

definition ifn_del :: "rip \<Rightarrow> string \<Rightarrow> (bool \<times> rip) option" where
  "ifn_del rip nm = map_option (\<lambda>(r, acts, rip'). (r = NB_OK, rip')) (rip_enable_if_delete rip nm)"

definition ipv4_prefix :: "prefix \<Rightarrow> bool" where
  "ipv4_prefix p \<longleftrightarrow> prefix_ok p \<and> family p = AF_INET"

interpretation networks: config_set "\<lambda>rip A n. rip_rep rip A B \<and> finite A \<and> card A \<le> n" key ipv4_prefix "2 ^ 28" net_add net_del for B
proof
  fix s A n and p :: prefix
  assume r: "rip_rep s A B \<and> finite A \<and> card A \<le> n" and p: "ipv4_prefix p"
  show "\<exists>s'. net_add s p = Some (key p \<notin> A, s') \<and> rip_rep s' (insert (key p) A) B \<and> finite (insert (key p) A) \<and> card (insert (key p) A) \<le> Suc n" if "n < 2 ^ 28"
    using rip_enable_network_add_spec[of s A B p] r p that by (auto simp: net_add_def ipv4_prefix_def card_insert_if)
  show "\<exists>s'. net_del s p = Some (key p \<in> A, s') \<and> rip_rep s' (A - {key p}) B \<and> finite (A - {key p}) \<and> card (A - {key p}) \<le> n"
    using rip_enable_network_delete_spec[of s A B p] r p card_Diff1_le[of A "key p"] by (auto simp: net_del_def ipv4_prefix_def)
qed simp

interpretation ifnames: config_set "\<lambda>rip B n. rip_rep rip A B \<and> v_active (rip_enable_interface rip) \<le> n" "\<lambda>nm. nm" "\<lambda>nm. True" "2 ^ 31" ifn_add ifn_del for A
proof
  fix s B n and nm :: string
  assume r: "rip_rep s A B \<and> v_active (rip_enable_interface s) \<le> n"
  show "\<exists>s'. ifn_add s nm = Some (nm \<notin> B, s') \<and> rip_rep s' A (insert nm B) \<and> v_active (rip_enable_interface s') \<le> Suc n" if "n < 2 ^ 31"
    using rip_enable_if_add_spec[of s A B nm] r that by (fastforce simp: ifn_add_def)
  show "\<exists>s'. ifn_del s nm = Some (nm \<in> B, s') \<and> rip_rep s' A (B - {nm}) \<and> v_active (rip_enable_interface s') \<le> n"
    using rip_enable_if_delete_spec[of s A B nm] r by (fastforce simp: ifn_del_def)
qed simp

subsection \<open>Cleaning while iterating\<close>

text \<open>The walk stands at \<open>a\<close> and holds a reference to it; no node before \<open>a\<close> has \<^verbatim>\<open>info\<close>.\<close>

definition cleaning :: "family \<Rightarrow> 'i route_table \<Rightarrow> addr tree \<Rightarrow> addr \<Rightarrow> bool" where
  "cleaning f s t a \<longleftrightarrow> rt_inv f s t \<and> rt_compact s \<and> a \<in> set_tree t \<and>
     (\<forall>b n. rt_mem s b = Some n \<longrightarrow> rn_lock n = (if rn_info n = None then 0 else 1) + (if b = a then 1 else 0)) \<and>
     (\<forall>b \<in> set_tree t. rt_key s b < rt_key s a \<longrightarrow> \<not> has_info s b)"

lemma cleaning_pending:
  assumes c: "cleaning f s t a"
  shows "\<exists>n s1. rt_mem s a = Some n \<and>
    (if rn_info n \<noteq> None then do { s \<leftarrow> rn_upd s a (\<lambda>n. n\<lparr>rn_info := None\<rparr>); route_unlock_node s a } else Some s) = Some s1 \<and>
    pending f s1 t a \<and> rt_key s1 = rt_key s \<and> (\<forall>b \<in> set_tree t. rt_key s b \<le> rt_key s a \<longrightarrow> \<not> has_info s1 b)"
proof -
  have inv: "rt_inv f s t" "rt_compact s" "a \<in> set_tree t"
    and lk: "\<And>b n. rt_mem s b = Some n \<Longrightarrow> rn_lock n = (if rn_info n = None then 0 else 1) + (if b = a then 1 else 0)"
    and no: "\<And>b. b \<in> set_tree t \<Longrightarrow> rt_key s b < rt_key s a \<Longrightarrow> \<not> has_info s b"
    using c unfolding cleaning_def by blast+
  obtain n where n: "rt_mem s a = Some n" using rt_invD(4)[OF inv(1,3)] by blast
  let ?n = "n\<lparr>rn_info := None, rn_lock := 1\<rparr>"
  let ?s = "s\<lparr>rt_mem := (rt_mem s)(a \<mapsto> ?n)\<rparr>"
  have core: "core ?n = core n" by (simp add: core_def)
  have run: "(if rn_info n \<noteq> None then do { s \<leftarrow> rn_upd s a (\<lambda>n. n\<lparr>rn_info := None\<rparr>); route_unlock_node s a } else Some s) = Some ?s"
  proof (cases "rn_info n")
    case None
    then have "?n = n" using lk[OF n] by (cases n) simp
    then show ?thesis using None n by (simp add: fun_upd_idem)
  next
    case (Some v)
    then have "rn_lock n = 2" using lk[OF n] by simp
    then show ?thesis using Some n by (simp add: rn_upd_def route_unlock_node_def cassert_def)
  qed
  have "rn_lock m = (if b = a \<or> rn_info m \<noteq> None then 1 else 0)" if m: "rt_mem ?s b = Some m" for b m
  proof (cases "b = a")
    case False
    then show ?thesis using m lk[of b m] by simp
  qed (use m in auto)
  moreover have "rt_compact ?s" by (rule upd_compact[OF inv(2) n core]) simp
  moreover have "\<not> has_info ?s a" by (simp add: has_info_def)
  ultimately have pe: "pending f ?s t a" unfolding pending_def using upd_inv[OF inv(1) n core] inv(3) by blast
  have "\<not> has_info ?s b" if b: "b \<in> set_tree t" "rt_key s b \<le> rt_key s a" for b
  proof (cases "b = a")
    case False
    then have "rt_key s b \<noteq> rt_key s a" using preorder_K_inj[OF rt_invD(2)[OF inv(1)]] b(1) inv(3) by (auto simp: inj_on_def)
    then have "\<not> has_info s b" using no b by simp
    then show ?thesis using False by (simp add: has_info_def)
  qed (simp add: has_info_def)
  then show ?thesis using n run pe upd_key[OF n core] by blast
qed

text \<open>Passing the reference from a node that is no longer needed to the next one.\<close>

lemma cleaning_step:
  assumes pe: "pending f s t a" and pre: "preorder t = xs @ a # b # zs"
    and no: "\<And>x. x \<in> set_tree t \<Longrightarrow> rt_key s x \<le> rt_key s a \<Longrightarrow> \<not> has_info s x"
  shows "\<exists>s' t'. route_next s a = Some (Some b, s') \<and> cleaning f s' t' b \<and> set_tree t' \<subseteq> set_tree t \<and>
    (\<forall>x \<in> set_tree t'. rt_key s' x = rt_key s x) \<and> rt_key s a < rt_key s b"
proof -
  obtain n where n: "rt_mem s a = Some n" "rn_lock n = 1" "rn_info n = None" and inv: "rt_inv f s t" "rt_compact s"
    and o: "\<And>b m. b \<noteq> a \<Longrightarrow> rt_mem s b = Some m \<Longrightarrow> rn_lock m = (if rn_info m = None then 0 else 1)"
    by (rule pendingE[OF pe]) (rule that)
  have srt: "sorted_wrt (<) (map (rt_key s) (xs @ a # b # zs))" using preorder_sorted[OF rt_invD(2)[OF inv(1)]] pre by simp
  then have ab: "rt_key s a < rt_key s b" "a \<noteq> b" by (auto simp: sorted_wrt_append)
  have set: "set_tree t = set xs \<union> {a, b} \<union> set zs" using pre set_preorder[of t] by auto
  then obtain m where m: "rt_mem s b = Some m" using rt_invD(4)[OF inv(1), of b] by auto
  define s1 where "s1 = hold s (Some b)"
  have s1: "s1 = s\<lparr>rt_mem := (rt_mem s)(b \<mapsto> m\<lparr>rn_lock := rn_lock m + 1\<rparr>)\<rparr>" using m by (simp add: s1_def)
  have cb: "core (m\<lparr>rn_lock := rn_lock m + 1\<rparr>) = core m" by (simp add: core_def)
  have lb: "rn_lock m + 1 \<noteq> 0" using o[OF ab(2)[symmetric] m] by simp
  have inv1: "rt_inv f s1 t" "rt_compact s1" unfolding s1 using upd_inv[OF inv(1) m cb] upd_compact[OF inv(2) m cb] lb by simp_all
  have a1: "rt_mem s1 a = Some n" "0 < rn_lock n" using ab(2) n by (simp_all add: s1)
  define s2 where "s2 = s1\<lparr>rt_mem := (rt_mem s1)(a \<mapsto> n\<lparr>rn_lock := rn_lock n - 1\<rparr>)\<rparr>"
  obtain s' t' where r: "route_unlock_node s1 a = Some s'" "pruned f s2 t s' t'"
    by (rule route_unlock_node_spec[OF inv1 a1, folded s2_def]) (rule that)
  have k2: "rt_key s2 = rt_key s"
    unfolding s2_def using upd_key[OF a1(1), of "n\<lparr>rn_lock := rn_lock n - 1\<rparr>"] upd_key[OF m cb] by (simp add: core_def s1)
  have l2: "rn_lock w = (if rn_info w = None then 0 else 1) + (if x = b then 1 else 0)" if w: "rt_mem s2 x = Some w" for x w
  proof -
    consider "x = a" | "x = b" "x \<noteq> a" | "x \<noteq> a" "x \<noteq> b" by blast
    then show ?thesis
    proof cases
      case 1 then show ?thesis using w n(2,3) ab(2) by (auto simp: s2_def)
    next
      case 2 then show ?thesis using w o[OF ab(2)[symmetric] m] by (auto simp: s2_def s1)
    next
      case 3 then show ?thesis using w o[of x w] by (simp add: s2_def s1)
    qed
  qed
  have i2: "has_info s2 x = has_info s x" for x using n(1) m ab(2) by (simp add: has_info_def s2_def s1)
  have p: "rt_inv f s' t'" "rt_compact s'" "set_tree t' \<subseteq> set_tree t" "keeps (set_tree t') s2 s'"
    "\<And>x w. x \<in> set_tree t - set_tree t' \<Longrightarrow> rt_mem s2 x = Some w \<Longrightarrow> rn_lock w = 0" using r(2) unfolding pruned_def by blast+
  have key: "rt_key s' x = rt_key s x" if "x \<in> set_tree t'" for x using keepsD(2)[OF p(4) that] k2 by simp
  have bt: "b \<in> set_tree t'"
  proof (rule ccontr)
    assume "b \<notin> set_tree t'"
    moreover have "rt_mem s2 b = Some (m\<lparr>rn_lock := rn_lock m + 1\<rparr>)" using ab(2) by (simp add: s2_def s1)
    ultimately show False using p(5)[of b] set lb by auto
  qed
  have "cleaning f s' t' b"
    unfolding cleaning_def
  proof (intro conjI allI ballI impI)
    fix x w assume w: "rt_mem s' x = Some w"
    then obtain w' where "rt_mem s2 x = Some w'" "meta w = meta w'" using keepsD(4)[OF p(4) _ w] rt_invD(5)[OF p(1) w] by blast
    then show "rn_lock w = (if rn_info w = None then 0 else 1) + (if x = b then 1 else 0)" using l2[of x w'] by (simp add: meta_def)
  next
    fix x assume x: "x \<in> set_tree t'" "rt_key s' x < rt_key s' b"
    then have "rt_key s x < rt_key s b" "x \<in> set_tree t" using key bt p(3) by auto
    then have "x \<in> set xs \<or> x = a" using srt set by (auto simp: sorted_wrt_append)
    then have "rt_key s x \<le> rt_key s a" using srt by (auto simp: sorted_wrt_append intro: less_imp_le)
    then show "\<not> has_info s' x" using no \<open>x \<in> set_tree t\<close> keepsD(3)[OF p(4) x(1)] i2 by blast
  qed (use p bt in simp_all)
  moreover have "route_next s a = Some (Some b, s')"
    using route_next_links[OF inv(1) pre] route_lock_hold[OF m, folded s1_def] r(1) by (simp add: lock_next_def)
  ultimately show ?thesis using p(3) key ab(1) by blast
qed

lemma settled_empty: "settled f s t \<Longrightarrow> info_keys s t = {} \<Longrightarrow> t = Leaf"
  using settled_size by fastforce

lemma clean_walk_spec:
  assumes "cleaning f s t a"
  shows "\<exists>s'. clean_walk s (Some a) = Some s' \<and> settled f s' Leaf"
  using assms
proof (induction "card {x \<in> set_tree t. rt_key s a < rt_key s x}" arbitrary: s t a rule: less_induct)
  case less
  obtain n s1 where s1: "rt_mem s a = Some n"
    "(if rn_info n \<noteq> None then do { s \<leftarrow> rn_upd s a (\<lambda>n. n\<lparr>rn_info := None\<rparr>); route_unlock_node s a } else Some s) = Some s1"
    and pe: "pending f s1 t a" and key: "rt_key s1 = rt_key s"
    and no: "\<forall>b \<in> set_tree t. rt_key s b \<le> rt_key s a \<longrightarrow> \<not> has_info s1 b"
    using cleaning_pending[OF less.prems] by blast
  have run: "clean_walk s (Some a) = do { (node, s) \<leftarrow> route_next s1 a; clean_walk s node }"
    using s1 by (subst clean_walk.simps) simp
  have inv: "rt_inv f s1 t" and at: "a \<in> set_tree t" using pe by (simp_all add: pending_def)
  then obtain xs ys where pre: "preorder t = xs @ a # ys" by (metis set_preorder split_list)
  show ?case
  proof (cases ys)
    case Nil
    have srt: "sorted_wrt (<) (map (rt_key s) (xs @ [a]))" using preorder_sorted[OF rt_invD(2)[OF inv]] pre Nil key by simp
    have "\<not> has_info s1 x" if "x \<in> set_tree t" for x
    proof -
      have "x \<in> set xs \<or> x = a" using that pre Nil set_preorder[of t] by auto
      then have "rt_key s x \<le> rt_key s a" using srt by (auto simp: sorted_wrt_append intro: less_imp_le)
      then show ?thesis using no that by blast
    qed
    then have e: "info_keys s1 t = {}" by (auto simp: info_keys_def)
    obtain s' t' where s': "route_unlock_node s1 a = Some s'" "settled f s' t'" "info_keys s' t' = info_keys s1 t"
      using pending_drop[OF pe] by blast
    then have "settled f s' Leaf" using settled_empty[of f s' t'] e by simp
    moreover have "clean_walk s (Some a) = Some s'"
      unfolding run route_next_links[OF inv pre] using Nil s'(1) by (simp add: lock_next_def clean_walk.simps[of _ None])
    ultimately show ?thesis by blast
  next
    case (Cons b zs)
    obtain s' t' where s': "route_next s1 a = Some (Some b, s')" "cleaning f s' t' b" "set_tree t' \<subseteq> set_tree t"
      "\<forall>x \<in> set_tree t'. rt_key s' x = rt_key s1 x" "rt_key s1 a < rt_key s1 b"
      using cleaning_step[OF pe pre[unfolded Cons]] no key by metis
    have b: "b \<in> set_tree t'" using s'(2) by (simp add: cleaning_def)
    have "{x \<in> set_tree t'. rt_key s' b < rt_key s' x} \<subseteq> {x \<in> set_tree t. rt_key s a < rt_key s x} - {b}"
      using s'(3,4,5) b key by auto
    moreover have "b \<in> {x \<in> set_tree t. rt_key s a < rt_key s x}" using s'(3,5) b key by auto
    ultimately have "card {x \<in> set_tree t'. rt_key s' b < rt_key s' x} < card {x \<in> set_tree t. rt_key s a < rt_key s x}"
      by (intro psubset_card_mono) auto
    from less.hyps[OF this s'(2)] show ?thesis unfolding run using s'(1) by simp
  qed
qed

lemma root_least: "radix K (Node l a r) \<Longrightarrow> b \<in> set_tree (Node l a r) \<Longrightarrow> K a \<le> K b"
  by (auto dest!: bspec less_extend[THEN less_imp_le])

lemma table_clean:
  assumes st: "settled f s t"
  shows "\<exists>s'. do { (node, s) \<leftarrow> route_top s; clean_walk s node } = Some s' \<and> settled f s' Leaf"
proof -
  have inv: "rt_inv f s t" "rt_compact s" using st by (simp_all add: settled_def)
  show ?thesis
  proof (cases t)
    case Leaf
    then show ?thesis using route_top_hold[OF inv(1)] st by (simp add: clean_walk.simps[of _ None])
  next
    case (Node l a r)
    have at: "a \<in> set_tree t" using Node by simp
    obtain n where n: "rt_mem s a = Some n" using rt_invD(4)[OF inv(1) at] by blast
    let ?s = "hold s (Some a)"
    have h: "?s = s\<lparr>rt_mem := (rt_mem s)(a \<mapsto> n\<lparr>rn_lock := rn_lock n + 1\<rparr>)\<rparr>" using n by simp
    have c: "core (n\<lparr>rn_lock := rn_lock n + 1\<rparr>) = core n" by (simp add: core_def)
    have l: "rn_lock m = (if rn_info m = None then 0 else 1)" if "rt_mem s b = Some m" for b m
      using st that unfolding settled_def by blast
    have "cleaning f ?s t a"
      unfolding cleaning_def
    proof (intro conjI allI ballI impI)
      show "rt_inv f ?s t" by (rule hold_inv[OF inv(1)])
      show "rt_compact ?s" unfolding h by (rule upd_compact[OF inv(2) n c]) (use l[OF n] in simp)
      show "rn_lock m = (if rn_info m = None then 0 else 1) + (if b = a then 1 else 0)" if m: "rt_mem ?s b = Some m" for b m
      proof (cases "b = a")
        case False
        then show ?thesis using m l[of b m] n by simp
      qed (use m n l[OF n] in auto)
      show "\<not> has_info ?s b" if "b \<in> set_tree t" "rt_key ?s b < rt_key ?s a" for b
        using that(2) root_least[OF rt_invD(2)[OF hold_inv[OF inv(1), of "Some a"], unfolded Node], of b] that(1)
        unfolding Node by (auto simp only: not_less[symmetric])
    qed (rule at)
    from clean_walk_spec[OF this] show ?thesis using route_top_hold[OF inv(1)] Node by simp
  qed
qed

lemma rip_clean_network_spec:
  assumes "rip_tables rip A B"
  shows "\<exists>rip'. rip_clean_network rip = Some rip' \<and> rt_mem (rip_enable_network rip') = Map.empty \<and> rt_count (rip_enable_network rip') = 0 \<and>
    rip_tables rip' {} {}"
proof -
  obtain t where t: "settled AF_INET (rip_enable_network rip) t" using assms by (auto simp: rip_tables_def table_rep_def)
  obtain s where s: "do { (node, s) \<leftarrow> route_top (rip_enable_network rip); clean_walk s node } = Some s" "settled AF_INET s Leaf"
    using table_clean[OF t] by blast
  have "vec_ok (rip_enable_interface rip)" using assms by (simp add: rip_tables_def vec.holds_def)
  then obtain v where v: "vector_clean (rip_enable_interface rip) = Some v" "vec_ok v" "vec_map v = Map.empty" using vector_clean_ok by blast
  have "rip_clean_network rip = Some (rip\<lparr>rip_enable_network := s, rip_enable_interface := v\<rparr>)"
    using s(1) v(1) by (auto simp: rip_clean_network_def split: bind_splits)
  moreover have "table_rep AF_INET s {}" unfolding table_rep_def using s(2) by (intro exI[of _ Leaf]) (simp add: info_keys_def)
  moreover have "rt_mem s = Map.empty" "rt_count s = 0" using s(2) by (auto simp: settled_def rt_inv_def)
  moreover have "vec.holds v {}" using v(2,3) by (simp add: vec.holds_def)
  ultimately show ?thesis by (auto simp: rip_tables_def)
qed

subsection \<open>Passive interfaces\<close>

definition passive_synced :: "rip \<Rightarrow> string set \<Rightarrow> bool" where
  "passive_synced rip P \<longleftrightarrow> vec.holds (rip_passive_nondefault rip) P \<and>
     (\<forall>ri \<in> set (rip_ifs rip). ri_rip ri \<longrightarrow> ri_passive ri = (rip_passive_default rip \<noteq> (if_name ri \<in> P)))"

lemma rip_passive_nondefault_lookup_spec:
  assumes "vec.holds (rip_passive_nondefault rip) P"
  shows "\<exists>r. rip_passive_nondefault_lookup rip nm = Some r \<and> (r \<noteq> None \<longleftrightarrow> nm \<in> P) \<and>
    (\<forall>i. r = Some i \<longrightarrow> vec_map (rip_passive_nondefault rip) i = Some nm)"
  using name_lookup[of "rip_passive_nondefault rip" nm] assms ranI by (fastforce simp: rip_passive_nondefault_lookup_def vec.holds_def)

lemma passive_apply_all:
  assumes h: "vec.holds (rip_passive_nondefault rip) P"
  shows "\<exists>rip'. rip_passive_interface_apply_all rip = Some rip' \<and> passive_synced rip' P \<and>
    rip_passive_nondefault rip' = rip_passive_nondefault rip \<and> rip_passive_default rip' = rip_passive_default rip"
proof -
  let ?g = "\<lambda>ri. if ri_rip ri then ri\<lparr>ri_passive := rip_passive_default rip \<noteq> (if_name ri \<in> P)\<rparr> else ri"
  have "rip_passive_interface_apply rip ri = Some (?g ri)" for ri
    using rip_passive_nondefault_lookup_spec[OF h, of "if_name ri"] by (auto simp: rip_passive_interface_apply_def)
  then have "those (map (rip_passive_interface_apply rip) ris) = Some (map ?g ris)" for ris by (induction ris) auto
  then have "rip_passive_interface_apply_all rip = Some (rip\<lparr>rip_ifs := map ?g (rip_ifs rip)\<rparr>)"
    by (simp add: rip_passive_interface_apply_all_def)
  then show ?thesis using h by (auto simp: passive_synced_def)
qed

lemma rip_passive_nondefault_set_spec:
  assumes s: "passive_synced rip P" and room: "v_active (rip_passive_nondefault rip) < 2 ^ 31"
  shows "\<exists>rip'. rip_passive_nondefault_set rip nm = Some (NB_OK, rip') \<and> passive_synced rip' (insert nm P) \<and>
    rip_passive_default rip' = rip_passive_default rip"
proof -
  have h: "vec.holds (rip_passive_nondefault rip) P" using s by (simp add: passive_synced_def)
  obtain i where i: "rip_passive_nondefault_lookup rip nm = Some i" "i \<noteq> None \<longleftrightarrow> nm \<in> P" using rip_passive_nondefault_lookup_spec[OF h] by blast
  show ?thesis
  proof (cases "nm \<in> P")
    case True
    then show ?thesis using i s by (simp add: rip_passive_nondefault_set_def insert_absorb)
  next
    case False
    obtain j v where v: "vector_set (rip_passive_nondefault rip) (Some nm) = Some (j, v)" "vec.holds v (insert nm P)"
      using vec.holds_put[OF h False room] by blast
    then have "vec.holds (rip_passive_nondefault (rip\<lparr>rip_passive_nondefault := v\<rparr>)) (insert nm P)" by simp
    from passive_apply_all[OF this] show ?thesis using i v(1) False by (auto simp: rip_passive_nondefault_set_def)
  qed
qed

lemma rip_passive_nondefault_unset_spec:
  assumes s: "passive_synced rip P"
  shows "\<exists>rip'. rip_passive_nondefault_unset rip nm = Some (NB_OK, rip') \<and> passive_synced rip' (P - {nm}) \<and>
    rip_passive_default rip' = rip_passive_default rip"
proof -
  have h: "vec.holds (rip_passive_nondefault rip) P" using s by (simp add: passive_synced_def)
  obtain i where i: "rip_passive_nondefault_lookup rip nm = Some i" "i \<noteq> None \<longleftrightarrow> nm \<in> P"
    "\<And>j. i = Some j \<Longrightarrow> vec_map (rip_passive_nondefault rip) j = Some nm" using rip_passive_nondefault_lookup_spec[OF h] by blast
  show ?thesis
  proof (cases i)
    case None
    then show ?thesis using i s by (simp add: rip_passive_nondefault_unset_def)
  next
    case (Some j)
    obtain v where v: "vector_unset (rip_passive_nondefault rip) j = Some v" "vec.holds v (P - {nm})"
      using vec.holds_clear[OF h i(3)[OF Some]] by blast
    then have "vec.holds (rip_passive_nondefault (rip\<lparr>rip_passive_nondefault := v\<rparr>)) (P - {nm})" by simp
    from passive_apply_all[OF this] show ?thesis using i(1) v(1) Some by (auto simp: rip_passive_nondefault_unset_def)
  qed
qed

lemma passive_default_modify_spec:
  assumes s: "passive_synced rip P"
  shows "\<exists>rip'. passive_default_modify rip b = Some rip' \<and> passive_synced rip' {} \<and> rip_passive_default rip' = b"
proof -
  have "vec_ok (rip_passive_nondefault rip)" using s by (simp add: passive_synced_def vec.holds_def)
  then obtain v where v: "vector_clean (rip_passive_nondefault rip) = Some v" "vec_ok v" "vec_map v = Map.empty" using vector_clean_ok by blast
  then have "vec.holds (rip_passive_nondefault (rip\<lparr>rip_passive_default := b, rip_passive_nondefault := v\<rparr>)) {}" by (simp add: vec.holds_def)
  from passive_apply_all[OF this] show ?thesis
    using v(1) by (auto simp: passive_default_modify_def rip_passive_nondefault_clean_def)
qed

subsection \<open>Neighbours\<close>

lemma rip_neighbor_lookup_spec:
  assumes rep: "table_rep AF_INET (rip_neighbor rip) N" and a: "length addr = 4"
  shows "rip_neighbor_lookup rip addr = Some (key (host_prefix addr) \<in> N, rip)"
proof -
  obtain t where t: "settled AF_INET (rip_neighbor rip) t" "N = info_keys (rip_neighbor rip) t" using rep by (auto simp: table_rep_def)
  have inv: "rt_inv AF_INET (rip_neighbor rip) t" using t(1) by (simp add: settled_def)
  have p: "prefix_ok (host_prefix addr)" "family (host_prefix addr) = AF_INET" using host_prefix_ok[of addr] a by simp_all
  show ?thesis
  proof (cases "key (host_prefix addr) \<in> N")
    case True
    then obtain b where b: "b \<in> set_tree t" "rt_key (rip_neighbor rip) b = key (host_prefix addr)" "has_info (rip_neighbor rip) b"
      using info_keysE[of "key (host_prefix addr)" "rip_neighbor rip" t] t(2) by metis
    show ?thesis
      using route_node_lookup_spec(1)[OF inv p b] unhold_same[OF t(1) b(1)] True by (simp add: rip_neighbor_lookup_def del: hold.simps)
  next
    case False
    then show ?thesis using route_node_lookup_spec(2)[OF inv p] t(2) by (simp add: rip_neighbor_lookup_def)
  qed
qed

text \<open>Adding a neighbour twice: the second \<^verbatim>\<open>route_node_get\<close> takes a reference that is never dropped.\<close>

lemma rip_neighbor_add_twice:
  assumes rep: "table_rep AF_INET (rip_neighbor rip) N" and p: "ipv4_prefix p" and dup: "key p \<in> N"
  shows "\<exists>rip1 rip2 a n. rip_neighbor_add rip p = Some (NB_ERR_INCONSISTENCY, rip1) \<and> rip_neighbor_delete rip1 p = Some (NB_OK, rip2) \<and>
    rt_mem (rip_neighbor rip2) a = Some n \<and> key (rn_p n) = key p \<and> rn_info n = None \<and> rn_lock n = 1"
proof -
  let ?s = "rip_neighbor rip"
  obtain t where t: "settled AF_INET ?s t" "N = info_keys ?s t" using rep by (auto simp: table_rep_def)
  have pp: "prefix_ok p" "family p = AF_INET" and inv: "rt_inv AF_INET ?s t" using p t(1) by (simp_all add: ipv4_prefix_def settled_def)
  obtain a n where a: "a \<in> set_tree t" "rt_key ?s a = key p" "has_info ?s a" "rt_mem ?s a = Some n" "rn_info n \<noteq> None"
    using info_keysE[of "key p" ?s t] dup t(2) by metis
  have l: "rn_lock n = 1" using t(1) a(4,5) by (auto simp: settled_def)
  have kp: "key (rn_p n) = key p" using rt_invD(5)[OF inv a(4)] a(2) by simp
  let ?h = "hold ?s (Some a)"
  have add: "rip_neighbor_add rip p = Some (NB_ERR_INCONSISTENCY, rip\<lparr>rip_neighbor := ?h\<rparr>)"
    using get_present[OF t(1) pp a(1,2)] a(4,5) by (simp add: rip_neighbor_add_def)
  have "rt_key ?h a = key p" "has_info ?h a" using a by (simp_all add: rt_key_def rn_keyof_def has_info_def kp)
  then have look: "route_node_lookup ?h p = Some (Some a, hold ?h (Some a))"
    using route_node_lookup_spec(1)[OF hold_inv[OF inv] pp a(1)] by blast
  let ?m = "n\<lparr>rn_info := None, rn_lock := 1\<rparr>"
  define rip2 where "rip2 = rip\<lparr>rip_neighbor := ?s\<lparr>rt_mem := (rt_mem ?s)(a \<mapsto> ?m)\<rparr>\<rparr>"
  have del: "rip_neighbor_delete (rip\<lparr>rip_neighbor := ?h\<rparr>) p = Some (NB_OK, rip2)"
    using look a(4) l by (simp add: rip_neighbor_delete_def rn_upd_def route_unlock_node_def cassert_def rip2_def)
  have "rt_mem (rip_neighbor rip2) a = Some ?m" "key (rn_p ?m) = key p" "rn_info ?m = None" "rn_lock ?m = 1" using kp by (simp_all add: rip2_def)
  then show ?thesis using add del by blast
qed

subsection \<open>What the RIP configuration promises\<close>

lemma vec_holds_init: "vec.holds (vector_init 1) {}"
  by (simp add: vec.holds_def vec_ok_init)

lemma rip_create_rep:
  assumes "\<forall>ri \<in> set ifs. if_valid ri \<and> \<not> if_enabled ri"
  shows "rip_rep (rip_create d ifs) {} {}"
  using assms table_rep_init[of AF_INET] vec_holds_init
  by (auto simp: rip_rep_def rip_tables_def rip_create_def rip_synced_def if_wanted_def covered_def)

text \<open>C4: Any sequence of network statements and their negations has the answers of a set of prefixes: an error for
  a network that is there already or not there. In the end the table holds that set, has no other
  references, and every operative interface is enabled exactly if one of its addresses lies in one of the networks.\<close>

theorem rip_network_configuration:
  assumes "\<forall>ri \<in> set ifs. if_valid ri \<and> \<not> if_enabled ri" "\<forall>(b, p) \<in> set cmds. ipv4_prefix p" "length cmds \<le> 2 ^ 28"
  shows "\<exists>rip. run_cmds net_add net_del (rip_create d ifs) cmds = Some (fst (spec_cmds {} (map (map_prod id key) cmds)), rip) \<and>
    rip_rep rip (snd (spec_cmds {} (map (map_prod id key) cmds))) {}"
  using networks.run_spec[of "rip_create d ifs" "{}" "{}" 0 cmds] rip_create_rep[OF assms(1)] assms(2,3) by auto

definition ex_if :: rip_interface where
  "ex_if = \<lparr>if_name = ''eth0'', if_operative = True, if_connected = [ex_prefix 10 129 24], ri_rip = True, ri_running = False,
     ri_enable_network = False, ri_enable_interface = False, ri_passive = False\<rparr>"

lemma ex_if_ok: "if_valid ex_if \<and> \<not> if_enabled ex_if"
  by (simp add: ex_if_def if_valid_def if_enabled_def ex_prefix_ok)

theorem rip_network_configuration_witness:
  "\<exists>rip. run_cmds net_add net_del (rip_create False [ex_if]) [(True, ex_prefix 10 0 8), (True, ex_prefix 10 0 8), (False, ex_prefix 192 168 16)] =
     Some ([True, False, False], rip) \<and> rip_rep rip {key (ex_prefix 10 0 8)} {}"
proof -
  let ?cs = "[(True, ex_prefix 10 0 8), (True, ex_prefix 10 0 8), (False, ex_prefix 192 168 16)]"
  have "\<forall>ri \<in> set [ex_if]. if_valid ri \<and> \<not> if_enabled ri" "\<forall>(b, p) \<in> set ?cs. ipv4_prefix p" "length ?cs \<le> 2 ^ 28"
    using ex_if_ok by (simp_all add: ipv4_prefix_def ex_prefix_ok)
  from rip_network_configuration[OF this, of False] show ?thesis by (simp add: ex_keys Let_def)
qed

text \<open>C12: The same for the interface names, which stand in a vector.\<close>

theorem rip_interface_configuration:
  assumes "rip_rep rip A {}" "v_active (rip_enable_interface rip) + length cmds \<le> 2 ^ 31"
  shows "\<exists>rip'. run_cmds ifn_add ifn_del rip cmds = Some (fst (spec_cmds {} cmds), rip') \<and> rip_rep rip' A (snd (spec_cmds {} cmds))"
proof -
  have "map (map_prod id (\<lambda>nm. nm)) cmds = cmds" by (induction cmds) auto
  then show ?thesis using ifnames.run_spec[of rip A "{}" "v_active (rip_enable_interface rip)" cmds] assms by auto
qed

theorem rip_interface_configuration_witness:
  "\<exists>rip'. run_cmds ifn_add ifn_del (rip_create False [ex_if]) [(True, ''eth0''), (True, ''eth1''), (False, ''eth0''), (True, ''eth1'')] =
     Some ([True, True, True, False], rip') \<and> rip_rep rip' {} {''eth1''}"
proof -
  let ?cs = "[(True, ''eth0''), (True, ''eth1''), (False, ''eth0''), (True, ''eth1'')]"
  have "rip_rep (rip_create False [ex_if]) {} {}" by (rule rip_create_rep) (simp add: ex_if_ok)
  moreover have "v_active (rip_enable_interface (rip_create False [ex_if])) + length ?cs \<le> 2 ^ 31" by (simp add: rip_create_def vector_init_def)
  ultimately show ?thesis using rip_interface_configuration[of "rip_create False [ex_if]" "{}" ?cs] by (simp add: Let_def insert_Diff_if)
qed

text \<open>C7: Cleaning the networks walks over the table while the nodes it passes go away. The walk ends, every node is
  freed, no name is left in the vector.\<close>

theorem rip_clean_network_terminates:
  assumes "rip_tables rip A B"
  shows "\<exists>rip'. rip_clean_network rip = Some rip' \<and> rt_mem (rip_enable_network rip') = Map.empty \<and>
    rt_count (rip_enable_network rip') = 0 \<and> rip_tables rip' {} {}"
  by (rule rip_clean_network_spec[OF assms])

theorem rip_clean_network_terminates_witness:
  "\<exists>s rip'. ex_table = Some s \<and> rip_clean_network ((rip_create False [])\<lparr>rip_enable_network := s\<rparr>) = Some rip' \<and>
     rt_mem (rip_enable_network rip') = Map.empty"
proof -
  obtain s t where s: "ex_table = Some s" "settled AF_INET s t" by (rule ex_tableE) (rule that)
  have "table_rep AF_INET s (info_keys s t)" using s(2) by (auto simp: table_rep_def)
  then have "rip_tables ((rip_create False [])\<lparr>rip_enable_network := s\<rparr>) (info_keys s t) {}"
    using rip_create_rep[of "[]" False] by (simp add: rip_rep_def rip_tables_def rip_create_def)
  from rip_clean_network_terminates[OF this] show ?thesis using s(1) by blast
qed

text \<open>C13: The passive setting of every interface of the instance follows the configuration: the default, inverted for
  the listed interfaces. Changing the default forgets the list.\<close>

theorem rip_passive_follows_configuration:
  assumes "passive_synced rip P" "v_active (rip_passive_nondefault rip) < 2 ^ 31"
  shows "\<exists>rip1 rip2 rip3. rip_passive_nondefault_set rip nm = Some (NB_OK, rip1) \<and> passive_synced rip1 (insert nm P) \<and>
    rip_passive_nondefault_unset rip nm = Some (NB_OK, rip2) \<and> passive_synced rip2 (P - {nm}) \<and>
    passive_default_modify rip b = Some rip3 \<and> passive_synced rip3 {} \<and> rip_passive_default rip3 = b"
  using rip_passive_nondefault_set_spec[OF assms] rip_passive_nondefault_unset_spec[OF assms(1)] passive_default_modify_spec[OF assms(1)] by blast

theorem rip_passive_follows_configuration_witness:
  "\<exists>rip1. rip_passive_nondefault_set (rip_create False [ex_if]) ''eth0'' = Some (NB_OK, rip1) \<and> passive_synced rip1 {''eth0''}"
proof -
  have "passive_synced (rip_create False [ex_if]) {}"
    using vec_holds_init by (simp add: passive_synced_def rip_create_def ex_if_def)
  moreover have "v_active (rip_passive_nondefault (rip_create False [ex_if])) < 2 ^ 31" by (simp add: rip_create_def vector_init_def)
  ultimately show ?thesis using rip_passive_follows_configuration[of "rip_create False [ex_if]" "{}" "''eth0''"] by auto
qed

text \<open>C14: \<^verbatim>\<open>rip_neighbor_add\<close> of a neighbour that is there already returns an error and keeps the reference it took:
  after the neighbour is deleted, its node stays in the table, without \<^verbatim>\<open>info\<close> and with one reference.\<close>

theorem rip_neighbor_add_leaks:
  assumes "table_rep AF_INET (rip_neighbor rip) N" "ipv4_prefix p" "key p \<in> N"
  shows "\<exists>rip1 rip2 a n. rip_neighbor_add rip p = Some (NB_ERR_INCONSISTENCY, rip1) \<and> rip_neighbor_delete rip1 p = Some (NB_OK, rip2) \<and>
    rt_mem (rip_neighbor rip2) a = Some n \<and> key (rn_p n) = key p \<and> rn_info n = None \<and> rn_lock n = 1"
  by (rule rip_neighbor_add_twice[OF assms])

theorem rip_neighbor_add_leaks_witness:
  "\<exists>s rip1 rip2. ex_table = Some s \<and> rip_neighbor_add ((rip_create False [])\<lparr>rip_neighbor := s\<rparr>) (ex_prefix 10 0 8) = Some (NB_ERR_INCONSISTENCY, rip1) \<and>
     rip_neighbor_delete rip1 (ex_prefix 10 0 8) = Some (NB_OK, rip2) \<and> (\<exists>a n. rt_mem (rip_neighbor rip2) a = Some n \<and> rn_lock n = 1)"
proof -
  obtain s t where s: "ex_table = Some s" "settled AF_INET s t"
    "info_keys s t = {key (ex_prefix 10 0 8), key (ex_prefix 10 128 9), key (ex_prefix 192 168 16)}" by (rule ex_tableE) (rule that)
  let ?rip = "(rip_create False [])\<lparr>rip_neighbor := s\<rparr>"
  have "table_rep AF_INET (rip_neighbor ?rip) (info_keys s t)" using s(2) by (auto simp: table_rep_def)
  moreover have "ipv4_prefix (ex_prefix 10 0 8)" "key (ex_prefix 10 0 8) \<in> info_keys s t" using s(3) by (simp_all add: ipv4_prefix_def ex_prefix_ok)
  ultimately show ?thesis using rip_neighbor_add_leaks[of ?rip "info_keys s t" "ex_prefix 10 0 8"] s(1) by blast
qed

end
