(* ===== verification/Prefix_List.thy ===== *)
theory Prefix_List
  imports Prefix
begin

text \<open>
  Prefix lists, lib/plist.c and lib/plist_int.h: numbered permit and deny entries of which the
  one with the lowest sequence number that matches a prefix decides. The entries of a list
  are linked in the order of their numbers; a trie of 256-way tables, one level per byte of the
  address, leads to the few entries that can match a prefix. An entry hangs in the chains of
  all slots its prefix covers, through one pointer \<^verbatim>\<open>next_best\<close> that these chains share.
  Entries live in a store, from which freed entries are removed; \<open>None\<close> is an assertion
  failure, a dangling pointer, an index out of bounds or a signed overflow.
\<close>

subsection \<open>Data\<close>

type_synonym eaddr = nat

datatype prefix_list_type = PREFIX_DENY | PREFIX_PERMIT

record prefix_list_entry =
  pe_seq :: int
  pe_le :: int
  pe_ge :: int
  pe_type :: prefix_list_type
  pe_any :: bool
  pe_prefix :: prefix
  pe_hitcnt :: u64
  pe_next :: "eaddr option"
  pe_prev :: "eaddr option"
  next_best :: "eaddr option"
  installed :: bool

type_synonym entries = "eaddr \<rightharpoonup> prefix_list_entry"

text \<open>\<^verbatim>\<open>struct pltrie_table\<close>: a table is its \<^verbatim>\<open>PLC_LEN\<close> entries, an entry the union of \<^verbatim>\<open>next_table\<close> and
  \<^verbatim>\<open>final_chain\<close> together with its \<^verbatim>\<open>up_chain\<close>. Reading the union as the member it does not
  hold is a failure.\<close>

datatype pltrie_link = Null | Next_table "(pltrie_link \<times> eaddr option) list" | Final_chain eaddr

type_synonym pltrie_entry = "pltrie_link \<times> eaddr option"
type_synonym pltrie_table = "pltrie_entry list"

definition PLC_BITS :: nat where "PLC_BITS = 8"
definition PLC_LEN :: nat where "PLC_LEN = 2 ^ PLC_BITS"
definition PLC_MAXLEVELV4 :: nat where "PLC_MAXLEVELV4 = 2"
definition PLC_MAXLEVELV6 :: nat where "PLC_MAXLEVELV6 = 4"

text \<open>A table from \<^verbatim>\<open>XCALLOC\<close>.\<close>

definition pltrie_new :: pltrie_table where
  "pltrie_new = replicate PLC_LEN (Null, None)"

text \<open>The calls to the users of a list: route maps that refer to it and the hooks of the daemon.\<close>

datatype rmap_event = RMAP_EVENT_PLIST_ADDED | RMAP_EVENT_PLIST_DELETED

datatype plist_call =
    Notify_pentry prefix rmap_event
  | Notify rmap_event
  | Add_hook
  | Delete_hook

text \<open>\<^verbatim>\<open>struct prefix_list\<close>, with the store of its entries; addresses from \<open>pl_brk\<close> on are fresh.
  \<open>trie_depth\<close> is that of its master, \<open>pl_calls\<close> records the calls to its users.\<close>

record prefix_list =
  pl_desc :: "string option"
  trie_depth :: nat
  pl_count :: int
  pl_head :: "eaddr option"
  pl_tail :: "eaddr option"
  pl_trie :: pltrie_table
  pl_mem :: entries
  pl_brk :: eaddr
  pl_calls :: "plist_call list"

definition prefix_list_new :: "nat \<Rightarrow> prefix_list" where
  "prefix_list_new depth =
     \<lparr>pl_desc = None, trie_depth = depth, pl_count = 0, pl_head = None, pl_tail = None, pl_trie = pltrie_new,
      pl_mem = Map.empty, pl_brk = 0, pl_calls = []\<rparr>"

definition pe_upd :: "entries \<Rightarrow> eaddr \<Rightarrow> (prefix_list_entry \<Rightarrow> prefix_list_entry) \<Rightarrow> entries option" where
  "pe_upd E a f = do { e \<leftarrow> E a; Some (E(a \<mapsto> f e)) }"

subsection \<open>Entries\<close>

definition prefix_list_entry_zero :: prefix_list_entry where
  "prefix_list_entry_zero =
     \<lparr>pe_seq = 0, pe_le = 0, pe_ge = 0, pe_type = PREFIX_DENY, pe_any = False, pe_prefix = prefix_zero, pe_hitcnt = 0,
      pe_next = None, pe_prev = None, next_best = None, installed = False\<rparr>"

definition prefix_list_entry_new :: "prefix_list \<Rightarrow> eaddr \<times> prefix_list" where
  "prefix_list_entry_new pl =
     (pl_brk pl, pl\<lparr>pl_brk := pl_brk pl + 1, pl_mem := (pl_mem pl)(pl_brk pl \<mapsto> prefix_list_entry_zero)\<rparr>)"

definition prefix_list_entry_free :: "prefix_list \<Rightarrow> eaddr \<Rightarrow> prefix_list option" where
  "prefix_list_entry_free pl a =
     do { e \<leftarrow> pl_mem pl a; Some (pl\<lparr>pl_mem := (pl_mem pl)(a := None)\<rparr>) }"

definition prefix_list_entry_make ::
  "prefix_list \<Rightarrow> prefix \<Rightarrow> prefix_list_type \<Rightarrow> int \<Rightarrow> int \<Rightarrow> int \<Rightarrow> bool \<Rightarrow> eaddr \<times> prefix_list" where
  "prefix_list_entry_make pl p ty sq l g an =
     (let (a, pl) = prefix_list_entry_new pl;
          e = prefix_list_entry_zero\<lparr>pe_any := an, pe_prefix := prefix_copy prefix_zero p, pe_type := ty,
                pe_seq := sq, pe_le := l, pe_ge := g\<rparr>
      in (a, pl\<lparr>pl_mem := (pl_mem pl)(a \<mapsto> e)\<rparr>))"

subsection \<open>Walks along the list\<close>

text \<open>The loop of \<^verbatim>\<open>prefix_new_seq_get\<close>, and \<^verbatim>\<open>UINT_MAX\<close> as the largest number it hands out.\<close>

partial_function (option) max_seq :: "entries \<Rightarrow> eaddr option \<Rightarrow> int \<Rightarrow> int option" where
  [code]: "max_seq E pentry maxseq =
     (case pentry of
        None \<Rightarrow> Some maxseq
      | Some a \<Rightarrow> do { e \<leftarrow> E a; max_seq E (pe_next e) (if maxseq < pe_seq e then pe_seq e else maxseq) })"

definition UINT_MAX :: int where "UINT_MAX = 4294967295"

definition prefix_new_seq_get :: "prefix_list \<Rightarrow> int option" where
  "prefix_new_seq_get pl =
     do { maxseq \<leftarrow> max_seq (pl_mem pl) (pl_head pl) 0;
          let newseq = maxseq div 5 * 5 + 5;
          Some (if newseq > UINT_MAX then UINT_MAX else newseq) }"

text \<open>The first entry from \<open>pentry\<close> on that satisfies a condition: the loops of \<^verbatim>\<open>prefix_seq_check\<close>,
  \<^verbatim>\<open>prefix_list_entry_lookup\<close> and of the search for the insertion point.\<close>

partial_function (option) entry_find ::
  "entries \<Rightarrow> (prefix_list_entry \<Rightarrow> bool) \<Rightarrow> eaddr option \<Rightarrow> eaddr option option" where
  [code]: "entry_find E P pentry =
     (case pentry of
        None \<Rightarrow> Some None
      | Some a \<Rightarrow> do { e \<leftarrow> E a; if P e then Some (Some a) else entry_find E P (pe_next e) })"

definition prefix_seq_check :: "prefix_list \<Rightarrow> int \<Rightarrow> eaddr option option" where
  "prefix_seq_check pl sq = entry_find (pl_mem pl) (\<lambda>e. pe_seq e = sq) (pl_head pl)"

definition prefix_list_entry_lookup ::
  "prefix_list \<Rightarrow> prefix \<Rightarrow> prefix_list_type \<Rightarrow> int \<Rightarrow> int \<Rightarrow> int \<Rightarrow> eaddr option option" where
  "prefix_list_entry_lookup pl p ty sq l g =
     entry_find (pl_mem pl)
       (\<lambda>e. prefix_same (Some (pe_prefix e)) (Some p) \<and> pe_type e = ty \<and>
            \<not> (sq \<ge> 0 \<and> pe_seq e \<noteq> sq) \<and> pe_le e = l \<and> pe_ge e = g) (pl_head pl)"

subsection \<open>Chains\<close>

text \<open>\<^verbatim>\<open>struct prefix_list_entry **updptr\<close> leads to the chain pointer of a slot or to the
  \<^verbatim>\<open>next_best\<close> of an entry. The functions below get the pointer of the slot and return it updated.\<close>

datatype updptr = Slot | Best eaddr

fun upd_get :: "entries \<Rightarrow> eaddr option \<Rightarrow> updptr \<Rightarrow> eaddr option option" where
  "upd_get E slot Slot = Some slot"
| "upd_get E slot (Best x) = do { e \<leftarrow> E x; Some (next_best e) }"

fun upd_set :: "entries \<Rightarrow> eaddr option \<Rightarrow> updptr \<Rightarrow> eaddr option \<Rightarrow> (entries \<times> eaddr option) option" where
  "upd_set E slot Slot v = Some (E, v)"
| "upd_set E slot (Best x) v = do { E \<leftarrow> pe_upd E x (\<lambda>e. e\<lparr>next_best := v\<rparr>); Some (E, slot) }"

partial_function (option) uninstall_walk :: "entries \<Rightarrow> eaddr option \<Rightarrow> eaddr \<Rightarrow> updptr \<Rightarrow> (entries \<times> eaddr option) option" where
  [code]: "uninstall_walk E slot obj u =
     do { v \<leftarrow> upd_get E slot u;
          (case v of
             None \<Rightarrow> Some (E, slot)
           | Some c \<Rightarrow>
               if c = obj then do { e \<leftarrow> E obj; upd_set E slot u (next_best e) }
               else uninstall_walk E slot obj (Best c)) }"

definition trie_uninstall_fn :: "entries \<Rightarrow> eaddr \<Rightarrow> eaddr option \<Rightarrow> (entries \<times> eaddr option) option" where
  "trie_uninstall_fn E obj slot = uninstall_walk E slot obj Slot"

text \<open>The loop of \<^verbatim>\<open>trie_install_fn\<close>: \<open>Some None\<close> when it returns because the object is in the
  chain, otherwise the pointer where it stops.\<close>

partial_function (option) install_walk :: "entries \<Rightarrow> eaddr option \<Rightarrow> eaddr \<Rightarrow> updptr \<Rightarrow> updptr option option" where
  [code]: "install_walk E slot obj u =
     do { v \<leftarrow> upd_get E slot u;
          (case v of
             None \<Rightarrow> Some (Some u)
           | Some c \<Rightarrow>
               if c = obj then Some None
               else do { ce \<leftarrow> E c; oe \<leftarrow> E obj;
                 if prefixlen (pe_prefix ce) < prefixlen (pe_prefix oe) then Some (Some u)
                 else if prefixlen (pe_prefix ce) = prefixlen (pe_prefix oe) \<and> pe_seq ce > pe_seq oe then Some (Some u)
                 else install_walk E slot obj (Best c) }) }"

definition trie_install_fn :: "entries \<Rightarrow> eaddr \<Rightarrow> eaddr option \<Rightarrow> (entries \<times> eaddr option) option" where
  "trie_install_fn E obj slot =
     do { w \<leftarrow> install_walk E slot obj Slot;
          (case w of
             None \<Rightarrow> Some (E, slot)
           | Some u \<Rightarrow>
               do { v \<leftarrow> upd_get E slot u;
                    oe \<leftarrow> E obj;
                    E \<leftarrow> (if next_best oe = None then pe_upd E obj (\<lambda>e. e\<lparr>next_best := v\<rparr>)
                         else do { cassert (next_best oe = v \<or> v = None); Some E });
                    upd_set E slot u (Some obj) }) }"

subsection \<open>Tables\<close>

text \<open>The loop over \<open>bwalk\<close> of \<^verbatim>\<open>trie_walk_affected\<close>.\<close>

fun walk_slots :: "(entries \<Rightarrow> eaddr \<Rightarrow> eaddr option \<Rightarrow> (entries \<times> eaddr option) option) \<Rightarrow> eaddr \<Rightarrow>
    entries \<Rightarrow> pltrie_table \<Rightarrow> nat list \<Rightarrow> (entries \<times> pltrie_table) option" where
  "walk_slots fn obj E table [] = Some (E, table)"
| "walk_slots fn obj E table (bwalk # bs) =
     do { cassert (bwalk < length table);
          let (link, up) = table ! bwalk;
          (E, up) \<leftarrow> fn E obj up;
          walk_slots fn obj E (table[bwalk := (link, up)]) bs }"

fun final_get :: "pltrie_link \<Rightarrow> eaddr option option" where
  "final_get Null = Some None"
| "final_get (Final_chain a) = Some (Some a)"
| "final_get (Next_table t) = None"

definition final_set :: "eaddr option \<Rightarrow> pltrie_link" where
  "final_set v = (case v of None \<Rightarrow> Null | Some a \<Rightarrow> Final_chain a)"

definition trie_walk_affected :: "nat \<Rightarrow> pltrie_table \<Rightarrow> u8 \<Rightarrow> eaddr \<Rightarrow>
    (entries \<Rightarrow> eaddr \<Rightarrow> eaddr option \<Rightarrow> (entries \<times> eaddr option) option) \<Rightarrow> entries \<Rightarrow>
    (entries \<times> pltrie_table) option" where
  "trie_walk_affected validbits table byte obj fn E =
     (if validbits > PLC_BITS then
        do { cassert (unat byte < length table);
             let (link, up) = table ! unat byte;
             final \<leftarrow> final_get link;
             (E, final) \<leftarrow> fn E obj final;
             Some (E, table[unat byte := (final_set final, up)]) }
      else
        (let mask = push_bit (8 - validbits) 1 - 1 :: u8
         in walk_slots fn obj E table [unat (byte AND NOT mask)..<unat byte + unat mask + 1]))"

definition trie_table_empty :: "pltrie_table \<Rightarrow> bool" where
  "trie_table_empty table = list_all (\<lambda>(link, up). link = Null \<and> up = None) table"

text \<open>\<^verbatim>\<open>prefix_list_trie_del\<close> and \<^verbatim>\<open>prefix_list_trie_add\<close> descend while there are both more than eight
  valid bits and a further level; \<open>depth\<close> counts the levels from the current one down.\<close>

fun trie_del :: "nat \<Rightarrow> u8 list \<Rightarrow> nat \<Rightarrow> eaddr \<Rightarrow> entries \<Rightarrow> pltrie_table \<Rightarrow> (entries \<times> pltrie_table) option" where
  "trie_del depth [] validbits obj E table = None"
| "trie_del depth (byte # bytes) validbits obj E table =
     (if validbits > PLC_BITS \<and> depth > 1 then
        do { cassert (unat byte < length table);
             (case table ! unat byte of
                (Next_table t, up) \<Rightarrow>
                  do { (E, t) \<leftarrow> trie_del (depth - 1) bytes (validbits - PLC_BITS) obj E t;
                       let link = (if trie_table_empty t then Null else Next_table t);
                       Some (E, table[unat byte := (link, up)]) }
              | (_, up) \<Rightarrow> None) }
      else trie_walk_affected validbits table byte obj trie_uninstall_fn E)"

definition prefix_list_trie_del :: "prefix_list \<Rightarrow> eaddr \<Rightarrow> prefix_list option" where
  "prefix_list_trie_del pl a =
     do { e \<leftarrow> pl_mem pl a;
          (E, t) \<leftarrow> trie_del (trie_depth pl) (u_val (pe_prefix e)) (prefixlen (pe_prefix e)) a (pl_mem pl) (pl_trie pl);
          Some (pl\<lparr>pl_mem := E, pl_trie := t\<rparr>) }"

fun trie_add :: "nat \<Rightarrow> u8 list \<Rightarrow> nat \<Rightarrow> eaddr \<Rightarrow> entries \<Rightarrow> pltrie_table \<Rightarrow> (entries \<times> pltrie_table) option" where
  "trie_add depth [] validbits obj E table = None"
| "trie_add depth (byte # bytes) validbits obj E table =
     (if validbits > PLC_BITS \<and> depth > 1 then
        do { cassert (unat byte < length table);
             let (link, up) = table ! unat byte;
             t \<leftarrow> (case link of Null \<Rightarrow> Some pltrie_new | Next_table t \<Rightarrow> Some t | Final_chain _ \<Rightarrow> None);
             (E, t) \<leftarrow> trie_add (depth - 1) bytes (validbits - PLC_BITS) obj E t;
             Some (E, table[unat byte := (Next_table t, up)]) }
      else trie_walk_affected validbits table byte obj trie_install_fn E)"

definition prefix_list_trie_add :: "prefix_list \<Rightarrow> eaddr \<Rightarrow> prefix_list option" where
  "prefix_list_trie_add pl a =
     do { e \<leftarrow> pl_mem pl a;
          (E, t) \<leftarrow> trie_add (trie_depth pl) (u_val (pe_prefix e)) (prefixlen (pe_prefix e)) a (pl_mem pl) (pl_trie pl);
          Some (pl\<lparr>pl_mem := E, pl_trie := t\<rparr>) }"

text \<open>The descent of \<^verbatim>\<open>prefix_list_entry_is_duplicated\<close> and \<^verbatim>\<open>prefix_entry_dup_check\<close> to the chain an
  entry would be in; \<open>Some None\<close> when a table on the way is missing or the chain is empty.\<close>

fun trie_chain :: "nat \<Rightarrow> u8 list \<Rightarrow> nat \<Rightarrow> pltrie_table \<Rightarrow> eaddr option option" where
  "trie_chain depth [] validbits table = None"
| "trie_chain depth (byte # bytes) validbits table =
     do { cassert (unat byte < length table);
          let (link, up) = table ! unat byte;
          if validbits > PLC_BITS \<and> depth > 1 then
            (case link of
               Null \<Rightarrow> Some None
             | Next_table t \<Rightarrow> trie_chain (depth - 1) bytes (validbits - PLC_BITS) t
             | Final_chain _ \<Rightarrow> None)
          else if validbits > PLC_BITS then final_get link
          else Some up }"

partial_function (option) best_find ::
  "entries \<Rightarrow> (eaddr \<Rightarrow> prefix_list_entry \<Rightarrow> bool) \<Rightarrow> eaddr option \<Rightarrow> eaddr option option" where
  [code]: "best_find E P pentry =
     (case pentry of
        None \<Rightarrow> Some None
      | Some a \<Rightarrow> do { e \<leftarrow> E a; if P a e then Some (Some a) else best_find E P (next_best e) })"

definition prefix_list_entry_is_duplicated :: "prefix_list \<Rightarrow> eaddr \<Rightarrow> bool option" where
  "prefix_list_entry_is_duplicated pl a =
     do { e \<leftarrow> pl_mem pl a;
          pentry \<leftarrow> trie_chain (trie_depth pl) (u_val (pe_prefix e)) (prefixlen (pe_prefix e)) (pl_trie pl);
          r \<leftarrow> best_find (pl_mem pl) (\<lambda>b x. b \<noteq> a \<and> prefix_same (Some (pe_prefix x)) (Some (pe_prefix e))) pentry;
          Some (r \<noteq> None) }"

definition prefix_entry_dup_check :: "prefix_list \<Rightarrow> eaddr \<Rightarrow> eaddr option option" where
  "prefix_entry_dup_check pl new =
     do { n \<leftarrow> pl_mem pl new;
          sq \<leftarrow> (if pe_seq n = -1 then prefix_new_seq_get pl else Some (pe_seq n));
          pentry \<leftarrow> trie_chain (trie_depth pl) (u_val (pe_prefix n)) (prefixlen (pe_prefix n)) (pl_trie pl);
          best_find (pl_mem pl)
            (\<lambda>b x. prefix_same (Some (pe_prefix x)) (Some (pe_prefix n)) \<and> pe_type x = pe_type n \<and>
                   pe_le x = pe_le n \<and> pe_ge x = pe_ge n \<and> pe_seq x \<noteq> sq) pentry }"

subsection \<open>Adding and deleting entries\<close>

text \<open>Both list manipulations write the \<^verbatim>\<open>next\<close> of the entry before a place, or \<^verbatim>\<open>head\<close> when there is none,
  and the \<^verbatim>\<open>prev\<close> of the entry after it, or \<^verbatim>\<open>tail\<close>.\<close>

definition put_next :: "prefix_list \<Rightarrow> eaddr option \<Rightarrow> eaddr option \<Rightarrow> prefix_list option" where
  "put_next pl before v =
     (case before of
        Some q \<Rightarrow> do { E \<leftarrow> pe_upd (pl_mem pl) q (\<lambda>x. x\<lparr>pe_next := v\<rparr>); Some (pl\<lparr>pl_mem := E\<rparr>) }
      | None \<Rightarrow> Some (pl\<lparr>pl_head := v\<rparr>))"

definition put_prev :: "prefix_list \<Rightarrow> eaddr option \<Rightarrow> eaddr option \<Rightarrow> prefix_list option" where
  "put_prev pl after v =
     (case after of
        Some n \<Rightarrow> do { E \<leftarrow> pe_upd (pl_mem pl) n (\<lambda>x. x\<lparr>pe_prev := v\<rparr>); Some (pl\<lparr>pl_mem := E\<rparr>) }
      | None \<Rightarrow> Some (pl\<lparr>pl_tail := v\<rparr>))"

definition list_unlink :: "prefix_list \<Rightarrow> eaddr \<Rightarrow> prefix_list option" where
  "list_unlink pl a =
     do { e \<leftarrow> pl_mem pl a;
          pl \<leftarrow> put_next pl (pe_prev e) (pe_next e);
          put_prev pl (pe_next e) (pe_prev e) }"

definition list_link :: "prefix_list \<Rightarrow> eaddr \<Rightarrow> eaddr option \<Rightarrow> prefix_list option" where
  "list_link pl a point =
     do { E \<leftarrow> pe_upd (pl_mem pl) a (\<lambda>x. x\<lparr>pe_next := point\<rparr>);
          before \<leftarrow> (case point of Some b \<Rightarrow> do { p \<leftarrow> E b; Some (pe_prev p) } | None \<Rightarrow> Some (pl_tail pl));
          pl \<leftarrow> put_next (pl\<lparr>pl_mem := E\<rparr>) before (Some a);
          E \<leftarrow> pe_upd (pl_mem pl) a (\<lambda>x. x\<lparr>pe_prev := before\<rparr>);
          put_prev (pl\<lparr>pl_mem := E\<rparr>) point (Some a) }"

definition pl_call :: "prefix_list \<Rightarrow> plist_call list \<Rightarrow> prefix_list" where
  "pl_call pl cs = pl\<lparr>pl_calls := pl_calls pl @ cs\<rparr>"

text \<open>\<^verbatim>\<open>count++\<close> and \<^verbatim>\<open>count--\<close> on a signed 32-bit integer.\<close>

definition count_add :: "prefix_list \<Rightarrow> int \<Rightarrow> prefix_list option" where
  "count_add pl d =
     do { cassert (- 2147483648 \<le> pl_count pl + d \<and> pl_count pl + d \<le> 2147483647);
          Some (pl\<lparr>pl_count := pl_count pl + d\<rparr>) }"

text \<open>\<^verbatim>\<open>prefix_list_entry_delete\<close> up to \<^verbatim>\<open>if (update_list)\<close>; the rest concerns the master.\<close>

definition prefix_list_entry_delete0 :: "prefix_list \<Rightarrow> eaddr \<Rightarrow> prefix_list option" where
  "prefix_list_entry_delete0 pl a =
     do { duplicate \<leftarrow> prefix_list_entry_is_duplicated pl a;
          pl \<leftarrow> prefix_list_trie_del pl a;
          pl \<leftarrow> list_unlink pl a;
          e \<leftarrow> pl_mem pl a;
          let pl = (if \<not> duplicate then pl_call pl [Notify_pentry (pe_prefix e) RMAP_EVENT_PLIST_DELETED] else pl);
          pl \<leftarrow> prefix_list_entry_free pl a;
          count_add pl (-1) }"

text \<open>Both \<^verbatim>\<open>prefix_list_entry_add\<close> and \<^verbatim>\<open>prefix_list_entry_update_finish\<close> end with the entry in the trie,
  the counter raised and the users told.\<close>

definition entry_enter :: "prefix_list \<Rightarrow> eaddr \<Rightarrow> prefix_list option" where
  "entry_enter pl a =
     do { pl \<leftarrow> prefix_list_trie_add pl a;
          pl \<leftarrow> count_add pl 1;
          e \<leftarrow> pl_mem pl a;
          Some (pl_call pl [Notify_pentry (pe_prefix e) RMAP_EVENT_PLIST_ADDED, Add_hook, Notify RMAP_EVENT_PLIST_ADDED]) }"

text \<open>The condition \<^verbatim>\<open>plist->tail && pentry->seq > plist->tail->seq\<close>.\<close>

definition beyond_tail :: "prefix_list \<Rightarrow> int \<Rightarrow> bool option" where
  "beyond_tail pl sq = (case pl_tail pl of None \<Rightarrow> Some False | Some t \<Rightarrow> do { x \<leftarrow> pl_mem pl t; Some (sq > pe_seq x) })"

text \<open>\<^verbatim>\<open>prefix_list_entry_add\<close> first removes an entry with the same number and finds the insertion point.\<close>

definition entry_room :: "prefix_list \<Rightarrow> int \<Rightarrow> (eaddr option \<times> prefix_list) option" where
  "entry_room pl sq =
     do { beyond \<leftarrow> beyond_tail pl sq;
          if beyond then Some (None, pl)
          else do { replace \<leftarrow> prefix_seq_check pl sq;
                    pl \<leftarrow> (case replace of Some r \<Rightarrow> prefix_list_entry_delete0 pl r | None \<Rightarrow> Some pl);
                    point \<leftarrow> entry_find (pl_mem pl) (\<lambda>x. pe_seq x \<ge> sq) (pl_head pl);
                    Some (point, pl) } }"

definition prefix_list_entry_add :: "prefix_list \<Rightarrow> eaddr \<Rightarrow> prefix_list option" where
  "prefix_list_entry_add pl a =
     do { e \<leftarrow> pl_mem pl a;
          sq \<leftarrow> (if pe_seq e = -1 then prefix_new_seq_get pl else Some (pe_seq e));
          let pl = pl\<lparr>pl_mem := (pl_mem pl)(a \<mapsto> e\<lparr>pe_seq := sq\<rparr>)\<rparr>;
          (point, pl) \<leftarrow> entry_room pl sq;
          pl \<leftarrow> list_link pl a point;
          entry_enter pl a }"

definition prefix_list_entry_update_start :: "prefix_list \<Rightarrow> eaddr \<Rightarrow> prefix_list option" where
  "prefix_list_entry_update_start pl a =
     do { e \<leftarrow> pl_mem pl a;
          if \<not> installed e then Some pl
          else do { duplicate \<leftarrow> prefix_list_entry_is_duplicated pl a;
                    pl \<leftarrow> prefix_list_trie_del pl a;
                    pl \<leftarrow> list_unlink pl a;
                    let pl = (if \<not> duplicate then pl_call pl [Notify_pentry (pe_prefix e) RMAP_EVENT_PLIST_DELETED] else pl);
                    pl \<leftarrow> count_add pl (-1);
                    let pl = pl_call pl [Notify RMAP_EVENT_PLIST_DELETED, Delete_hook];
                    E \<leftarrow> pe_upd (pl_mem pl) a (\<lambda>x. x\<lparr>next_best := None, installed := False\<rparr>);
                    Some (pl\<lparr>pl_mem := E\<rparr>) } }"

definition prefix_list_entry_update_finish :: "prefix_list \<Rightarrow> eaddr \<Rightarrow> prefix_list option" where
  "prefix_list_entry_update_finish pl a =
     do { e \<leftarrow> pl_mem pl a;
          if installed e then Some pl
          else if family (pe_prefix e) \<noteq> AF_INET \<and> family (pe_prefix e) \<noteq> AF_INET6 then Some pl
          else do { beyond \<leftarrow> beyond_tail pl (pe_seq e);
                    point \<leftarrow> (if beyond then Some None
                              else entry_find (pl_mem pl) (\<lambda>x. pe_seq x \<ge> pe_seq e) (pl_head pl));
                    pl \<leftarrow> list_link pl a point;
                    pl \<leftarrow> entry_enter pl a;
                    E \<leftarrow> pe_upd (pl_mem pl) a (\<lambda>x. x\<lparr>installed := True\<rparr>);
                    Some (pl\<lparr>pl_mem := E\<rparr>) } }"

definition prefix_list_entry_delete2 :: "prefix_list \<Rightarrow> eaddr \<Rightarrow> prefix_list option" where
  "prefix_list_entry_delete2 pl a =
     do { pl \<leftarrow> prefix_list_entry_update_start pl a; prefix_list_entry_free pl a }"

text \<open>The loop of \<^verbatim>\<open>prefix_list_delete\<close> over the entries.\<close>

partial_function (option) delete_entries :: "prefix_list \<Rightarrow> eaddr option \<Rightarrow> prefix_list option" where
  [code]: "delete_entries pl pentry =
     (case pentry of
        None \<Rightarrow> Some pl
      | Some a \<Rightarrow>
          do { e \<leftarrow> pl_mem pl a;
               let pl = pl_call pl [Notify_pentry (pe_prefix e) RMAP_EVENT_PLIST_DELETED];
               pl \<leftarrow> prefix_list_trie_del pl a;
               pl \<leftarrow> prefix_list_entry_free pl a;
               pl \<leftarrow> count_add pl (-1);
               delete_entries pl (pe_next e) })"

subsection \<open>Applying a list\<close>

definition prefix_list_entry_match :: "prefix_list_entry \<Rightarrow> prefix \<Rightarrow> bool \<Rightarrow> bool" where
  "prefix_list_entry_match pentry p address_mode =
     (if family (pe_prefix pentry) \<noteq> family p then False
      else if \<not> prefix_match (pe_prefix pentry) p then False
      else if address_mode then True
      else if pe_le pentry = 0 \<and> pe_ge pentry = 0 then prefixlen (pe_prefix pentry) = prefixlen p
      else \<not> (pe_le pentry \<noteq> 0 \<and> int (prefixlen p) > pe_le pentry) \<and>
           \<not> (pe_ge pentry \<noteq> 0 \<and> int (prefixlen p) < pe_ge pentry))"

text \<open>The loop over a chain: an entry after the best so far is skipped.\<close>

partial_function (option) best_walk ::
  "entries \<Rightarrow> prefix \<Rightarrow> bool \<Rightarrow> eaddr option \<Rightarrow> eaddr option \<Rightarrow> eaddr option option" where
  [code]: "best_walk E p address_mode pentry pbest =
     (case pentry of
        None \<Rightarrow> Some pbest
      | Some a \<Rightarrow>
          do { e \<leftarrow> E a;
               skip \<leftarrow> (case pbest of None \<Rightarrow> Some False | Some b \<Rightarrow> do { be \<leftarrow> E b; Some (pe_seq be < pe_seq e) });
               best_walk E p address_mode (next_best e)
                 (if \<not> skip \<and> prefix_list_entry_match e p address_mode then Some a else pbest) })"

fun apply_walk :: "nat \<Rightarrow> u8 list \<Rightarrow> nat \<Rightarrow> entries \<Rightarrow> prefix \<Rightarrow> bool \<Rightarrow> pltrie_table \<Rightarrow> eaddr option \<Rightarrow> eaddr option option" where
  "apply_walk depth [] validbits E p address_mode table pbest = None"
| "apply_walk depth (byte # bytes) validbits E p address_mode table pbest =
     do { cassert (unat byte < length table);
          let (link, up) = table ! unat byte;
          pbest \<leftarrow> best_walk E p address_mode up pbest;
          if validbits \<le> PLC_BITS then Some pbest
          else if depth - 1 \<noteq> 0 then
            (case link of
               Null \<Rightarrow> Some pbest
             | Next_table t \<Rightarrow> apply_walk (depth - 1) bytes (validbits - PLC_BITS) E p address_mode t pbest
             | Final_chain _ \<Rightarrow> None)
          else do { final \<leftarrow> final_get link; best_walk E p address_mode final pbest } }"

text \<open>The result, the entry that decided and the list with its hit counted; \<open>plist\<close> may be null.\<close>

definition prefix_list_apply_ext ::
  "prefix_list option \<Rightarrow> prefix \<Rightarrow> bool \<Rightarrow> (prefix_list_type \<times> eaddr option \<times> prefix_list option) option" where
  "prefix_list_apply_ext plist p address_mode =
     (case plist of
        None \<Rightarrow> Some (PREFIX_DENY, None, None)
      | Some pl \<Rightarrow>
          if pl_count pl = 0 then Some (PREFIX_PERMIT, None, Some pl)
          else do { pbest \<leftarrow> apply_walk (trie_depth pl) (u_val p) (prefixlen p) (pl_mem pl) p address_mode (pl_trie pl) None;
                    (case pbest of
                       None \<Rightarrow> Some (PREFIX_DENY, None, Some pl)
                     | Some a \<Rightarrow>
                         do { e \<leftarrow> pl_mem pl a;
                              Some (pe_type e, Some a,
                                    Some (pl\<lparr>pl_mem := (pl_mem pl)(a \<mapsto> e\<lparr>pe_hitcnt := pe_hitcnt e + 1\<rparr>)\<rparr>)) }) })"

end
