(* ===== verification/Prefix_List_Chain.thy ===== *)
theory Prefix_List_Chain
  imports Prefix_List
begin

text \<open>
  The chains of a prefix list's trie. Every entry has one pointer \<^verbatim>\<open>next_best\<close> and stands in many
  chains. Chains are sorted by prefix length and number, and entries that share a slot are
  nested, so the rest of a chain after an entry is the same in all its chains. Under these
  conditions \<^verbatim>\<open>trie_install_fn\<close> and \<^verbatim>\<open>trie_uninstall_fn\<close>, called for every slot of an entry, add it to
  and remove it from all chains.
\<close>

subsection \<open>Chains in the store\<close>

text \<open>The entries from a pointer on along \<^verbatim>\<open>next_best\<close>.\<close>

fun chain :: "entries \<Rightarrow> eaddr option \<Rightarrow> eaddr list \<Rightarrow> bool" where
  "chain E p [] \<longleftrightarrow> p = None"
| "chain E p (x # xs) \<longleftrightarrow> p = Some x \<and> (\<exists>e. E x = Some e \<and> chain E (next_best e) xs)"

lemma chain_append:
  "chain E p (xs @ x # ys) \<Longrightarrow> \<exists>e. E x = Some e \<and> chain E (next_best e) ys"
  by (induction xs arbitrary: p) auto

lemma chain_frame: "x \<notin> set ys \<Longrightarrow> chain (E(x \<mapsto> e)) p ys = chain E p ys"
  by (induction ys arbitrary: p) auto

lemma chain_redirect:
  assumes "chain E p (xs @ x # ys)" "E x = Some e" "x \<notin> set xs" "x \<notin> set zs" "chain E v zs"
  shows "chain (E(x \<mapsto> e\<lparr>next_best := v\<rparr>)) p (xs @ x # zs)"
  using assms by (induction xs arbitrary: p) (auto simp: chain_frame)

definition hdo :: "'a list \<Rightarrow> 'a option" where
  "hdo xs = (case xs of [] \<Rightarrow> None | x # _ \<Rightarrow> Some x)"

lemma hdo_simps [simp]: "hdo [] = None" "hdo (x # xs) = Some x"
  by (simp_all add: hdo_def)

lemma chain_hdo: "chain E p xs \<Longrightarrow> p = hdo xs"
  by (cases xs) auto

text \<open>Two stores that differ in \<^verbatim>\<open>next_best\<close> only.\<close>

definition static :: "prefix_list_entry option \<Rightarrow> prefix_list_entry option" where
  "static = map_option (\<lambda>e. e\<lparr>next_best := None\<rparr>)"

definition same_but_best :: "entries \<Rightarrow> entries \<Rightarrow> bool" where
  "same_but_best E E' \<longleftrightarrow> static \<circ> E = static \<circ> E'"

lemma same_but_best_refl [simp]: "same_but_best E E"
  by (simp add: same_but_best_def)

lemma same_but_best_trans: "same_but_best E F \<Longrightarrow> same_but_best F G \<Longrightarrow> same_but_best E G"
  by (simp add: same_but_best_def)

lemma same_but_best_upd: "E x = Some e \<Longrightarrow> same_but_best E (E(x \<mapsto> e\<lparr>next_best := v\<rparr>))"
  by (auto simp: same_but_best_def static_def fun_eq_iff)

lemma same_but_best_D:
  assumes "same_but_best E E'" "E x = Some e"
  obtains v where "E' x = Some (e\<lparr>next_best := v\<rparr>)"
proof -
  have h: "static (E x) = static (E' x)" using assms(1) by (auto simp: same_but_best_def dest: fun_cong)
  then obtain e' where e': "E' x = Some e'" "e\<lparr>next_best := None\<rparr> = e'\<lparr>next_best := None\<rparr>"
    using assms(2) by (cases "E' x") (auto simp: static_def)
  have "e' = e\<lparr>next_best := next_best e'\<rparr>" using e'(2) by (cases e; cases e') simp
  then show ?thesis using that e'(1) by metis
qed

lemma same_but_best_dom: "same_but_best E E' \<Longrightarrow> E x = None \<longleftrightarrow> E' x = None"
  by (metis comp_apply map_option_is_None same_but_best_def static_def)

text \<open>Only the \<^verbatim>\<open>next_best\<close> of entries in \<open>A\<close> differs.\<close>

definition best_only :: "eaddr set \<Rightarrow> entries \<Rightarrow> entries \<Rightarrow> bool" where
  "best_only A E E' \<longleftrightarrow> same_but_best E E' \<and> (\<forall>y. y \<notin> A \<longrightarrow> E' y = E y)"

lemma best_only_refl [simp]: "best_only A E E"
  by (simp add: best_only_def)

lemma best_only_trans: "best_only A E F \<Longrightarrow> best_only A F G \<Longrightarrow> best_only A E G"
  by (auto simp: best_only_def intro: same_but_best_trans)

lemma best_only_upd: "E x = Some e \<Longrightarrow> x \<in> A \<Longrightarrow> best_only A E (E(x \<mapsto> e\<lparr>next_best := v\<rparr>))"
  by (auto simp: best_only_def intro: same_but_best_upd)

lemma best_only_same: "best_only A E E' \<Longrightarrow> same_but_best E E'"
  by (simp add: best_only_def)

text \<open>The order of a chain: longer prefixes first, then lower sequence numbers.\<close>

definition rank :: "entries \<Rightarrow> eaddr \<Rightarrow> int \<times> int" where
  "rank E x = (case E x of None \<Rightarrow> (0, 0) | Some e \<Rightarrow> (- int (prefixlen (pe_prefix e)), pe_seq e))"

lemma rank_same: "same_but_best E E' \<Longrightarrow> rank E' = rank E"
proof
  fix x
  assume h: "same_but_best E E'"
  show "rank E' x = rank E x"
  proof (cases "E x")
    case None
    then show ?thesis using same_but_best_dom[OF h, of x] by (simp add: rank_def)
  next
    case (Some e)
    then show ?thesis by (auto simp: rank_def elim: same_but_best_D[OF h])
  qed
qed

lemma install_walk_spec:
  assumes "upd_get E slot u = Some v" "chain E v (bs @ rest)" "E obj = Some oe"
    "\<forall>x \<in> set bs. x \<noteq> obj \<and> rank E x < rank E obj"
    "\<And>r rs. rest = r # rs \<Longrightarrow> r = obj \<or> rank E obj < rank E r"
  shows "install_walk E slot obj u =
    Some (if hdo rest = Some obj then None else Some (if bs = [] then u else Best (last bs)))"
  using assms(1,2,4)
proof (induction bs arbitrary: u v)
  case Nil
  show ?case
  proof (cases rest)
    case Nil
    then show ?thesis using Nil.prems assms(3) by (subst install_walk.simps) simp
  next
    case (Cons r rs)
    then obtain re where "E r = Some re" "v = Some r" using Nil.prems(2) by auto
    then show ?thesis using Nil.prems(1) assms(3) assms(5)[OF Cons] Cons
      by (subst install_walk.simps) (auto simp: rank_def)
  qed
next
  case (Cons x bs)
  obtain e where e: "E x = Some e" "v = Some x" "chain E (next_best e) (bs @ rest)" using Cons.prems(2) by auto
  have x: "x \<noteq> obj" "rank E x < rank E obj" and bs: "\<forall>y \<in> set bs. y \<noteq> obj \<and> rank E y < rank E obj"
    using Cons.prems(3) by auto
  have "install_walk E slot obj u = install_walk E slot obj (Best x)"
    using Cons.prems(1) e(1,2) assms(3) x by (subst install_walk.simps) (auto simp: rank_def)
  also have "\<dots> = Some (if hdo rest = Some obj then None else Some (if bs = [] then Best x else Best (last bs)))"
    by (rule Cons.IH[OF _ e(3) bs]) (simp add: e(1))
  finally show ?case by simp
qed

lemma uninstall_walk_found:
  assumes "upd_get E slot u = Some v" "chain E v (bs @ obj # rest)" "obj \<notin> set bs" "E obj = Some oe"
  shows "uninstall_walk E slot obj u = upd_set E slot (if bs = [] then u else Best (last bs)) (next_best oe)"
  using assms(1-3)
proof (induction bs arbitrary: u v)
  case Nil
  then show ?case using assms(4) by (subst uninstall_walk.simps) simp
next
  case (Cons x bs)
  obtain e where e: "E x = Some e" "v = Some x" "chain E (next_best e) (bs @ obj # rest)" using Cons.prems(2) by auto
  have "uninstall_walk E slot obj u = uninstall_walk E slot obj (Best x)"
    using Cons.prems(1,3) e(2) by (subst uninstall_walk.simps) auto
  also have "\<dots> = upd_set E slot (if bs = [] then Best x else Best (last bs)) (next_best oe)"
    by (rule Cons.IH[OF _ e(3)]) (use e(1) Cons.prems(3) in auto)
  finally show ?case by simp
qed

lemma uninstall_walk_absent:
  assumes "upd_get E slot u = Some v" "chain E v bs" "obj \<notin> set bs"
  shows "uninstall_walk E slot obj u = Some (E, slot)"
  using assms
proof (induction bs arbitrary: u v)
  case Nil
  then show ?case by (subst uninstall_walk.simps) simp
next
  case (Cons x bs)
  obtain e where e: "E x = Some e" "v = Some x" "chain E (next_best e) bs" using Cons.prems(2) by auto
  have "uninstall_walk E slot obj u = uninstall_walk E slot obj (Best x)"
    using Cons.prems(1,3) e(2) by (subst uninstall_walk.simps) auto
  also have "\<dots> = Some (E, slot)"
    by (rule Cons.IH[OF _ e(3)]) (use e(1) Cons.prems(3) in auto)
  finally show ?case .
qed

subsection \<open>Families of sorted lists\<close>

text \<open>Every member \<open>x\<close> of \<open>X\<close> stands in the lists of its slots \<open>S x\<close>. When two members share a slot,
  the one of higher rank covers all slots of the other, as a shorter prefix does.\<close>

definition nested :: "('a \<Rightarrow> 's set) \<Rightarrow> ('a \<Rightarrow> 'r::linorder) \<Rightarrow> 'a set \<Rightarrow> bool" where
  "nested S rk X \<longleftrightarrow> (\<forall>x \<in> X. \<forall>y \<in> X. S x \<inter> S y \<noteq> {} \<longrightarrow> rk y \<le> rk x \<longrightarrow> S y \<subseteq> S x)"

definition lists_of :: "('a \<Rightarrow> 's set) \<Rightarrow> ('a \<Rightarrow> 'r::linorder) \<Rightarrow> 'a set \<Rightarrow> ('s \<Rightarrow> 'a list) \<Rightarrow> bool" where
  "lists_of S rk X L \<longleftrightarrow> (\<forall>s. sorted_wrt (\<lambda>x y. rk x < rk y) (L s) \<and> set (L s) = {x \<in> X. s \<in> S x})"

lemma rank_sorted_unique:
  fixes rk :: "'a \<Rightarrow> 'r::linorder"
  assumes "sorted_wrt (\<lambda>x y. rk x < rk y) xs" "sorted_wrt (\<lambda>x y. rk x < rk y) ys" "set xs = set ys"
  shows "xs = ys"
  using assms
proof (induction xs arbitrary: ys)
  case (Cons x xs)
  then obtain y ys' where ys: "ys = y # ys'" by (cases ys) auto
  have a: "\<forall>z \<in> set xs. rk x < rk z" "\<forall>z \<in> set ys'. rk y < rk z" using Cons.prems(1,2) ys by auto
  have "x = y"
  proof (rule ccontr)
    assume "x \<noteq> y"
    then have "x \<in> set ys'" "y \<in> set xs" using Cons.prems(3) ys by auto
    then show False using a by force
  qed
  moreover have "x \<notin> set xs" "y \<notin> set ys'" using a by auto
  ultimately have "set xs = set ys'" using Cons.prems(3) ys by auto
  then have "xs = ys'" using Cons.IH[of ys'] Cons.prems(1,2) ys by simp
  then show ?case using \<open>x = y\<close> ys by simp
qed simp

lemma rank_sorted_distinct: "sorted_wrt (\<lambda>x y. rk x < (rk y :: 'r::linorder)) xs \<Longrightarrow> distinct xs"
  by (induction xs) auto

lemma lists_of_tail:
  assumes n: "nested S rk X" and l: "lists_of S rk X L"
    and s: "L s = a @ x # c" and t: "L t = b @ x # d"
  shows "c = d"
proof -
  have sub: "set c \<subseteq> set d" if s: "L s = a @ x # c" and t: "L t = b @ x # d" for s t a b c d
  proof
    fix y
    assume y: "y \<in> set c"
    have "sorted_wrt (\<lambda>x y. rk x < rk y) (a @ x # c)" "sorted_wrt (\<lambda>x y. rk x < rk y) (b @ x # d)"
      using l s t unfolding lists_of_def by metis+
    then have r: "rk x < rk y" "\<forall>z \<in> set b. rk z < rk x" using y by (auto simp: sorted_wrt_append)
    have xy: "x \<in> X" "y \<in> X" "s \<in> S x" "s \<in> S y" "t \<in> S x"
      using l y s t unfolding lists_of_def by (metis (mono_tags) in_set_conv_decomp in_set_conv_decomp_first mem_Collect_eq Un_iff set_append list.set_intros)+
    then have "S x \<subseteq> S y" using n r(1) unfolding nested_def by (meson disjoint_iff less_imp_le)
    then have "y \<in> set (L t)" using l xy unfolding lists_of_def by auto
    then show "y \<in> set d" using t r by auto
  qed
  have "set c = set d" using sub[OF s t] sub[OF t s] by simp
  moreover have "sorted_wrt (\<lambda>x y. rk x < rk y) c" "sorted_wrt (\<lambda>x y. rk x < rk y) d"
    using l s t unfolding lists_of_def by (metis sorted_wrt_append sorted_wrt.simps(2))+
  ultimately show ?thesis by (rule rank_sorted_unique[rotated 2])
qed

lemma lists_of_without:
  assumes "lists_of S rk X L" "lists_of S rk (insert x X) L'" "x \<notin> X"
  shows "L s = filter (\<lambda>y. y \<noteq> x) (L' s)"
proof (rule rank_sorted_unique[of rk])
  show "sorted_wrt (\<lambda>x y. rk x < rk y) (filter (\<lambda>y. y \<noteq> x) (L' s))"
    using assms(2) by (simp add: lists_of_def sorted_wrt_filter)
qed (use assms in \<open>auto simp: lists_of_def\<close>)

lemma filter_neq_id [simp]: "x \<notin> set xs \<Longrightarrow> filter (\<lambda>y. y \<noteq> x) xs = xs"
  by (induction xs) auto

lemma lists_of_member:
  assumes "lists_of S rk X L" "lists_of S rk (insert x X) L'" "x \<notin> X"
  shows "s \<notin> S x \<Longrightarrow> L' s = L s"
    "s \<in> S x \<Longrightarrow> \<exists>a b. L' s = a @ x # b \<and> L s = a @ b \<and> x \<notin> set a \<and> x \<notin> set b \<and> (\<forall>y \<in> set a. rk y < rk x) \<and> (\<forall>y \<in> set b. rk x < rk y)"
proof -
  have d: "distinct (L' s)" using assms(2) rank_sorted_distinct by (auto simp: lists_of_def)
  {
    assume "s \<notin> S x"
    then have "x \<notin> set (L' s)" using assms(2) by (auto simp: lists_of_def)
    then show "L' s = L s" by (subst lists_of_without[OF assms]) simp
  }
  assume "s \<in> S x"
  then have "x \<in> set (L' s)" using assms(2) by (auto simp: lists_of_def)
  then obtain a b where ab: "L' s = a @ x # b" by (meson split_list)
  have n: "x \<notin> set a" "x \<notin> set b" using d ab by auto
  have "L s = a @ b" using n by (subst lists_of_without[OF assms]) (simp add: ab)
  moreover have "sorted_wrt (\<lambda>x y. rk x < rk y) (a @ x # b)" using assms(2) ab unfolding lists_of_def by metis
  ultimately show "\<exists>a b. L' s = a @ x # b \<and> L s = a @ b \<and> x \<notin> set a \<and> x \<notin> set b \<and> (\<forall>y \<in> set a. rk y < rk x) \<and> (\<forall>y \<in> set b. rk x < rk y)"
    using ab n by (auto simp: sorted_wrt_append)
qed

lemma lists_of_exist:
  assumes "finite X" "inj_on rk X"
  shows "\<exists>L. lists_of S rk X L"
proof -
  have "\<exists>xs. sorted_wrt (\<lambda>x y. rk x < rk y) xs \<and> set xs = {x \<in> X. s \<in> S x}" for s
  proof -
    let ?A = "{x \<in> X. s \<in> S x}"
    obtain zs where zs: "set zs = ?A" "distinct zs" using assms(1) finite_distinct_list[of ?A] by auto
    let ?xs = "sort_key rk zs"
    have "sorted (map rk ?xs)" "distinct (map rk ?xs)"
      using zs assms(2) by (auto simp: distinct_map intro: inj_on_subset)
    then have "sorted_wrt (<) (map rk ?xs)" by (simp add: strict_sorted_iff)
    then have "sorted_wrt (\<lambda>x y. rk x < rk y) ?xs" by (simp add: sorted_wrt_map)
    then show ?thesis using zs(1) by (intro exI[of _ ?xs]) simp
  qed
  then show ?thesis unfolding lists_of_def by metis
qed

subsection \<open>Entering an entry into its chains and removing it\<close>

text \<open>While an entry \<open>x\<close> enters or leaves, the chain of a slot is that without \<open>x\<close>, or that with \<open>x\<close>.\<close>

definition between :: "('s \<Rightarrow> eaddr list) \<Rightarrow> ('s \<Rightarrow> eaddr list) \<Rightarrow> entries \<Rightarrow> ('s \<Rightarrow> eaddr option) \<Rightarrow> bool" where
  "between L L' E H \<longleftrightarrow> (\<forall>t. chain E (H t) (L t) \<or> chain E (H t) (L' t))"

definition may_follow :: "('s \<Rightarrow> eaddr list) \<Rightarrow> entries \<Rightarrow> eaddr \<Rightarrow> bool" where
  "may_follow L' E x \<longleftrightarrow>
     (\<exists>e. E x = Some e \<and> (\<forall>t a b. L' t = a @ x # b \<longrightarrow> next_best e = None \<or> next_best e = hdo b))"

text \<open>The slots whose chains go through the entry before \<open>x\<close> are slots of \<open>x\<close>, and \<open>x\<close> follows there too.\<close>

lemma nested_before:
  assumes n: "nested S rk (insert x X)" and l: "lists_of S rk X L" and l': "lists_of S rk (insert x X) L'" and x: "x \<notin> X"
    and u: "L' u = a @ p # x # b" and t: "p \<in> set (L t)"
  shows "\<exists>c. L' t = c @ p # x # b \<and> L t = c @ p # b \<and> p \<notin> set c \<and> p \<notin> set b \<and> x \<notin> set b \<and> p \<noteq> x"
proof -
  have su: "sorted_wrt (\<lambda>x y. rk x < rk y) (a @ p # x # b)" using l' u unfolding lists_of_def by metis
  have dt: "distinct (L' t)" using l' rank_sorted_distinct by (auto simp: lists_of_def)
  have p: "p \<in> X" "t \<in> S p" using l t by (auto simp: lists_of_def)
  then have "p \<in> set (L' t)" using l' by (auto simp: lists_of_def)
  then obtain c d where c: "L' t = c @ p # d" by (meson split_list)
  have "x # b = d" by (rule lists_of_tail[OF n l' u c])
  then have L': "L' t = c @ p # x # b" using c by simp
  have "L t = filter (\<lambda>y. y \<noteq> x) (L' t)" by (rule lists_of_without[OF l l' x])
  then show ?thesis using L' dt by auto
qed

lemma between_upd_slot:
  assumes "between L L' E H" "chain E v (L u) \<or> chain E v (L' u)"
  shows "between L L' E (H(u := v))"
  using assms by (auto simp: between_def)

lemma chain_suffix: "chain E p (a @ c) \<Longrightarrow> chain E (hdo c) c"
proof (induction a arbitrary: p)
  case Nil
  then show ?case using chain_hdo by fastforce
qed auto

lemma next_unlike: "x \<notin> set c \<Longrightarrow> hdo c \<noteq> Some x"
  by (cases c) auto

text \<open>Setting \<^verbatim>\<open>object->next_best\<close> changes no chain that is there.\<close>

lemma set_follow:
  assumes n: "nested S rk (insert x X)" and l: "lists_of S rk X L" and l': "lists_of S rk (insert x X) L'"
    and x: "x \<notin> X" and e: "E x = Some e" and u: "L' u = a @ x # c" "chain E p (L u)" "L u = a @ c" "x \<notin> set c"
  defines "F \<equiv> E(x \<mapsto> e\<lparr>next_best := hdo c\<rparr>)"
  shows "chain E q ys \<Longrightarrow> ys = L t \<or> ys = L' t \<Longrightarrow> chain F q ys" "chain F (Some x) (x # c)" "may_follow L' F x"
proof -
  have cc: "chain F (hdo c) c" using chain_suffix[of E p a c] u by (simp add: F_def chain_frame)
  then show "chain F (Some x) (x # c)" by (simp add: F_def)
  show "may_follow L' F x" unfolding may_follow_def using lists_of_tail[OF n l' _ u(1)] by (auto simp: F_def)
  assume ys: "chain E q ys" "ys = L t \<or> ys = L' t"
  show "chain F q ys"
  proof (cases "x \<in> set ys")
    case True
    then obtain i j where ij: "ys = i @ x # j" by (meson split_list)
    have "x \<notin> set (L t)" using l x by (auto simp: lists_of_def)
    then have "L' t = i @ x # j" using True ys(2) ij by metis
    then have "j = c" using lists_of_tail[OF n l' _ u(1)] by metis
    then have "next_best e = hdo c" using chain_append ys(1) e ij chain_hdo by fastforce
    then have "F = E" by (simp add: F_def e fun_upd_idem)
    then show ?thesis using ys(1) by simp
  qed (simp add: F_def chain_frame ys)
qed

text \<open>Redirecting the entry before \<open>x\<close> to \<open>x\<close> inserts it into all chains through that entry.\<close>

lemma redirect_in:
  assumes n: "nested S rk (insert x X)" and l: "lists_of S rk X L" and l': "lists_of S rk (insert x X) L'"
    and x: "x \<notin> X" and b: "between L L' F H" and u: "L' u = a @ p # x # c" "p \<in> set (L u)" "chain F (H u) (L u)"
    and p: "F p = Some pe" and cx: "chain F (Some x) (x # c)"
  defines "G \<equiv> F(p \<mapsto> pe\<lparr>next_best := Some x\<rparr>)"
  shows "p \<in> set (L t) \<Longrightarrow> chain G (H t) (L' t)"
    "p \<notin> set (L t) \<Longrightarrow> chain F q ys \<Longrightarrow> ys = L t \<or> ys = L' t \<Longrightarrow> chain G q ys"
proof -
  obtain d where d: "L u = d @ p # c" "p \<noteq> x" "p \<notin> set c" "x \<notin> set c" using nested_before[OF n l l' x u(1,2)] by auto
  have pe: "next_best pe = hdo c" using chain_append[of F "H u" d p c] u(3) d(1) p chain_hdo by auto
  {
    assume t: "p \<in> set (L t)"
    obtain d where d': "L' t = d @ p # x # c" "L t = d @ p # c" "p \<notin> set d"
      using nested_before[OF n l l' x u(1) t] by auto
    have "\<not> chain F (H t) (d @ p # x # c)"
      using chain_append[of F "H t" d p "x # c"] p pe next_unlike[OF d(4)] by auto
    then have "chain F (H t) (d @ p # c)" using b d' by (metis between_def)
    then show "chain G (H t) (L' t)"
      unfolding G_def d'(1) by (rule chain_redirect) (use p d d' cx in auto)
  }
  assume "p \<notin> set (L t)" and ys: "chain F q ys" "ys = L t \<or> ys = L' t"
  then have "p \<notin> set ys" using d(2) lists_of_without[OF l l' x, of t] by auto
  then show "chain G q ys" using ys(1) by (simp add: G_def chain_frame)
qed

lemma trie_install_at:
  assumes "install_walk E slot x Slot = Some (Some u)" "upd_get E slot u = Some v" "E x = Some e"
    "next_best e = None \<or> next_best e = v"
  shows "trie_install_fn E x slot = upd_set (E(x \<mapsto> e\<lparr>next_best := v\<rparr>)) slot u (Some x)"
proof (cases "next_best e = None")
  case False
  then have "e\<lparr>next_best := v\<rparr> = e" using assms(4) by (cases e) auto
  then have "E(x \<mapsto> e\<lparr>next_best := v\<rparr>) = E" using assms(3) by (simp add: fun_upd_idem)
  then show ?thesis using assms False by (auto simp: trie_install_fn_def)
qed (use assms in \<open>simp add: trie_install_fn_def pe_upd_def\<close>)

lemma install_step:
  assumes n: "nested S (rank E) (insert x X)" and l: "lists_of S (rank E) X L" and l': "lists_of S (rank E) (insert x X) L'"
    and x: "x \<notin> X" and b: "between L L' E H" and f: "may_follow L' E x" and u: "u \<in> S x"
  shows "\<exists>E' v. trie_install_fn E x (H u) = Some (E', v) \<and> best_only (insert x X) E E' \<and> between L L' E' (H(u := v)) \<and>
    may_follow L' E' x \<and> chain E' v (L' u) \<and> (\<forall>t. chain E (H t) (L' t) \<longrightarrow> chain E' ((H(u := v)) t) (L' t))"
proof -
  obtain e where e: "E x = Some e" and fe: "\<And>t a b. L' t = a @ x # b \<Longrightarrow> next_best e = None \<or> next_best e = hdo b"
    using f by (auto simp: may_follow_def)
  obtain a c where ac: "L' u = a @ x # c" "L u = a @ c" "x \<notin> set a" "x \<notin> set c"
      "\<forall>y \<in> set a. rank E y < rank E x" "\<forall>y \<in> set c. rank E x < rank E y"
    using lists_of_member(2)[OF l l' x u] by blast
  show ?thesis
  proof (cases "chain E (H u) (L' u)")
    case True
    have "install_walk E (H u) x Slot = Some (if hdo (x # c) = Some x then None else Some (if a = [] then Slot else Best (last a)))"
      by (rule install_walk_spec[of E "H u" Slot "H u" a "x # c" x e]) (use True e ac in auto)
    then have "trie_install_fn E x (H u) = Some (E, H u)" by (simp add: trie_install_fn_def)
    then show ?thesis using b f True by auto
  next
    case False
    then have Lu: "chain E (H u) (L u)" using b by (auto simp: between_def)
    then have ch: "chain E (H u) (a @ c)" using ac(2) by simp
    have "install_walk E (H u) x Slot = Some (if hdo c = Some x then None else Some (if a = [] then Slot else Best (last a)))"
      by (rule install_walk_spec[of E "H u" Slot "H u" a c x e]) (use ch e ac in auto)
    then have w: "install_walk E (H u) x Slot = Some (Some (if a = [] then Slot else Best (last a)))"
      using next_unlike[OF ac(4)] by simp
    let ?F = "E(x \<mapsto> e\<lparr>next_best := hdo c\<rparr>)"
    note F = set_follow[OF n l l' x e ac(1) Lu ac(2,4)]
    have FLu: "chain ?F (H u) (L u)" by (rule F(1)[OF Lu, of u]) simp
    have nx: "next_best e = None \<or> next_best e = hdo c" by (rule fe[OF ac(1)])
    have sF: "best_only (insert x X) E ?F" by (rule best_only_upd) (use e in simp_all)
    have bF: "between L L' ?F H" using b F(1) unfolding between_def by blast
    show ?thesis
    proof (cases "a = []")
      case True
      have "trie_install_fn E x (H u) = Some (?F, Some x)"
        using trie_install_at[OF w _ e nx] chain_hdo[OF ch] True by simp
      moreover have c: "chain ?F (Some x) (L' u)" using F(2) ac(1) True by simp
      moreover have "between L L' ?F (H(u := Some x))" by (rule between_upd_slot[OF bF]) (use c in blast)
      moreover have "chain ?F ((H(u := Some x)) t) (L' t)" if "chain E (H t) (L' t)" for t
        using c F(1)[OF that, of t] by (cases "t = u") (simp_all del: chain.simps)
      ultimately show ?thesis using sF F(3) by blast
    next
      case False
      then obtain a' p where a: "a = a' @ [p]" by (metis rev_exhaust)
      obtain pe where pe: "E p = Some pe" "chain E (next_best pe) c" using chain_append[of E "H u" a' p c] ch a by auto
      have px: "p \<noteq> x" and u': "L' u = a' @ p # x # c" "p \<in> set (L u)" using ac a by auto
      have Fp: "?F p = Some pe" using pe(1) px by simp
      let ?G = "?F(p \<mapsto> pe\<lparr>next_best := Some x\<rparr>)"
      note G = redirect_in[OF n l l' x bF u' FLu Fp F(2)]
      have "trie_install_fn E x (H u) = Some (?G, H u)"
        using trie_install_at[OF w _ e nx] chain_hdo[OF pe(2)] pe(1) a px by (simp add: pe_upd_def)
      moreover have "may_follow L' ?G x" using F(3) px by (auto simp: may_follow_def)
      moreover have "p \<in> X" using l u'(2) by (auto simp: lists_of_def)
      then have "best_only (insert x X) E ?G" using best_only_trans[OF sF best_only_upd[of ?F p pe, OF Fp]] by simp
      moreover have "between L L' ?G H" using bF G unfolding between_def by blast
      moreover have "chain ?G (H t) (L' t)" if "chain E (H t) (L' t)" for t
        using G(1)[of t] G(2)[of t] F(1)[OF that, of t] by blast
      moreover have "H(u := H u) = H" by simp
      ultimately show ?thesis using G(1)[OF u'(2)] by metis
    qed
  qed
qed

text \<open>Redirecting the entry before \<open>x\<close> past it takes \<open>x\<close> out of all chains through that entry.\<close>

lemma redirect_out:
  assumes n: "nested S rk (insert x X)" and l: "lists_of S rk X L" and l': "lists_of S rk (insert x X) L'"
    and x: "x \<notin> X" and b: "between L L' E H" and u: "L' u = a @ p # x # c" "p \<in> set (L u)" "chain E (H u) (L' u)"
    and p: "E p = Some pe"
  defines "G \<equiv> E(p \<mapsto> pe\<lparr>next_best := hdo c\<rparr>)"
  shows "p \<in> set (L t) \<Longrightarrow> chain G (H t) (L t)"
    "p \<notin> set (L t) \<Longrightarrow> chain E q ys \<Longrightarrow> ys = L t \<or> ys = L' t \<Longrightarrow> chain G q ys"
proof -
  have d: "p \<noteq> x" "p \<notin> set c" "x \<notin> set c" using nested_before[OF n l l' x u(1,2)] by auto
  have pe: "next_best pe = Some x" and cc: "chain E (hdo c) c"
    using chain_append[of E "H u" a p "x # c"] chain_suffix[of E "H u" "a @ [p, x]" c] u(1,3) p by auto
  {
    assume t: "p \<in> set (L t)"
    obtain d where d': "L' t = d @ p # x # c" "L t = d @ p # c" "p \<notin> set d"
      using nested_before[OF n l l' x u(1) t] by auto
    have "\<not> chain E (H t) (d @ p # c)"
      using chain_append[of E "H t" d p c] p pe next_unlike[OF d(3)] chain_hdo by fastforce
    then have "chain E (H t) (d @ p # x # c)" using b d' by (metis between_def)
    then show "chain G (H t) (L t)"
      unfolding G_def d'(2) by (rule chain_redirect) (use p d d' cc in auto)
  }
  assume "p \<notin> set (L t)" and ys: "chain E q ys" "ys = L t \<or> ys = L' t"
  then have "p \<notin> set ys" using d(1) lists_of_without[OF l l' x, of t] by auto
  then show "chain G q ys" using ys(1) by (simp add: G_def chain_frame)
qed

definition does_follow :: "('s \<Rightarrow> eaddr list) \<Rightarrow> entries \<Rightarrow> eaddr \<Rightarrow> bool" where
  "does_follow L' E x \<longleftrightarrow> (\<exists>e. E x = Some e \<and> (\<forall>t a b. L' t = a @ x # b \<longrightarrow> next_best e = hdo b))"

lemma uninstall_step:
  assumes n: "nested S rk (insert x X)" and l: "lists_of S rk X L" and l': "lists_of S rk (insert x X) L'"
    and x: "x \<notin> X" and b: "between L L' E H" and f: "does_follow L' E x" and u: "u \<in> S x"
  shows "\<exists>E' v. trie_uninstall_fn E x (H u) = Some (E', v) \<and> best_only (insert x X) E E' \<and> between L L' E' (H(u := v)) \<and>
    does_follow L' E' x \<and> chain E' v (L u) \<and> (\<forall>t. chain E (H t) (L t) \<longrightarrow> chain E' ((H(u := v)) t) (L t))"
proof -
  obtain e where e: "E x = Some e" and fe: "\<And>t a b. L' t = a @ x # b \<Longrightarrow> next_best e = hdo b"
    using f by (auto simp: does_follow_def)
  obtain a c where ac: "L' u = a @ x # c" "L u = a @ c" "x \<notin> set a" "x \<notin> set c"
    using lists_of_member(2)[OF l l' x u] by blast
  show ?thesis
  proof (cases "chain E (H u) (L u)")
    case True
    have "uninstall_walk E (H u) x Slot = Some (E, H u)"
      by (rule uninstall_walk_absent[of E "H u" Slot "H u" "L u"]) (use True ac in auto)
    then show ?thesis using b f True by (auto simp: trie_uninstall_fn_def)
  next
    case False
    then have Lu: "chain E (H u) (L' u)" using b by (auto simp: between_def)
    then have ch: "chain E (H u) (a @ x # c)" using ac(1) by simp
    have w: "trie_uninstall_fn E x (H u) = upd_set E (H u) (if a = [] then Slot else Best (last a)) (hdo c)"
      unfolding trie_uninstall_fn_def fe[OF ac(1), symmetric]
      by (rule uninstall_walk_found[of E "H u" Slot "H u" a x c e]) (use ch ac e in auto)
    show ?thesis
    proof (cases "a = []")
      case True
      have "trie_uninstall_fn E x (H u) = Some (E, hdo c)" using w True by simp
      moreover have c: "chain E (hdo c) (L u)" using chain_suffix[of E "H u" "a @ [x]" c] ch ac(2) True by auto
      moreover have "between L L' E (H(u := hdo c))" by (rule between_upd_slot[OF b]) (use c in blast)
      moreover have "chain E ((H(u := hdo c)) t) (L t)" if "chain E (H t) (L t)" for t
        using c that by (cases "t = u") (simp_all del: chain.simps)
      ultimately show ?thesis using f by (meson best_only_refl)
    next
      case False
      then obtain a' p where a: "a = a' @ [p]" by (metis rev_exhaust)
      obtain pe where pe: "E p = Some pe" using chain_append[of E "H u" a' p "x # c"] ch a by auto
      have px: "p \<noteq> x" and u': "L' u = a' @ p # x # c" "p \<in> set (L u)" using ac a by auto
      let ?G = "E(p \<mapsto> pe\<lparr>next_best := hdo c\<rparr>)"
      note G = redirect_out[OF n l l' x b u' Lu pe]
      have "trie_uninstall_fn E x (H u) = Some (?G, H u)" using w pe a by (simp add: pe_upd_def)
      moreover have "does_follow L' ?G x" using f px by (auto simp: does_follow_def)
      moreover have "p \<in> X" using l u'(2) by (auto simp: lists_of_def)
      then have "best_only (insert x X) E ?G" by (intro best_only_upd) (use pe in simp_all)
      moreover have "between L L' ?G H" using b G unfolding between_def by blast
      moreover have "chain ?G (H t) (L t)" if "chain E (H t) (L t)" for t
        using G(1)[of t] G(2)[of t, OF _ that] by blast
      moreover have "H(u := H u) = H" by simp
      ultimately show ?thesis using G(1)[OF u'(2)] by metis
    qed
  qed
qed

text \<open>\<open>fn\<close> applied to the pointers of several slots in turn.\<close>

fun fn_slots :: "(entries \<Rightarrow> eaddr \<Rightarrow> eaddr option \<Rightarrow> (entries \<times> eaddr option) option) \<Rightarrow> eaddr \<Rightarrow> entries \<Rightarrow>
    ('s \<Rightarrow> eaddr option) \<Rightarrow> 's list \<Rightarrow> (entries \<times> ('s \<Rightarrow> eaddr option)) option" where
  "fn_slots fn x E H [] = Some (E, H)"
| "fn_slots fn x E H (s # ss) = do { (E, v) \<leftarrow> fn E x (H s); fn_slots fn x E (H(s := v)) ss }"

lemma fn_slots_image:
  assumes "inj g" "fn_slots fn x E H (map g ss) = Some (E', H')"
  shows "fn_slots fn x E (H \<circ> g) ss = Some (E', H' \<circ> g) \<and> (\<forall>s. s \<notin> range g \<longrightarrow> H' s = H s)"
  using assms(2)
proof (induction ss arbitrary: E H)
  case (Cons s ss)
  then obtain F v where F: "fn E x (H (g s)) = Some (F, v)" "fn_slots fn x F (H(g s := v)) (map g ss) = Some (E', H')"
    by (auto split: Option.bind_splits)
  have "H(g s := v) \<circ> g = (H \<circ> g)(s := v)" using assms(1) by (auto simp: fun_eq_iff inj_eq)
  then have "fn_slots fn x F ((H \<circ> g)(s := v)) ss = Some (E', H' \<circ> g)" using Cons.IH[OF F(2)] by metis
  moreover have "H' t = H t" if "t \<notin> range g" for t using Cons.IH[OF F(2)] that by auto
  ultimately show ?case using F(1) by (simp add: comp_def)
qed simp

lemma install_slots:
  assumes n: "nested S (rank E) (insert x X)" and l: "lists_of S (rank E) X L" and l': "lists_of S (rank E) (insert x X) L'"
    and x: "x \<notin> X" and ss: "set ss \<subseteq> S x" and b: "between L L' E H" and f: "may_follow L' E x"
  shows "\<exists>E' H'. fn_slots trie_install_fn x E H ss = Some (E', H') \<and> best_only (insert x X) E E' \<and> between L L' E' H' \<and>
    (\<forall>t. t \<in> set ss \<or> chain E (H t) (L' t) \<longrightarrow> chain E' (H' t) (L' t))"
  using n l l' ss b f
proof (induction ss arbitrary: E H)
  case (Cons u ss)
  have "u \<in> S x" and ss': "set ss \<subseteq> S x" using Cons.prems(4) by simp_all
  then obtain F v where F: "trie_install_fn E x (H u) = Some (F, v)" "best_only (insert x X) E F" "between L L' F (H(u := v))"
      "may_follow L' F x" "chain F v (L' u)" "\<And>t. chain E (H t) (L' t) \<Longrightarrow> chain F ((H(u := v)) t) (L' t)"
    using install_step[OF Cons.prems(1-3) x Cons.prems(5,6)] by blast
  have r: "rank F = rank E" by (rule rank_same[OF best_only_same[OF F(2)]])
  obtain E' H' where E': "fn_slots trie_install_fn x F (H(u := v)) ss = Some (E', H')" "best_only (insert x X) F E'" "between L L' E' H'"
      "\<And>t. t \<in> set ss \<or> chain F ((H(u := v)) t) (L' t) \<Longrightarrow> chain E' (H' t) (L' t)"
    using Cons.IH[of F "H(u := v)", unfolded r, OF Cons.prems(1-3) ss' F(3,4)] by blast
  have "chain E' (H' t) (L' t)" if "t \<in> set (u # ss) \<or> chain E (H t) (L' t)" for t
    using that E'(4)[of t] F(5) F(6)[of t] by (cases "t = u") auto
  then show ?case using E'(1,3) F(1) best_only_trans[OF F(2) E'(2)] by auto
qed auto

lemma uninstall_slots:
  assumes n: "nested S rk (insert x X)" and l: "lists_of S rk X L" and l': "lists_of S rk (insert x X) L'"
    and x: "x \<notin> X" and ss: "set ss \<subseteq> S x" and b: "between L L' E H" and f: "does_follow L' E x"
  shows "\<exists>E' H'. fn_slots trie_uninstall_fn x E H ss = Some (E', H') \<and> best_only (insert x X) E E' \<and> between L L' E' H' \<and>
    (\<forall>t. t \<in> set ss \<or> chain E (H t) (L t) \<longrightarrow> chain E' (H' t) (L t))"
  using ss b f
proof (induction ss arbitrary: E H)
  case (Cons u ss)
  have "u \<in> S x" and ss': "set ss \<subseteq> S x" using Cons.prems(1) by simp_all
  then obtain F v where F: "trie_uninstall_fn E x (H u) = Some (F, v)" "best_only (insert x X) E F" "between L L' F (H(u := v))"
      "does_follow L' F x" "chain F v (L u)" "\<And>t. chain E (H t) (L t) \<Longrightarrow> chain F ((H(u := v)) t) (L t)"
    using uninstall_step[OF n l l' x Cons.prems(2,3)] by blast
  obtain E' H' where E': "fn_slots trie_uninstall_fn x F (H(u := v)) ss = Some (E', H')" "best_only (insert x X) F E'" "between L L' E' H'"
      "\<And>t. t \<in> set ss \<or> chain F ((H(u := v)) t) (L t) \<Longrightarrow> chain E' (H' t) (L t)"
    using Cons.IH[of F "H(u := v)", OF ss' F(3,4)] by blast
  have "chain E' (H' t) (L t)" if "t \<in> set (u # ss) \<or> chain E (H t) (L t)" for t
    using that E'(4)[of t] F(5) F(6)[of t] by (cases "t = u") auto
  then show ?case using E'(1,3) F(1) best_only_trans[OF F(2) E'(2)] by auto
qed auto

text \<open>The chains of a set of entries: in every slot those that cover it, in the order of their rank.\<close>

definition chains :: "entries \<Rightarrow> ('s \<Rightarrow> eaddr option) \<Rightarrow> (eaddr \<Rightarrow> 's set) \<Rightarrow> eaddr set \<Rightarrow> bool" where
  "chains E H S X \<longleftrightarrow> (\<exists>L. lists_of S (rank E) X L \<and> (\<forall>t. chain E (H t) (L t)))"

lemma install_chains:
  assumes c: "chains E H S X" and n: "nested S (rank E) (insert x X)" and i: "inj_on (rank E) (insert x X)" "finite X" "x \<notin> X"
    and e: "E x = Some e" "next_best e = None" and ss: "set ss = S x"
  shows "\<exists>E' H'. fn_slots trie_install_fn x E H ss = Some (E', H') \<and> best_only (insert x X) E E' \<and> chains E' H' S (insert x X) \<and>
    (\<forall>t \<in> S x. H' t \<noteq> None)"
proof -
  obtain L where L: "lists_of S (rank E) X L" "\<And>t. chain E (H t) (L t)" using c by (auto simp: chains_def)
  obtain L' where L': "lists_of S (rank E) (insert x X) L'" using lists_of_exist[OF _ i(1), of S] i(2) by auto
  have "between L L' E H" "may_follow L' E x" using L(2) e by (auto simp: between_def may_follow_def)
  then obtain E' H' where E': "fn_slots trie_install_fn x E H ss = Some (E', H')" "best_only (insert x X) E E'" "between L L' E' H'"
      "\<And>t. t \<in> S x \<Longrightarrow> chain E' (H' t) (L' t)"
    using install_slots[OF n L(1) L' i(3), of ss H] ss by auto
  have t: "chain E' (H' t) (L' t)" for t
    using E'(3) E'(4)[of t] lists_of_member(1)[OF L(1) L' i(3), of t] unfolding between_def by metis
  have "H' t \<noteq> None" if "t \<in> S x" for t
  proof -
    have "x \<in> set (L' t)" using L' that by (auto simp: lists_of_def)
    then show ?thesis using t[of t] by (cases "L' t") auto
  qed
  then show ?thesis using E'(1,2) t L' rank_same[OF best_only_same[OF E'(2)]] unfolding chains_def by metis
qed

lemma uninstall_chains:
  assumes c: "chains E H S (insert x X)" and n: "nested S (rank E) (insert x X)" and i: "inj_on (rank E) (insert x X)" "finite X" "x \<notin> X"
    and ss: "set ss = S x" "S x \<noteq> {}"
  shows "\<exists>E' H'. fn_slots trie_uninstall_fn x E H ss = Some (E', H') \<and> best_only (insert x X) E E' \<and> chains E' H' S X"
proof -
  obtain L' where L': "lists_of S (rank E) (insert x X) L'" "\<And>t. chain E (H t) (L' t)" using c by (auto simp: chains_def)
  obtain L where L: "lists_of S (rank E) X L" using lists_of_exist[OF i(2), of "rank E" S] i(1) by (auto intro: inj_on_subset)
  obtain u a b where u: "L' u = a @ x # b" using lists_of_member(2)[OF L L'(1) i(3)] ss(2) by blast
  obtain e where e: "E x = Some e" "chain E (next_best e) b" using L'(2)[of u] u chain_append by metis
  have "next_best e = hdo d" if "L' t = g @ x # d" for t g d
    using lists_of_tail[OF n L'(1) u that] e(2) chain_hdo by blast
  then have "between L L' E H" "does_follow L' E x" using L'(2) e by (auto simp: between_def does_follow_def)
  then obtain E' H' where E': "fn_slots trie_uninstall_fn x E H ss = Some (E', H')" "best_only (insert x X) E E'" "between L L' E' H'"
      "\<And>t. t \<in> S x \<Longrightarrow> chain E' (H' t) (L t)"
    using uninstall_slots[OF n L L'(1) i(3), of ss E H] ss(1) by auto
  have t: "chain E' (H' t) (L t)" for t
    using E'(3) E'(4)[of t] lists_of_member(1)[OF L L'(1) i(3), of t] unfolding between_def by metis
  then show ?thesis using E'(1,2) L rank_same[OF best_only_same[OF E'(2)]] unfolding chains_def by metis
qed

end
