(* ===== verification/Prefix_List_Trie.thy ===== *)
theory Prefix_List_Trie
  imports Prefix_List_Chain
begin

text \<open>
  The trie of a prefix list as a function from slots to chains. Adding and deleting an entry
  act on the slots its prefix covers, two entries that share a slot are nested, and the walk of
  \<^verbatim>\<open>prefix_list_apply_ext\<close> passes a slot of every entry that matches.
\<close>

subsection \<open>The trie as a family of slots\<close>

text \<open>A slot: the bytes that lead to its table, its index there, and whether it is the final chain.\<close>

type_synonym slot = "nat list \<times> nat \<times> bool"

fun slotval :: "pltrie_table \<Rightarrow> slot \<Rightarrow> eaddr option" where
  "slotval t ([], b, final) =
     (if b < length t then (if final then (case fst (t ! b) of Final_chain a \<Rightarrow> Some a | _ \<Rightarrow> None) else snd (t ! b)) else None)"
| "slotval t (c # path, b, final) =
     (if c < length t then (case fst (t ! c) of Next_table t' \<Rightarrow> slotval t' (path, b, final) | _ \<Rightarrow> None) else None)"

text \<open>Tables have \<^verbatim>\<open>PLC_LEN\<close> entries, lead to tables above the last level and to final chains on it, and
  no table but the first is empty.\<close>

fun trie_wf :: "nat \<Rightarrow> pltrie_table \<Rightarrow> bool" where
  "trie_wf 0 t \<longleftrightarrow> False"
| "trie_wf (Suc d) t \<longleftrightarrow> length t = 256 \<and>
     (\<forall>link \<in> fst ` set t. case link of
        Null \<Rightarrow> True
      | Final_chain a \<Rightarrow> d = 0
      | Next_table t' \<Rightarrow> d \<noteq> 0 \<and> trie_wf d t' \<and> \<not> trie_table_empty t')"

lemma PLC [simp]: "PLC_BITS = 8" "PLC_LEN = 256"
  by (simp_all add: PLC_BITS_def PLC_LEN_def)

definition link_ok :: "nat \<Rightarrow> pltrie_link \<Rightarrow> bool" where
  "link_ok d link = (case link of
     Null \<Rightarrow> True
   | Final_chain a \<Rightarrow> d = 1
   | Next_table t' \<Rightarrow> 1 < d \<and> trie_wf (d - 1) t' \<and> \<not> trie_table_empty t')"

lemma link_ok_simps [simp]:
  "link_ok d Null" "link_ok d (Final_chain a) \<longleftrightarrow> d = 1"
  "link_ok d (Next_table t') \<longleftrightarrow> 1 < d \<and> trie_wf (d - 1) t' \<and> \<not> trie_table_empty t'"
  by (simp_all add: link_ok_def)

lemma trie_wf_iff: "trie_wf d t \<longleftrightarrow> 0 < d \<and> length t = 256 \<and> (\<forall>link \<in> fst ` set t. link_ok d link)"
  by (cases d) (auto simp: link_ok_def split: pltrie_link.split)

lemma trie_wf_length: "trie_wf d t \<Longrightarrow> length t = 256"
  by (simp add: trie_wf_iff)

lemma trie_wf_nth: "trie_wf d t \<Longrightarrow> b < 256 \<Longrightarrow> link_ok d (fst (t ! b))"
  by (auto simp: trie_wf_iff)

lemma trie_wf_update:
  assumes "trie_wf d t" "link_ok d link"
  shows "trie_wf d (t[b := (link, up)])"
proof -
  have "fst ` set (t[b := (link, up)]) \<subseteq> insert link (fst ` set t)"
    using set_update_subset_insert[of t b "(link, up)"] by auto
  then show ?thesis using assms unfolding trie_wf_iff by (metis insertE length_list_update subset_iff)
qed

lemma slotval_empty: "trie_table_empty t \<Longrightarrow> slotval t s = None"
proof (induction t s rule: slotval.induct)
  case (1 t b final)
  then have "b < length t \<Longrightarrow> t ! b = (Null, None)" by (auto simp: trie_table_empty_def list_all_length)
  then show ?case by auto
next
  case (2 t c path b final)
  then have "c < length t \<Longrightarrow> t ! c = (Null, None)" by (auto simp: trie_table_empty_def list_all_length)
  then show ?case by auto
qed

lemma slotval_nonempty: "trie_wf d t \<Longrightarrow> \<not> trie_table_empty t \<Longrightarrow> \<exists>s. slotval t s \<noteq> None"
proof (induction d arbitrary: t)
  case (Suc d)
  then obtain b where b: "b < length t" "t ! b \<noteq> (Null, None)"
    unfolding trie_table_empty_def list_all_length by (metis (mono_tags, lifting) case_prodI)
  then have b': "b < 256" using Suc.prems(1) by simp
  show ?case
  proof (cases "fst (t ! b)")
    case Null
    then have "slotval t ([], b, False) \<noteq> None" using b by (cases "t ! b") auto
    then show ?thesis by blast
  next
    case (Final_chain a)
    then have "slotval t ([], b, True) \<noteq> None" using b by simp
    then show ?thesis by blast
  next
    case (Next_table t')
    then have "trie_wf d t'" "\<not> trie_table_empty t'" using trie_wf_nth[OF Suc.prems(1) b'] by auto
    then obtain s where s: "slotval t' s \<noteq> None" using Suc.IH by blast
    obtain p i f where "s = (p, i, f)" by (cases s)
    then have "slotval t (b # p, i, f) \<noteq> None" using s Next_table b by simp
    then show ?thesis by blast
  qed
qed simp

lemma trie_empty_iff: "trie_wf d t \<Longrightarrow> trie_table_empty t \<longleftrightarrow> (\<forall>s. slotval t s = None)"
  using slotval_empty slotval_nonempty by metis

lemma trie_table_empty_new [simp]: "trie_table_empty pltrie_new"
  by (simp add: trie_table_empty_def pltrie_new_def list_all_length)

lemma trie_wf_new [simp]: "0 < d \<Longrightarrow> trie_wf d pltrie_new"
  by (cases d) (auto simp: pltrie_new_def)

definition below :: "nat \<Rightarrow> slot \<Rightarrow> slot" where
  "below b s = (b # fst s, snd s)"

lemma inj_below: "inj (below b)"
  by (auto simp: inj_def below_def prod_eq_iff)

lemma slotval_below:
  "slotval t (below b s) = (if b < length t then (case fst (t ! b) of Next_table t' \<Rightarrow> slotval t' s | _ \<Rightarrow> None) else None)"
  by (cases s; cases "fst (t ! b)") (simp_all add: below_def)

lemma slotval_update_table:
  assumes "b < length t" "link = Next_table t' \<or> link = Null \<and> (\<forall>s. slotval t' s = None)" "fst (t ! b) = Null \<or> (\<exists>t0. fst (t ! b) = Next_table t0)"
  shows "slotval (t[b := (link, snd (t ! b))]) s = (if s \<in> range (below b) then slotval t' (tl (fst s), snd s) else slotval t s)"
proof -
  obtain p i f where s: "s = (p, i, f)" by (cases s)
  show ?thesis
  proof (cases p)
    case Nil
    then show ?thesis using assms by (cases "b = i") (auto simp: s below_def nth_list_update)
  next
    case (Cons c p')
    have "s \<in> range (below b) \<longleftrightarrow> c = b" by (auto simp: s Cons below_def image_iff)
    then show ?thesis using assms by (cases "c = b") (auto simp: s Cons nth_list_update)
  qed
qed

text \<open>The slots an entry covers, in the order in which \<^verbatim>\<open>trie_walk_affected\<close> visits them.\<close>

fun entry_slots :: "nat \<Rightarrow> u8 list \<Rightarrow> nat \<Rightarrow> slot list" where
  "entry_slots d [] v = []"
| "entry_slots d (b # bs) v =
     (if 8 < v \<and> 1 < d then map (below (unat b)) (entry_slots (d - 1) bs (v - 8))
      else if 8 < v then [([], unat b, True)]
      else map (\<lambda>c. ([], c, False)) [unat b..<unat b + 2 ^ (8 - v)])"

text \<open>In the byte where the prefix ends, no bit is set beyond its length.\<close>

fun slots_ok :: "nat \<Rightarrow> u8 list \<Rightarrow> nat \<Rightarrow> bool" where
  "slots_ok d [] v = False"
| "slots_ok d (b # bs) v =
     (if 8 < v \<and> 1 < d then slots_ok (d - 1) bs (v - 8) else 8 < v \<or> unat b mod 2 ^ (8 - v) = 0)"

lemma unat_u8_less: "unat (b :: u8) < 256"
  using unsigned_less[of b] by simp

lemma masked_byte:
  assumes "v \<le> 8" "unat (b :: u8) mod 2 ^ (8 - v) = 0"
  shows "unat b + 2 ^ (8 - v) \<le> 256" "b AND NOT (push_bit (8 - v) 1 - 1) = b" "unat (push_bit (8 - v) 1 - 1 :: u8) = 2 ^ (8 - v) - 1"
proof -
  let ?k = "8 - v"
  have m: "push_bit ?k 1 - 1 = (mask ?k :: u8)" by (simp add: mask_eq_exp_minus_1 push_bit_eq_mult)
  have k: "?k \<le> 8" by simp
  show "unat (push_bit ?k 1 - 1 :: u8) = 2 ^ ?k - 1"
  proof -
    have "uint (mask ?k :: u8) = 2 ^ ?k - 1" using k by (simp only: uint_mask_eq) (auto simp: mask_eq_exp_minus_1 min_def)
    then have "nat (uint (mask ?k :: u8)) = 2 ^ ?k - 1" by (simp add: nat_diff_distrib nat_power_eq)
    then show ?thesis unfolding m by simp
  qed
  obtain q where q: "unat b = q * 2 ^ ?k" using assms(2) by (metis mult.commute mod_0_imp_dvd dvd_def)
  have e: "(256 :: nat) = 2 ^ v * 2 ^ ?k" using assms(1) by (simp flip: power_add)
  have "unat b < 256" by (rule unat_u8_less)
  then have "q < 2 ^ v" unfolding q e by simp
  then have "(q + 1) * 2 ^ ?k \<le> 2 ^ v * 2 ^ ?k" by (intro mult_right_mono) auto
  then show "unat b + 2 ^ ?k \<le> 256" unfolding q e by simp
  have "unat (take_bit ?k b) = 0" unfolding unsigned_take_bit_eq using assms(2) by (simp add: take_bit_eq_mod)
  then have "take_bit ?k b = 0" by (simp only: unsigned_eq_0_iff)
  then have "\<not> bit b i" if "i < ?k" for i using that by (metis bit_0_eq bit_take_bit_iff bot_apply bot_bool_def)
  then show "b AND NOT (push_bit ?k 1 - 1) = b"
    unfolding m by (auto intro!: bit_eqI simp: bit_and_iff bit_not_iff bit_mask_iff)
qed

lemma walk_slots_spec:
  assumes "trie_wf d t" "\<forall>b \<in> set bs. b < 256"
    "fn_slots fn x E (slotval t) (map (\<lambda>c. ([], c, False)) bs) = Some (E', H')"
  shows "\<exists>t'. walk_slots fn x E t bs = Some (E', t') \<and> slotval t' = H' \<and> trie_wf d t'"
  using assms
proof (induction bs arbitrary: E t)
  case (Cons b bs)
  obtain link up where b: "t ! b = (link, up)" by (cases "t ! b")
  have l: "b < length t" using Cons.prems(1,2) trie_wf_length by auto
  obtain F v where F: "fn E x up = Some (F, v)"
      "fn_slots fn x F ((slotval t)(([], b, False) := v)) (map (\<lambda>c. ([], c, False)) bs) = Some (E', H')"
    using Cons.prems(3) l by (auto simp: b split: Option.bind_splits)
  have "slotval (t[b := (link, v)]) s = ((slotval t)(([], b, False) := v)) s" for s
    using l b by (cases "(t, s)" rule: slotval.cases) (auto simp: nth_list_update)
  then have u: "slotval (t[b := (link, v)]) = (slotval t)(([], b, False) := v)" by (rule ext)
  have "link_ok d link" using trie_wf_nth[OF Cons.prems(1), of b] Cons.prems(2) b by simp
  then have "trie_wf d (t[b := (link, v)])" by (rule trie_wf_update[OF Cons.prems(1)])
  from Cons.IH[OF this _ F(2)[folded u]] show ?case using F(1) l Cons.prems(2) by (simp add: b)
qed simp

lemma trie_walk_affected_spec:
  assumes wf: "trie_wf d t" and v: "\<not> (8 < v \<and> 1 < d)" "slots_ok d (b # bs) v"
    and f: "fn_slots fn x E (slotval t) (entry_slots d (b # bs) v) = Some (E', H')"
  shows "\<exists>t'. trie_walk_affected v t b x fn E = Some (E', t') \<and> slotval t' = H' \<and> trie_wf d t'"
proof (cases "8 < v")
  case False
  then have m: "v \<le> 8" "unat b mod 2 ^ (8 - v) = 0" using v by auto
  have "fn_slots fn x E (slotval t) (map (\<lambda>c. ([], c, False)) [unat b..<unat b + 2 ^ (8 - v)]) = Some (E', H')"
    using f False by simp
  moreover have "unat b + (2 ^ (8 - v) - 1) + 1 = unat b + 2 ^ (8 - v)" using one_le_power[of "2 :: nat" "8 - v"] by linarith
  then have "trie_walk_affected v t b x fn E = walk_slots fn x E t [unat b..<unat b + 2 ^ (8 - v)]"
    using False unfolding trie_walk_affected_def Let_def masked_byte(2,3)[OF m] by simp
  ultimately show ?thesis
    using walk_slots_spec[OF wf, of "[unat b..<unat b + 2 ^ (8 - v)]"] masked_byte(1)[OF m] by auto
next
  case True
  have d: "d = 1" using v True wf by (cases d) auto
  have l: "unat b < 256" "unat b < length t" using trie_wf_length[OF wf] unat_u8_less[of b] by simp_all
  obtain link up where b: "t ! unat b = (link, up)" by (cases "t ! unat b")
  have k: "link_ok 1 link" using trie_wf_nth[OF wf l(1)] b d by simp
  then obtain fin where fin: "final_get link = Some fin" "slotval t ([], unat b, True) = fin"
    using b l by (cases link) auto
  obtain v where F: "fn E x fin = Some (E', v)" "H' = (slotval t)(([], unat b, True) := v)"
    using f True d fin by (auto split: Option.bind_splits)
  let ?t = "t[unat b := (final_set v, up)]"
  have "slotval ?t s = H' s" for s
    unfolding F(2) using l b k
    by (cases "(t, s)" rule: slotval.cases; cases link) (auto simp: nth_list_update final_set_def split: option.splits)
  then have "slotval ?t = H'" by (rule ext)
  moreover have "trie_wf d ?t" by (rule trie_wf_update[OF wf]) (simp add: d final_set_def split: option.split)
  ultimately show ?thesis using True F(1) fin l b by (simp add: trie_walk_affected_def)
qed

text \<open>Descending to the table of a byte: a fold over slots below it is a fold over that table.\<close>

lemma fn_slots_below:
  assumes "b < length t" "\<And>s. slotval t (below b s) = slotval t1 s"
    "fn_slots fn x E (slotval t) (map (below b) ss) = Some (E', H')"
  shows "fn_slots fn x E (slotval t1) ss = Some (E', H' \<circ> below b)" "s \<notin> range (below b) \<Longrightarrow> H' s = slotval t s"
proof -
  have "slotval t \<circ> below b = slotval t1" using assms(2) by auto
  then show "fn_slots fn x E (slotval t1) ss = Some (E', H' \<circ> below b)"
    using fn_slots_image[OF inj_below assms(3)] by metis
  show "s \<notin> range (below b) \<Longrightarrow> H' s = slotval t s" using fn_slots_image[OF inj_below assms(3)] by blast
qed

lemma below_sel: "s \<in> range (below b) \<Longrightarrow> below b (tl (fst s), snd s) = s"
  by (auto simp: below_def)

lemma trie_add_spec:
  assumes "trie_wf d t" "slots_ok d bs v" "fn_slots trie_install_fn x E (slotval t) (entry_slots d bs v) = Some (E', H')"
    "\<exists>s \<in> set (entry_slots d bs v). H' s \<noteq> None"
  shows "\<exists>t'. trie_add d bs v x E t = Some (E', t') \<and> slotval t' = H' \<and> trie_wf d t'"
  using assms
proof (induction d arbitrary: bs v t H')
  case (Suc d)
  obtain b cs where bs: "bs = b # cs" using Suc.prems(2) by (cases bs) auto
  show ?case
  proof (cases "8 < v \<and> 1 < Suc d")
    case False
    then have "trie_add (Suc d) bs v x E t = trie_walk_affected v t b x trie_install_fn E" by (auto simp: bs)
    then show ?thesis using trie_walk_affected_spec[OF Suc.prems(1) False Suc.prems(2,3)[unfolded bs]] by simp
  next
    case True
    have l: "unat b < 256" "unat b < length t" using trie_wf_length[OF Suc.prems(1)] unat_u8_less[of b] by simp_all
    obtain link up where b: "t ! unat b = (link, up)" by (cases "t ! unat b")
    have ok: "slots_ok d cs (v - 8)" using Suc.prems(2) True by (simp add: bs)
    have k: "link_ok (Suc d) link" using trie_wf_nth[OF Suc.prems(1) l(1)] b by simp
    define t1 where "t1 = (case link of Next_table t1 \<Rightarrow> t1 | _ \<Rightarrow> pltrie_new)"
    have t1: "trie_wf d t1" "slotval t (below (unat b) s) = slotval t1 s"
      "(case link of Null \<Rightarrow> Some pltrie_new | Next_table t \<Rightarrow> Some t | Final_chain _ \<Rightarrow> None) = Some t1" for s
      using True k b l by (cases link; simp add: t1_def slotval_below slotval_empty)+
    note f = fn_slots_below[OF l(2) t1(2), of trie_install_fn x E "entry_slots d cs (v - 8)" E' H']
    have f': "fn_slots trie_install_fn x E (slotval t) (map (below (unat b)) (entry_slots d cs (v - 8))) = Some (E', H')"
      using Suc.prems(3) True by (simp add: bs)
    have ne: "\<exists>s \<in> set (entry_slots d cs (v - 8)). (H' \<circ> below (unat b)) s \<noteq> None"
      using Suc.prems(4) True by (simp add: bs)
    obtain t' where t': "trie_add d cs (v - 8) x E t1 = Some (E', t')" "slotval t' = H' \<circ> below (unat b)" "trie_wf d t'"
      using Suc.IH[OF t1(1) ok f(1)[OF f'] ne] by blast
    have "\<not> trie_table_empty t'" using ne t'(2) slotval_empty by metis
    then have "trie_wf (Suc d) (t[unat b := (Next_table t', up)])"
      using True t'(3) by (intro trie_wf_update[OF Suc.prems(1)]) simp
    moreover have "slotval (t[unat b := (Next_table t', snd (t ! unat b))]) s = H' s" for s
    proof -
      have "fst (t ! unat b) = Null \<or> (\<exists>t0. fst (t ! unat b) = Next_table t0)" using k True b by (cases link) auto
      then show ?thesis
        using slotval_update_table[OF l(2), of "Next_table t'" t' s] t'(2) f(2)[OF f', of s] below_sel[of s "unat b"] by auto
    qed
    moreover have "trie_add (Suc d) bs v x E t = Some (E', t[unat b := (Next_table t', up)])"
      using True l b t1(3) t'(1) by (simp add: bs)
    ultimately show ?thesis using b by auto
  qed
qed simp

lemma trie_del_spec:
  assumes "trie_wf d t" "slots_ok d bs v" "fn_slots trie_uninstall_fn x E (slotval t) (entry_slots d bs v) = Some (E', H')"
    "\<exists>s \<in> set (entry_slots d bs v). slotval t s \<noteq> None"
  shows "\<exists>t'. trie_del d bs v x E t = Some (E', t') \<and> slotval t' = H' \<and> trie_wf d t'"
  using assms
proof (induction d arbitrary: bs v t H')
  case (Suc d)
  obtain b cs where bs: "bs = b # cs" using Suc.prems(2) by (cases bs) auto
  show ?case
  proof (cases "8 < v \<and> 1 < Suc d")
    case False
    then have "trie_del (Suc d) bs v x E t = trie_walk_affected v t b x trie_uninstall_fn E" by (auto simp: bs)
    then show ?thesis using trie_walk_affected_spec[OF Suc.prems(1) False Suc.prems(2,3)[unfolded bs]] by simp
  next
    case True
    have l: "unat b < 256" "unat b < length t" using trie_wf_length[OF Suc.prems(1)] unat_u8_less[of b] by simp_all
    obtain link up where b: "t ! unat b = (link, up)" by (cases "t ! unat b")
    have ok: "slots_ok d cs (v - 8)" using Suc.prems(2) True by (simp add: bs)
    have k: "link_ok (Suc d) link" using trie_wf_nth[OF Suc.prems(1) l(1)] b by simp
    obtain t1 where link: "link = Next_table t1"
      using Suc.prems(4) True l b by (cases link) (auto simp: bs slotval_below)
    have t1: "trie_wf d t1" "slotval t (below (unat b) s) = slotval t1 s" for s
      using k b l by (simp_all add: link slotval_below)
    note f = fn_slots_below[OF l(2) t1(2), of trie_uninstall_fn x E "entry_slots d cs (v - 8)" E' H']
    have f': "fn_slots trie_uninstall_fn x E (slotval t) (map (below (unat b)) (entry_slots d cs (v - 8))) = Some (E', H')"
      using Suc.prems(3) True by (simp add: bs)
    have ne: "\<exists>s \<in> set (entry_slots d cs (v - 8)). slotval t1 s \<noteq> None"
      using Suc.prems(4) True t1(2) by (simp add: bs)
    obtain t' where t': "trie_del d cs (v - 8) x E t1 = Some (E', t')" "slotval t' = H' \<circ> below (unat b)" "trie_wf d t'"
      using Suc.IH[OF t1(1) ok f(1)[OF f'] ne] by blast
    define link' where "link' = (if trie_table_empty t' then Null else Next_table t')"
    have "trie_wf (Suc d) (t[unat b := (link', up)])"
      using True t'(3) by (intro trie_wf_update[OF Suc.prems(1)]) (simp add: link'_def)
    moreover have "slotval (t[unat b := (link', snd (t ! unat b))]) s = H' s" for s
    proof -
      have "link' = Next_table t' \<or> link' = Null \<and> (\<forall>s. slotval t' s = None)"
        using trie_empty_iff[OF t'(3)] by (simp add: link'_def)
      then show ?thesis
        using slotval_update_table[OF l(2), of link' t' s] t'(2) f(2)[OF f', of s] below_sel[of s "unat b"] b link by auto
    qed
    moreover have "trie_del (Suc d) bs v x E t = Some (E', t[unat b := (link', up)])"
      using True l b link t'(1) by (simp add: bs link'_def)
    ultimately show ?thesis using b by auto
  qed
qed simp

lemma aligned_block: "x mod 2 ^ k = 0 \<Longrightarrow> y \<in> {x..<x + 2 ^ k} \<longleftrightarrow> y div 2 ^ k = x div (2 ^ k :: nat)"
  using div_eq_iff_range[of "2 ^ k" "x div 2 ^ k" y] by (auto simp: minus_mod_eq_div_mult[symmetric])

lemma aligned_blocks_nested:
  fixes c c' :: nat
  assumes "j \<le> k" "c div 2 ^ j = c' div 2 ^ j"
  shows "c div 2 ^ k = c' div 2 ^ k"
proof -
  have "(2 :: nat) ^ k = 2 ^ j * 2 ^ (k - j)" using assms(1) by (simp flip: power_add)
  then show ?thesis using assms(2) by (simp add: div_mult2_eq)
qed

text \<open>Of two entries that share a slot, the one with the shorter prefix covers the slots of the other.\<close>

lemma entry_slots_nested:
  assumes "0 < d" "slots_ok d bs v" "slots_ok d cs w" "v \<le> w" "set (entry_slots d bs v) \<inter> set (entry_slots d cs w) \<noteq> {}"
  shows "set (entry_slots d cs w) \<subseteq> set (entry_slots d bs v)"
  using assms
proof (induction d arbitrary: bs cs v w)
  case (Suc d)
  obtain b bs' c cs' where bs: "bs = b # bs'" "cs = c # cs'" using Suc.prems(2,3) by (cases bs; cases cs) auto
  have shared: "\<exists>s. s \<in> set (entry_slots (Suc d) bs v) \<and> s \<in> set (entry_slots (Suc d) cs w)" using Suc.prems(5) by blast
  consider "8 < v \<and> 0 < d" | "\<not> (8 < v \<and> 0 < d)" "8 < w" | "w \<le> 8" by linarith
  then show ?case
  proof cases
    case 1
    then have e: "set (entry_slots (Suc d) bs v) = below (unat b) ` set (entry_slots d bs' (v - 8))"
      "set (entry_slots (Suc d) cs w) = below (unat c) ` set (entry_slots d cs' (w - 8))"
      using Suc.prems(4) by (auto simp: bs)
    obtain s t where st: "s \<in> set (entry_slots d bs' (v - 8))" "t \<in> set (entry_slots d cs' (w - 8))" "below (unat b) s = below (unat c) t"
      using shared unfolding e by blast
    then have "s = t" "unat b = unat c" by (auto simp: below_def prod_eq_iff)
    moreover have "set (entry_slots d cs' (w - 8)) \<subseteq> set (entry_slots d bs' (v - 8))"
      by (rule Suc.IH) (use st \<open>s = t\<close> 1 Suc.prems in \<open>auto simp: bs simp del: split_paired_Ex split_paired_All\<close>)
    ultimately show ?thesis unfolding e by auto
  next
    case 2
    then show ?thesis using shared Suc.prems(4) by (auto simp: bs below_def split: if_splits)
  next
    case 3
    then have v: "v \<le> 8" using Suc.prems(4) by simp
    have m: "unat b mod 2 ^ (8 - v) = 0" "unat c mod 2 ^ (8 - w) = 0" using Suc.prems(2,3) v 3 by (auto simp: bs)
    have s: "set (entry_slots (Suc d) bs v) = (\<lambda>c. ([], c, False)) ` {unat b..<unat b + 2 ^ (8 - v)}"
      "set (entry_slots (Suc d) cs w) = (\<lambda>c. ([], c, False)) ` {unat c..<unat c + 2 ^ (8 - w)}"
      using v 3 by (auto simp: bs)
    obtain y where y: "y div 2 ^ (8 - v) = unat b div 2 ^ (8 - v)" "y div 2 ^ (8 - w) = unat c div 2 ^ (8 - w)"
      using shared unfolding s aligned_block[OF m(1), symmetric] aligned_block[OF m(2), symmetric] by auto
    have "z \<in> {unat b..<unat b + 2 ^ (8 - v)}" if "z \<in> {unat c..<unat c + 2 ^ (8 - w)}" for z
      using that aligned_blocks_nested[of "8 - w" "8 - v" z y] y Suc.prems(4)
      unfolding aligned_block[OF m(1)] aligned_block[OF m(2)] by simp
    then show ?thesis unfolding s by blast
  qed
qed simp

text \<open>The slots \<^verbatim>\<open>prefix_list_apply_ext\<close> looks at.\<close>

fun visit_slots :: "nat \<Rightarrow> u8 list \<Rightarrow> nat \<Rightarrow> slot list" where
  "visit_slots d [] v = []"
| "visit_slots d (b # bs) v = ([], unat b, False) #
     (if v \<le> 8 then []
      else if d - 1 \<noteq> 0 then map (below (unat b)) (visit_slots (d - 1) bs (v - 8))
      else [([], unat b, True)])"

lemma top_bits_div:
  assumes "v \<le> 8" "take v (bits_of [b]) = take v (bits_of [c])"
  shows "unat b div 2 ^ (8 - v) = unat c div 2 ^ (8 - v)"
proof -
  have "bit b (7 - i) = bit c (7 - i)" if "i < v" for i
  proof -
    have "take v (bits_of [b]) ! i = take v (bits_of [c]) ! i" using assms(2) by simp
    then show ?thesis using that assms(1) by (simp add: nth_bits_of)
  qed
  note h = this
  have "bit b n = bit c n" if "8 - v \<le> n" "n < 8" for n
  proof -
    have "7 - n < v" "7 - (7 - n) = n" using that assms(1) by linarith+
    then show ?thesis using h[of "7 - n"] by simp
  qed
  then have "bit b (8 - v + n) = bit c (8 - v + n)" for n by (cases "8 - v + n < 8") auto
  then have "drop_bit (8 - v) b = drop_bit (8 - v) c" by (intro bit_eqI) (simp add: bit_drop_bit_eq)
  then have "unat (drop_bit (8 - v) b) = unat (drop_bit (8 - v) c)" by simp
  then show ?thesis unfolding unat_drop_bit_eq by (simp add: drop_bit_eq_div)
qed

lemma bits_of_Cons: "bits_of (b # bs) = bits_of [b] @ bits_of bs"
  using bits_of_append[of "[b]" bs] by simp

text \<open>A prefix that an entry matches leads through one of the slots of the entry.\<close>

lemma visit_covers:
  assumes "0 < d" "slots_ok d bs v" "d \<le> length cs" "v \<le> w" "take v (bits_of bs) = take v (bits_of cs)"
  shows "\<exists>s. s \<in> set (entry_slots d bs v) \<and> s \<in> set (visit_slots d cs w)"
  using assms
proof (induction d arbitrary: bs cs v w)
  case (Suc d)
  obtain b bs' c cs' where bs: "bs = b # bs'" "cs = c # cs'" using Suc.prems(2,3) by (cases bs; cases cs) auto
  have len: "length (bits_of [b]) = 8" "length (bits_of [c]) = 8" by simp_all
  have bits: "take v (bits_of [b]) = take v (bits_of [c]) \<and> take (v - 8) (bits_of bs') = take (v - 8) (bits_of cs')"
  proof -
    have "take v (bits_of [b]) @ take (v - 8) (bits_of bs') = take v (bits_of [c]) @ take (v - 8) (bits_of cs')"
      using Suc.prems(5) unfolding bs bits_of_Cons[of b bs'] bits_of_Cons[of c cs'] take_append len .
    moreover have "length (take v (bits_of [b])) = length (take v (bits_of [c]))" by simp
    ultimately show ?thesis using append_eq_append_conv by blast
  qed
  show ?case
  proof (cases "8 < v")
    case False
    then have v: "v \<le> 8" by simp
    have m: "unat b mod 2 ^ (8 - v) = 0" using Suc.prems(2) False by (auto simp: bs)
    have "unat c \<in> {unat b..<unat b + 2 ^ (8 - v)}"
      unfolding aligned_block[OF m] using top_bits_div[OF v, of b c] bits by simp
    then show ?thesis using False by (intro exI[of _ "([], unat c, False)"]) (auto simp: bs)
  next
    case True
    then have "take 8 (take v (bits_of [b])) = take 8 (take v (bits_of [c]))" using bits by simp
    then have "take 8 (bits_of [b]) = take 8 (bits_of [c])" using True by (simp add: min_def)
    then have bc: "unat b = unat c" using top_bits_div[of 8 b c] by simp
    show ?thesis
    proof (cases "0 < d")
      case False
      then show ?thesis using True bc Suc.prems(4) by (intro exI[of _ "([], unat c, True)"]) (auto simp: bs)
    next
      case d: True
      have "\<exists>s. s \<in> set (entry_slots d bs' (v - 8)) \<and> s \<in> set (visit_slots d cs' (w - 8))"
        by (rule Suc.IH[OF d]) (use Suc.prems True d bits in \<open>auto simp: bs\<close>)
      then obtain s where "s \<in> set (entry_slots d bs' (v - 8))" "s \<in> set (visit_slots d cs' (w - 8))" by blast
      then show ?thesis using True d bc Suc.prems(4) by (intro exI[of _ "below (unat c) s"]) (auto simp: bs)
    qed
  qed
qed simp

subsection \<open>The best match\<close>

definition seq_of :: "entries \<Rightarrow> eaddr \<Rightarrow> int" where
  "seq_of E x = (case E x of None \<Rightarrow> 0 | Some e \<Rightarrow> pe_seq e)"

definition matches :: "entries \<Rightarrow> prefix \<Rightarrow> bool \<Rightarrow> eaddr \<Rightarrow> bool" where
  "matches E p am x = (case E x of None \<Rightarrow> False | Some e \<Rightarrow> prefix_list_entry_match e p am)"

text \<open>\<open>r\<close> is the entry of lowest number in \<open>A\<close> that satisfies \<open>P\<close>, if there is one.\<close>

definition is_best :: "entries \<Rightarrow> (eaddr \<Rightarrow> bool) \<Rightarrow> eaddr set \<Rightarrow> eaddr option \<Rightarrow> bool" where
  "is_best E P A r \<longleftrightarrow> (case r of
     None \<Rightarrow> \<forall>a \<in> A. \<not> P a
   | Some b \<Rightarrow> b \<in> A \<and> P b \<and> (\<forall>a \<in> A. P a \<longrightarrow> seq_of E b \<le> seq_of E a))"

lemma best_walk_spec:
  assumes "chain E q ys" "is_best E (matches E p am) A r" "\<forall>a \<in> A. E a \<noteq> None"
  shows "\<exists>r'. best_walk E p am q r = Some r' \<and> is_best E (matches E p am) (A \<union> set ys) r'"
  using assms
proof (induction ys arbitrary: q r A)
  case Nil
  then show ?case by (subst best_walk.simps) simp
next
  case (Cons y ys)
  obtain e where e: "E y = Some e" "q = Some y" "chain E (next_best e) ys" using Cons.prems(1) by auto
  define skip where "skip = (case r of None \<Rightarrow> False | Some b \<Rightarrow> seq_of E b < pe_seq e)"
  define r1 where "r1 = (if \<not> skip \<and> prefix_list_entry_match e p am then Some y else r)"
  have "(case r of None \<Rightarrow> Some False | Some b \<Rightarrow> do { be \<leftarrow> E b; Some (pe_seq be < pe_seq e) }) = Some skip"
    using Cons.prems(2,3) by (auto simp: skip_def is_best_def seq_of_def split: option.splits)
  then have w: "best_walk E p am q r = best_walk E p am (next_best e) r1"
    unfolding e(2) by (subst best_walk.simps) (simp add: e(1) r1_def)
  have "is_best E (matches E p am) (insert y A) r1"
    using Cons.prems(2) by (auto simp: is_best_def r1_def skip_def matches_def e(1) seq_of_def split: option.splits)
  then have "\<exists>r'. best_walk E p am (next_best e) r1 = Some r' \<and> is_best E (matches E p am) (insert y A \<union> set ys) r'"
    by (rule Cons.IH[OF e(3)]) (use Cons.prems(3) e(1) in auto)
  then show ?case unfolding w by simp
qed

end
