(* ===== verification/Prefix_List_Inv.thy ===== *)
theory Prefix_List_Inv
  imports Prefix_List_Trie
begin

text \<open>
  The invariant of a prefix list: the entries are doubly linked in the order of their numbers
  (\<open>linked\<close>), and the trie holds exactly them (\<open>indexed\<close>). Every operation of lib/plist.c is
  shown to succeed on such a list, to keep the invariant and to have the effect on the sequence
  of entries that its name promises.
\<close>

subsection \<open>The linked list\<close>

definition lasto :: "'a list \<Rightarrow> 'a option" where
  "lasto xs = (if xs = [] then None else Some (last xs))"

lemma lasto_simps [simp]: "lasto [] = None" "lasto (xs @ [x]) = Some x"
  by (simp_all add: lasto_def)

text \<open>A segment of the list, between the pointers \<open>p\<close> before and \<open>n\<close> after it.\<close>

fun dseg :: "entries \<Rightarrow> eaddr option \<Rightarrow> eaddr list \<Rightarrow> eaddr option \<Rightarrow> bool" where
  "dseg E p [] n \<longleftrightarrow> True"
| "dseg E p (x # xs) n \<longleftrightarrow>
     (\<exists>e. E x = Some e \<and> pe_prev e = p \<and> pe_next e = (if xs = [] then n else hdo xs)) \<and> dseg E (Some x) xs n"

lemma dseg_append:
  "dseg E p (xs @ ys) n \<longleftrightarrow> dseg E p xs (if ys = [] then n else hdo ys) \<and> dseg E (if xs = [] then p else lasto xs) ys n"
proof (induction xs arbitrary: p)
  case (Cons x xs)
  have "hdo (xs @ ys) = (if xs = [] then hdo ys else hdo xs)" by (cases xs) auto
  then show ?case using Cons.IH[of "Some x"] by (auto simp: lasto_def)
qed simp

lemma dseg_frame: "x \<notin> set xs \<Longrightarrow> dseg (E(x := v)) p xs n = dseg E p xs n"
  by (induction xs arbitrary: p) auto

lemma dseg_cong:
  assumes "\<And>x. x \<in> set xs \<Longrightarrow> map_option (\<lambda>e. (pe_prev e, pe_next e)) (E x) = map_option (\<lambda>e. (pe_prev e, pe_next e)) (E' x)"
  shows "dseg E p xs n = dseg E' p xs n"
  using assms
proof (induction xs arbitrary: p)
  case (Cons x xs)
  have "map_option (\<lambda>e. (pe_prev e, pe_next e)) (E x) = map_option (\<lambda>e. (pe_prev e, pe_next e)) (E' x)"
    using Cons.prems by simp
  then have "(\<exists>e. E x = Some e \<and> pe_prev e = p \<and> pe_next e = q) \<longleftrightarrow> (\<exists>e. E' x = Some e \<and> pe_prev e = p \<and> pe_next e = q)" for q
    by (cases "E x"; cases "E' x") auto
  then show ?case using Cons.IH[of "Some x"] Cons.prems by simp
qed simp

lemma dseg_last: "dseg E p (xs @ [x]) n \<Longrightarrow> E x = Some e \<Longrightarrow> x \<notin> set xs \<Longrightarrow> dseg (E(x \<mapsto> e\<lparr>pe_next := m\<rparr>)) p (xs @ [x]) m"
  by (auto simp: dseg_append dseg_frame)

lemma dseg_first: "dseg E p (x # xs) n \<Longrightarrow> E x = Some e \<Longrightarrow> x \<notin> set xs \<Longrightarrow> dseg (E(x \<mapsto> e\<lparr>pe_prev := q\<rparr>)) q (x # xs) n"
  by (auto simp: dseg_frame)

definition linked :: "prefix_list \<Rightarrow> eaddr list \<Rightarrow> bool" where
  "linked pl xs \<longleftrightarrow> distinct xs \<and> pl_head pl = hdo xs \<and> pl_tail pl = lasto xs \<and> dseg (pl_mem pl) None xs None"

lemma linked_mem: "linked pl xs \<Longrightarrow> x \<in> set xs \<Longrightarrow> \<exists>e. pl_mem pl x = Some e"
  by (auto simp: linked_def dseg_append dest!: split_list)

text \<open>Stores that agree on everything but the links of the list.\<close>

definition unlinked :: "prefix_list_entry \<Rightarrow> prefix_list_entry" where
  "unlinked e = e\<lparr>pe_next := None, pe_prev := None\<rparr>"

definition same_but_links :: "entries \<Rightarrow> entries \<Rightarrow> bool" where
  "same_but_links E E' \<longleftrightarrow> (\<forall>x. map_option unlinked (E x) = map_option unlinked (E' x))"

lemma same_but_links_refl [simp]: "same_but_links E E"
  by (simp add: same_but_links_def)

lemma same_but_links_trans: "same_but_links E F \<Longrightarrow> same_but_links F G \<Longrightarrow> same_but_links E G"
  by (simp add: same_but_links_def)

lemma same_but_links_upd:
  "E x = Some e \<Longrightarrow> unlinked e' = unlinked e \<Longrightarrow> same_but_links E (E(x \<mapsto> e'))"
  by (simp add: same_but_links_def)

lemma unlinked_upd [simp]: "unlinked (e\<lparr>pe_next := n\<rparr>) = unlinked e" "unlinked (e\<lparr>pe_prev := p\<rparr>) = unlinked e"
  by (simp_all add: unlinked_def)

lemma unlinked_sel:
  assumes "unlinked e = unlinked e'"
  shows "pe_seq e = pe_seq e'" "pe_le e = pe_le e'" "pe_ge e = pe_ge e'" "pe_type e = pe_type e'" "pe_any e = pe_any e'"
    "pe_prefix e = pe_prefix e'" "pe_hitcnt e = pe_hitcnt e'" "next_best e = next_best e'" "installed e = installed e'"
  using assms by (cases e; cases e'; simp add: unlinked_def)+

lemma same_but_links_D:
  assumes "same_but_links E E'" "E x = Some e"
  obtains e' where "E' x = Some e'" "unlinked e' = unlinked e"
  using assms by (cases "E' x") (auto simp: same_but_links_def dest: spec[of _ x])

subsection \<open>Linking and unlinking\<close>

text \<open>The part of the list before a place, and the part after it.\<close>

definition front :: "prefix_list \<Rightarrow> eaddr list \<Rightarrow> eaddr option \<Rightarrow> bool" where
  "front pl as n \<longleftrightarrow> pl_head pl = (if as = [] then n else hdo as) \<and> dseg (pl_mem pl) None as n"

definition rear :: "prefix_list \<Rightarrow> eaddr option \<Rightarrow> eaddr list \<Rightarrow> bool" where
  "rear pl p bs \<longleftrightarrow> pl_tail pl = (if bs = [] then p else lasto bs) \<and> dseg (pl_mem pl) p bs None"

lemma hdo_append: "hdo (xs @ ys) = (if xs = [] then hdo ys else hdo xs)"
  by (cases xs) auto

lemma lasto_append: "lasto (xs @ ys) = (if ys = [] then lasto xs else lasto ys)"
  by (auto simp: lasto_def)

lemma linked_append: "linked pl (as @ bs) \<longleftrightarrow> distinct (as @ bs) \<and> front pl as (hdo bs) \<and> rear pl (lasto as) bs"
  by (auto simp: linked_def front_def rear_def dseg_append hdo_append lasto_append)

lemma linked_middle:
  assumes "linked pl (as @ x # bs)"
  shows "front pl as (Some x)" "rear pl (Some x) bs" "\<exists>e. pl_mem pl x = Some e \<and> pe_prev e = lasto as \<and> pe_next e = hdo bs"
  using assms by (auto simp: linked_append front_def rear_def lasto_def split: if_splits)

text \<open>What the list manipulations leave alone.\<close>

definition pl_rest :: "prefix_list \<Rightarrow> string option \<times> nat \<times> int \<times> pltrie_table \<times> eaddr \<times> plist_call list" where
  "pl_rest pl = (pl_desc pl, trie_depth pl, pl_count pl, pl_trie pl, pl_brk pl, pl_calls pl)"

definition relinks :: "eaddr set \<Rightarrow> prefix_list \<Rightarrow> prefix_list \<Rightarrow> bool" where
  "relinks A pl pl' \<longleftrightarrow> same_but_links (pl_mem pl) (pl_mem pl') \<and> (\<forall>x. x \<notin> A \<longrightarrow> pl_mem pl' x = pl_mem pl x) \<and>
     pl_rest pl' = pl_rest pl"

lemma relinks_trans: "relinks A pl pl1 \<Longrightarrow> relinks B pl1 pl2 \<Longrightarrow> relinks (A \<union> B) pl pl2"
  by (auto simp: relinks_def intro: same_but_links_trans)

lemma put_next_spec:
  assumes f: "front pl as n" and r: "rear pl p bs" and d: "distinct (as @ bs)"
  shows "\<exists>pl'. put_next pl (lasto as) m = Some pl' \<and> front pl' as m \<and> rear pl' p bs \<and> relinks (set as) pl pl'"
proof (cases as rule: rev_cases)
  case Nil
  then show ?thesis using r by (simp add: put_next_def front_def rear_def relinks_def pl_rest_def)
next
  case (snoc as' q)
  obtain e where q: "pl_mem pl q = Some e" using f by (auto simp: snoc front_def dseg_append)
  let ?E = "(pl_mem pl)(q \<mapsto> e\<lparr>pe_next := m\<rparr>)"
  have "dseg ?E None as m"
    unfolding snoc by (rule dseg_last[of _ _ _ _ n]) (use f q d in \<open>auto simp: snoc front_def\<close>)
  moreover have "dseg ?E p bs None" using r d by (simp add: rear_def snoc dseg_frame)
  moreover have "same_but_links (pl_mem pl) ?E" by (rule same_but_links_upd) (use q in simp_all)
  ultimately show ?thesis
    using q f r by (simp add: put_next_def pe_upd_def snoc front_def rear_def relinks_def pl_rest_def)
qed

lemma put_prev_spec:
  assumes f: "front pl as n" and r: "rear pl p bs" and d: "distinct (as @ bs)"
  shows "\<exists>pl'. put_prev pl (hdo bs) m = Some pl' \<and> front pl' as n \<and> rear pl' m bs \<and> relinks (set bs) pl pl'"
proof (cases bs)
  case Nil
  then show ?thesis using f by (simp add: put_prev_def front_def rear_def relinks_def pl_rest_def)
next
  case (Cons q bs')
  obtain e where q: "pl_mem pl q = Some e" using r by (auto simp: Cons rear_def)
  let ?E = "(pl_mem pl)(q \<mapsto> e\<lparr>pe_prev := m\<rparr>)"
  have "dseg ?E m bs None"
    unfolding Cons by (rule dseg_first[of _ p]) (use r q d in \<open>auto simp: Cons rear_def\<close>)
  moreover have "dseg ?E None as n" using f d by (simp add: front_def Cons dseg_frame)
  moreover have "same_but_links (pl_mem pl) ?E" by (rule same_but_links_upd) (use q in simp_all)
  ultimately show ?thesis
    using q f r by (simp add: put_prev_def pe_upd_def Cons front_def rear_def relinks_def pl_rest_def)
qed

lemma list_unlink_spec:
  assumes l: "linked pl (as @ x # bs)"
  shows "\<exists>pl'. list_unlink pl x = Some pl' \<and> linked pl' (as @ bs) \<and> relinks (set (as @ bs)) pl pl'"
proof -
  have d: "distinct (as @ bs)" using l by (auto simp: linked_def)
  obtain e where e: "pl_mem pl x = Some e" "pe_prev e = lasto as" "pe_next e = hdo bs" using linked_middle(3)[OF l] by blast
  obtain pl1 where p1: "put_next pl (lasto as) (hdo bs) = Some pl1" "front pl1 as (hdo bs)" "rear pl1 (Some x) bs" "relinks (set as) pl pl1"
    using put_next_spec[OF linked_middle(1,2)[OF l] d] by blast
  obtain pl2 where p2: "put_prev pl1 (hdo bs) (lasto as) = Some pl2" "front pl2 as (hdo bs)" "rear pl2 (lasto as) bs" "relinks (set bs) pl1 pl2"
    using put_prev_spec[OF p1(2,3) d] by blast
  show ?thesis using e p1(1) p2(1-3) d relinks_trans[OF p1(4) p2(4)] by (simp add: list_unlink_def linked_append)
qed

lemma list_link_spec:
  assumes l: "linked pl (as @ bs)" and x: "x \<notin> set (as @ bs)" and e: "pl_mem pl x = Some e"
  shows "\<exists>pl'. list_link pl x (hdo bs) = Some pl' \<and> linked pl' (as @ x # bs) \<and> relinks (set (as @ x # bs)) pl pl'"
proof -
  have d: "distinct (as @ bs)" and f: "front pl as (hdo bs)" and r: "rear pl (lasto as) bs" using l by (auto simp: linked_append)
  have other: "dseg (E(x \<mapsto> y)) q ys n = dseg E q ys n" if "ys = as \<or> ys = bs" for E y q ys n using that x by (auto simp: dseg_frame)
  let ?E = "(pl_mem pl)(x \<mapsto> e\<lparr>pe_next := hdo bs\<rparr>)"
  let ?pl = "pl\<lparr>pl_mem := ?E\<rparr>"
  have b: "(case hdo bs of Some b \<Rightarrow> do { p \<leftarrow> ?E b; Some (pe_prev p) } | None \<Rightarrow> Some (pl_tail pl)) = Some (lasto as)"
    using r x by (cases bs) (auto simp: rear_def)
  have 0: "front ?pl as (hdo bs)" "rear ?pl (lasto as) bs" using f r by (auto simp: front_def rear_def other)
  have r0: "relinks {x} pl ?pl" using e by (auto simp: relinks_def pl_rest_def intro: same_but_links_upd)
  obtain pl1 where 1: "put_next ?pl (lasto as) (Some x) = Some pl1" "front pl1 as (Some x)" "rear pl1 (lasto as) bs" "relinks (set as) ?pl pl1"
    using put_next_spec[OF 0 d] by blast
  have e1: "pl_mem pl1 x = Some (e\<lparr>pe_next := hdo bs\<rparr>)" using 1(4) x by (simp add: relinks_def)
  let ?e2 = "e\<lparr>pe_next := hdo bs, pe_prev := lasto as\<rparr>"
  let ?pl2 = "pl1\<lparr>pl_mem := (pl_mem pl1)(x \<mapsto> ?e2)\<rparr>"
  have 2: "front ?pl2 as (Some x)" "rear ?pl2 (lasto as) bs" using 1(2,3) by (auto simp: front_def rear_def other)
  have r2: "relinks {x} pl1 ?pl2" using e1 by (auto simp: relinks_def pl_rest_def intro: same_but_links_upd)
  obtain pl3 where 3: "put_prev ?pl2 (hdo bs) (Some x) = Some pl3" "front pl3 as (Some x)" "rear pl3 (Some x) bs" "relinks (set bs) ?pl2 pl3"
    using put_prev_spec[OF 2 d] by blast
  have e3: "pl_mem pl3 x = Some ?e2" using 3(4) x by (simp add: relinks_def)
  have "linked pl3 (as @ x # bs)" using d x 3(2,3) e3 by (auto simp: linked_append front_def rear_def lasto_def)
  moreover have "list_link pl x (hdo bs) = Some pl3"
    using e b 1(1) e1 3(1) by (simp add: list_link_def pe_upd_def)
  moreover have "relinks (set (as @ x # bs)) pl pl3"
    using relinks_trans[OF relinks_trans[OF relinks_trans[OF r0 1(4)] r2] 3(4)] by (simp add: insert_absorb Un_commute)
  ultimately show ?thesis by blast
qed

subsection \<open>Walks along the list\<close>

lemma linked_tail_head: "dseg E p (x # xs) None \<Longrightarrow> E x = Some e \<Longrightarrow> pe_next e = hdo xs"
  by (cases xs) auto

lemma entry_find_spec:
  "dseg E p xs None \<Longrightarrow> entry_find E P (hdo xs) = Some (find (\<lambda>x. case E x of Some e \<Rightarrow> P e | None \<Rightarrow> False) xs)"
proof (induction xs arbitrary: p)
  case Nil
  then show ?case by (subst entry_find.simps) simp
next
  case (Cons x xs)
  obtain e where e: "E x = Some e" using Cons.prems by auto
  then show ?case using Cons.IH[of "Some x"] Cons.prems linked_tail_head[OF Cons.prems e] by (subst entry_find.simps) simp
qed

lemma max_seq_spec:
  "dseg E p xs None \<Longrightarrow> max_seq E (hdo xs) m = Some (fold (\<lambda>x m. max m (seq_of E x)) xs m)"
proof (induction xs arbitrary: p m)
  case Nil
  then show ?case by (subst max_seq.simps) simp
next
  case (Cons x xs)
  obtain e where e: "E x = Some e" using Cons.prems by auto
  have "(if m < pe_seq e then pe_seq e else m) = max m (seq_of E x)" by (simp add: seq_of_def e max_def)
  then show ?case using Cons.IH[of "Some x"] Cons.prems linked_tail_head[OF Cons.prems e] e by (subst max_seq.simps) simp
qed

subsection \<open>The trie of a set of entries\<close>

definition entry_ok :: "prefix_list_entry \<Rightarrow> bool" where
  "entry_ok e \<longleftrightarrow> prefix_ok (pe_prefix e) \<and> masked (pe_prefix e)"

definition slots_of :: "nat \<Rightarrow> entries \<Rightarrow> eaddr \<Rightarrow> slot set" where
  "slots_of d E x = (case E x of None \<Rightarrow> {} | Some e \<Rightarrow> set (entry_slots d (u_val (pe_prefix e)) (prefixlen (pe_prefix e))))"

definition indexed :: "prefix_list \<Rightarrow> eaddr set \<Rightarrow> bool" where
  "indexed pl X \<longleftrightarrow> 0 < trie_depth pl \<and> trie_depth pl \<le> 4 \<and> trie_wf (trie_depth pl) (pl_trie pl) \<and> finite X \<and>
     inj_on (seq_of (pl_mem pl)) X \<and> (\<forall>x \<in> X. \<exists>e. pl_mem pl x = Some e \<and> entry_ok e) \<and>
     chains (pl_mem pl) (slotval (pl_trie pl)) (slots_of (trie_depth pl) (pl_mem pl)) X"

lemma masked_slots_ok:
  assumes "\<forall>i. v \<le> i \<longrightarrow> i < 8 * n \<longrightarrow> \<not> bits_of bs ! i" "v \<le> 8 * n" "0 < n" "n \<le> length bs"
  shows "slots_ok d bs v"
  using assms
proof (induction d bs v arbitrary: n rule: slots_ok.induct)
  case (2 d b bs v)
  have nth: "bits_of (b # bs) ! (8 + i) = bits_of bs ! i" for i
    unfolding bits_of_Cons[of b bs] by (simp add: nth_append)
  show ?case
  proof (cases "8 < v \<and> 1 < d")
    case True
    have "\<not> bits_of bs ! i" if "v - 8 \<le> i" "i < 8 * (n - 1)" for i
      using "2.prems"(1)[rule_format, of "8 + i"] that True unfolding nth by linarith
    then have "slots_ok (d - 1) bs (v - 8)"
      by (intro "2.IH"[of "n - 1"]) (use True "2.prems" in auto)
    then show ?thesis using True by simp
  next
    case False
    have "unat b mod 2 ^ (8 - v) = 0" if v: "v \<le> 8"
    proof -
      have "\<not> bit b i" if "i < 8 - v" for i
      proof -
        have "7 - (7 - i) mod 8 = i" "(7 - i) div 8 = 0" using that by auto
        then have "bits_of (b # bs) ! (7 - i) = bit b i" by (subst nth_bits_of) auto
        moreover have "v \<le> 7 - i" "7 - i < 8 * n" using that "2.prems"(3) by auto
        ultimately show ?thesis using "2.prems"(1)[rule_format, of "7 - i"] by simp
      qed
      then have "take_bit (8 - v) b = 0" by (auto intro!: bit_eqI simp: bit_take_bit_iff)
      then have "unat (take_bit (8 - v) b) = 0" by simp
      then show ?thesis unfolding unsigned_take_bit_eq by (simp add: take_bit_eq_mod)
    qed
    then show ?thesis using False by (cases "v \<le> 8") auto
  qed
qed simp

lemma entry_ok_slots: "entry_ok e \<Longrightarrow> slots_ok d (u_val (pe_prefix e)) (prefixlen (pe_prefix e))"
proof -
  assume e: "entry_ok e"
  have "0 < fam_bytes f \<and> fam_bytes f \<le> 16" for f by (cases f) auto
  then show ?thesis
    using e by (intro masked_slots_ok[of _ "fam_bytes (family (pe_prefix e))"]) (auto simp: entry_ok_def prefix_ok_def masked_def)
qed

lemma entry_slots_nonempty: "slots_ok d bs v \<Longrightarrow> entry_slots d bs v \<noteq> []"
  by (induction d bs v rule: slots_ok.induct) (auto split: if_splits)

lemma lists_of_set: "lists_of S rk X L \<Longrightarrow> set (L s) = {x \<in> X. s \<in> S x}"
  by (simp add: lists_of_def)

lemma nested_entries:
  assumes "0 < d" "\<forall>x \<in> X. \<exists>e. E x = Some e \<and> entry_ok e"
  shows "nested (slots_of d E) (rank E) X"
  unfolding nested_def
proof (intro ballI impI)
  fix x y
  assume h: "x \<in> X" "y \<in> X" "slots_of d E x \<inter> slots_of d E y \<noteq> {}" "rank E y \<le> rank E x"
  obtain e f where e: "E x = Some e" "E y = Some f" "entry_ok e" "entry_ok f" using assms(2) h(1,2) by blast
  have "prefixlen (pe_prefix e) \<le> prefixlen (pe_prefix f)" using h(4) e by (auto simp: rank_def)
  then show "slots_of d E y \<subseteq> slots_of d E x"
    using entry_slots_nested[OF assms(1) entry_ok_slots[OF e(3)] entry_ok_slots[OF e(4)]] h(3) e by (simp add: slots_of_def)
qed

lemma inj_rank: "inj_on (seq_of E) X \<Longrightarrow> \<forall>x \<in> X. E x \<noteq> None \<Longrightarrow> inj_on (rank E) X"
proof -
  assume h: "inj_on (seq_of E) X" "\<forall>x \<in> X. E x \<noteq> None"
  have "snd (rank E x) = seq_of E x" for x by (simp add: rank_def seq_of_def split: option.split)
  then show ?thesis using h(1) by (metis inj_on_def)
qed

lemma entry_match_best [simp]: "prefix_list_entry_match (e\<lparr>next_best := v\<rparr>) q am = prefix_list_entry_match e q am"
  by (cases e) (simp add: prefix_list_entry_match_def)

lemma same_but_best_view:
  assumes "same_but_best E E'"
  shows "seq_of E' = seq_of E" "slots_of d E' = slots_of d E" "matches E' = matches E" "dseg E' p xs n = dseg E p xs n"
    "(\<exists>e. E' x = Some e \<and> entry_ok e) \<longleftrightarrow> (\<exists>e. E x = Some e \<and> entry_ok e)"
proof -
  have h: "E x = None \<and> E' x = None \<or> (\<exists>e v. E x = Some e \<and> E' x = Some (e\<lparr>next_best := v\<rparr>))" for x
    by (cases "E x"; use same_but_best_D[OF assms] same_but_best_dom[OF assms] in metis)
  have f: "seq_of E' x = seq_of E x" "slots_of d E' x = slots_of d E x" "matches E' q am x = matches E q am x"
    "map_option (\<lambda>e. (pe_prev e, pe_next e)) (E' x) = map_option (\<lambda>e. (pe_prev e, pe_next e)) (E x)" for x q am
    using h[of x] by (auto simp: seq_of_def slots_of_def matches_def)
  then show "seq_of E' = seq_of E" "slots_of d E' = slots_of d E" "matches E' = matches E" by (auto simp: fun_eq_iff)
  show "dseg E' p xs n = dseg E p xs n" by (rule dseg_cong) (rule f(4))
  show "(\<exists>e. E' x = Some e \<and> entry_ok e) \<longleftrightarrow> (\<exists>e. E x = Some e \<and> entry_ok e)"
    using h[of x] by (auto simp: entry_ok_def)
qed

lemma linked_best:
  "best_only A (pl_mem pl) E \<Longrightarrow> linked (pl\<lparr>pl_mem := E, pl_trie := t\<rparr>) xs = linked pl xs"
  using same_but_best_view(4)[OF best_only_same, of A "pl_mem pl" E None xs None] by (simp add: linked_def)

lemma prefix_list_trie_add_spec:
  assumes i: "indexed pl X" and x: "x \<notin> X" "pl_mem pl x = Some e" "next_best e = None" "entry_ok e" "pe_seq e \<notin> seq_of (pl_mem pl) ` X"
  shows "\<exists>E t. prefix_list_trie_add pl x = Some (pl\<lparr>pl_mem := E, pl_trie := t\<rparr>) \<and> best_only (insert x X) (pl_mem pl) E \<and>
    indexed (pl\<lparr>pl_mem := E, pl_trie := t\<rparr>) (insert x X)"
proof -
  let ?d = "trie_depth pl" and ?E = "pl_mem pl" and ?bs = "u_val (pe_prefix e)" and ?v = "prefixlen (pe_prefix e)"
  have ok: "\<forall>y \<in> insert x X. \<exists>e. ?E y = Some e \<and> entry_ok e" and d: "0 < ?d" using i x by (auto simp: indexed_def)
  have inj: "inj_on (seq_of ?E) (insert x X)" using i x by (auto simp: indexed_def seq_of_def)
  have rk: "inj_on (rank ?E) (insert x X)" by (rule inj_rank[OF inj]) (use ok in auto)
  have fx: "finite X" "chains ?E (slotval (pl_trie pl)) (slots_of ?d ?E) X" using i by (auto simp: indexed_def)
  have sl: "set (entry_slots ?d ?bs ?v) = slots_of ?d ?E x" using x by (simp add: slots_of_def)
  obtain E' H' where E': "fn_slots trie_install_fn x ?E (slotval (pl_trie pl)) (entry_slots ?d ?bs ?v) = Some (E', H')"
      "best_only (insert x X) ?E E'" "chains E' H' (slots_of ?d ?E) (insert x X)" "\<forall>t \<in> slots_of ?d ?E x. H' t \<noteq> None"
    using install_chains[OF fx(2) nested_entries[OF d ok] rk fx(1) x(1,2,3) sl] by blast
  have "\<exists>s \<in> set (entry_slots ?d ?bs ?v). H' s \<noteq> None"
    using E'(4) entry_slots_nonempty[OF entry_ok_slots[OF x(4)]] unfolding sl[symmetric] by (metis list.set_intros(1) neq_Nil_conv)
  then obtain t where t: "trie_add ?d ?bs ?v x ?E (pl_trie pl) = Some (E', t)" "slotval t = H'" "trie_wf ?d t"
    using trie_add_spec[OF _ entry_ok_slots[OF x(4)] E'(1)] i by (auto simp: indexed_def)
  have "indexed (pl\<lparr>pl_mem := E', pl_trie := t\<rparr>) (insert x X)"
    using i t(2,3) E'(3) fx(1) inj ok same_but_best_view[OF best_only_same[OF E'(2)]] unfolding indexed_def by simp
  then show ?thesis using t(1) x(2) E'(2) unfolding prefix_list_trie_add_def by auto
qed

lemma prefix_list_trie_del_spec:
  assumes i: "indexed pl X" and x: "x \<in> X"
  shows "\<exists>E t. prefix_list_trie_del pl x = Some (pl\<lparr>pl_mem := E, pl_trie := t\<rparr>) \<and> best_only X (pl_mem pl) E \<and>
    indexed (pl\<lparr>pl_mem := E, pl_trie := t\<rparr>) (X - {x})"
proof -
  let ?d = "trie_depth pl" and ?E = "pl_mem pl" and ?X = "X - {x}"
  have X: "insert x ?X = X" using x by auto
  have ok: "\<forall>y \<in> X. \<exists>e. ?E y = Some e \<and> entry_ok e" and d: "0 < ?d" and inj: "inj_on (seq_of ?E) X" using i by (auto simp: indexed_def)
  obtain e where e: "?E x = Some e" "entry_ok e" using ok x by blast
  let ?bs = "u_val (pe_prefix e)" and ?v = "prefixlen (pe_prefix e)"
  have rk: "inj_on (rank ?E) X" by (rule inj_rank[OF inj]) (use ok in auto)
  have fx: "finite ?X" "chains ?E (slotval (pl_trie pl)) (slots_of ?d ?E) X" using i by (auto simp: indexed_def)
  have sl: "set (entry_slots ?d ?bs ?v) = slots_of ?d ?E x" using e by (simp add: slots_of_def)
  have ne: "slots_of ?d ?E x \<noteq> {}" using entry_slots_nonempty[OF entry_ok_slots[OF e(2)]] unfolding sl[symmetric] by simp
  obtain E' H' where E': "fn_slots trie_uninstall_fn x ?E (slotval (pl_trie pl)) (entry_slots ?d ?bs ?v) = Some (E', H')"
      "best_only X ?E E'" "chains E' H' (slots_of ?d ?E) ?X"
    using uninstall_chains[of ?E "slotval (pl_trie pl)" "slots_of ?d ?E" x ?X, unfolded X, OF fx(2) nested_entries[OF d ok] rk fx(1) _ sl ne] by blast
  have "\<exists>s \<in> set (entry_slots ?d ?bs ?v). slotval (pl_trie pl) s \<noteq> None"
  proof -
    obtain s where s: "s \<in> slots_of ?d ?E x" using ne by blast
    obtain L where L: "lists_of (slots_of ?d ?E) (rank ?E) X L" "chain ?E (slotval (pl_trie pl) s) (L s)" using fx(2) unfolding chains_def by blast
    have "x \<in> set (L s)" using lists_of_set[OF L(1)] s x by simp
    then have "slotval (pl_trie pl) s \<noteq> None" using L(2) by (cases "L s") auto
    then show ?thesis using s sl by blast
  qed
  then obtain t where t: "trie_del ?d ?bs ?v x ?E (pl_trie pl) = Some (E', t)" "slotval t = H'" "trie_wf ?d t"
    using trie_del_spec[OF _ entry_ok_slots[OF e(2)] E'(1)] i by (auto simp: indexed_def)
  have "indexed (pl\<lparr>pl_mem := E', pl_trie := t\<rparr>) ?X"
    using i t(2,3) E'(3) fx(1) inj ok same_but_best_view[OF best_only_same[OF E'(2)]] unfolding indexed_def by (auto intro: inj_on_subset)
  then show ?thesis using t(1) e(1) E'(2) unfolding prefix_list_trie_del_def by auto
qed

subsection \<open>Searching the trie\<close>

lemma chain_None: "chain E None ys \<longleftrightarrow> ys = []"
  by (cases ys) auto

lemma chain_mem: "chain E p ys \<Longrightarrow> y \<in> set ys \<Longrightarrow> E y \<noteq> None"
  by (induction ys arbitrary: p) auto

lemma UN_below: "(\<Union>s \<in> below b ` A. f s) = (\<Union>s \<in> A. f (below b s))"
  by auto

lemma apply_walk_spec:
  assumes "trie_wf d t" "d \<le> length bs" "\<And>s. chain E (slotval t s) (L s)" "is_best E (matches E p am) A r" "\<forall>a \<in> A. E a \<noteq> None"
  shows "\<exists>r'. apply_walk d bs v E p am t r = Some r' \<and>
    is_best E (matches E p am) (A \<union> (\<Union>s \<in> set (visit_slots d bs v). set (L s))) r'"
  using assms
proof (induction d arbitrary: bs v t L A r)
  case (Suc d)
  obtain b cs where bs: "bs = b # cs" using Suc.prems(2) by (cases bs) auto
  have l: "unat b < 256" "unat b < length t" using trie_wf_length[OF Suc.prems(1)] unat_u8_less[of b] by simp_all
  obtain link up where b: "t ! unat b = (link, up)" by (cases "t ! unat b")
  have k: "link_ok (Suc d) link" using trie_wf_nth[OF Suc.prems(1) l(1)] b by simp
  let ?u = "([], unat b, False)" and ?f = "([], unat b, True)" and ?B = "is_best E (matches E p am)"
  have "chain E up (L ?u)" using Suc.prems(3)[of ?u] b l by simp
  then obtain r1 where r1: "best_walk E p am up r = Some r1" "?B (A \<union> set (L ?u)) r1"
    using best_walk_spec[OF _ Suc.prems(4,5)] by blast
  have A1: "\<forall>a \<in> A \<union> set (L ?u). E a \<noteq> None" using Suc.prems(5) chain_mem[OF Suc.prems(3)[of ?u]] by auto
  consider "v \<le> 8" | "8 < v" "d = 0" | "8 < v" "d \<noteq> 0" by linarith
  then show ?case
  proof cases
    case 1
    then show ?thesis using r1 l b by (simp add: bs)
  next
    case 2
    obtain fin where fin: "final_get link = Some fin" "slotval t ?f = fin" using k 2 b l by (cases link) auto
    obtain r2 where "best_walk E p am fin r1 = Some r2" "?B (A \<union> set (L ?u) \<union> set (L ?f)) r2"
      using best_walk_spec[OF Suc.prems(3)[of ?f] r1(2) A1] fin(2) by blast
    then show ?thesis using r1(1) fin 2 l b by (simp add: bs Un_assoc)
  next
    case 3
    have vis: "A \<union> (\<Union>s \<in> set (visit_slots (Suc d) bs v). set (L s)) =
        A \<union> set (L ?u) \<union> (\<Union>s \<in> set (visit_slots d cs (v - 8)). set (L (below (unat b) s)))"
      using 3 by (auto simp: bs)
    show ?thesis
    proof (cases link)
      case Null
      have "L (below (unat b) s) = []" for s
        using Suc.prems(3)[of "below (unat b) s"] b l by (simp add: Null slotval_below chain_None)
      then show ?thesis unfolding vis using r1 3 l b by (simp add: bs Null)
    next
      case (Next_table t1)
      have "trie_wf d t1" using k by (simp add: Next_table)
      moreover have "chain E (slotval t1 s) (L (below (unat b) s))" for s
        using Suc.prems(3)[of "below (unat b) s"] b l by (simp add: Next_table slotval_below)
      ultimately obtain r2 where "apply_walk d cs (v - 8) E p am t1 r1 = Some r2"
          "?B (A \<union> set (L ?u) \<union> (\<Union>s \<in> set (visit_slots d cs (v - 8)). set (L (below (unat b) s)))) r2"
        using Suc.IH[of t1 cs "\<lambda>s. L (below (unat b) s)" "A \<union> set (L ?u)" r1 "v - 8"] r1(2) A1 Suc.prems(2) by (auto simp: bs)
      then show ?thesis unfolding vis using r1(1) 3 l b by (simp add: bs Next_table)
    qed (use k 3 in simp)
  qed
qed simp

lemma matches_visited:
  assumes d: "0 < d" "d \<le> 16" and p: "prefix_ok p" and e: "E x = Some e" "entry_ok e" and m: "matches E p am x"
  shows "\<exists>s \<in> set (visit_slots d (u_val p) (prefixlen p)). s \<in> slots_of d E x"
proof -
  have ok: "prefix_ok (pe_prefix e)" using e(2) by (simp add: entry_ok_def)
  have "prefix_match (pe_prefix e) p" using m e(1) by (auto simp: matches_def prefix_list_entry_match_def split: if_splits)
  then have "Sublist.prefix (key (pe_prefix e)) (key p)" using prefix_match_key[OF ok p] by simp
  then obtain zs where z: "key p = key (pe_prefix e) @ zs" by (auto simp: prefix_def)
  have le: "prefixlen (pe_prefix e) \<le> prefixlen p" using z ok p by (metis length_append length_key le_add1)
  have "take (prefixlen (pe_prefix e)) (key p) = key (pe_prefix e)" using z ok by simp
  then have "take (prefixlen (pe_prefix e)) (bits_of (u_val (pe_prefix e))) = take (prefixlen (pe_prefix e)) (bits_of (u_val p))"
    using le by (simp add: key_def min_def)
  then show ?thesis
    using visit_covers[OF d(1) entry_ok_slots[OF e(2)] _ le, of "u_val p"] d(2) p e(1) by (auto simp: slots_of_def prefix_ok_def)
qed

lemma is_best_mono: "is_best E P A r \<Longrightarrow> A \<subseteq> X \<Longrightarrow> (\<And>x. x \<in> X \<Longrightarrow> P x \<Longrightarrow> x \<in> A) \<Longrightarrow> is_best E P X r"
  by (cases r) (auto simp: is_best_def)

lemma indexed_apply:
  assumes i: "indexed pl X" and p: "prefix_ok p"
  shows "\<exists>r. apply_walk (trie_depth pl) (u_val p) (prefixlen p) (pl_mem pl) p am (pl_trie pl) None = Some r \<and>
    is_best (pl_mem pl) (matches (pl_mem pl) p am) X r"
proof -
  let ?E = "pl_mem pl" and ?d = "trie_depth pl"
  let ?V = "set (visit_slots ?d (u_val p) (prefixlen p))"
  have wf: "trie_wf ?d (pl_trie pl)" and d: "0 < ?d" "?d \<le> 16" "?d \<le> length (u_val p)" using i p by (auto simp: indexed_def prefix_ok_def)
  obtain L where L: "lists_of (slots_of ?d ?E) (rank ?E) X L" "\<And>s. chain ?E (slotval (pl_trie pl) s) (L s)"
    using i unfolding indexed_def chains_def by blast
  have b0: "is_best ?E (matches ?E p am) {} None" "\<forall>a \<in> {}. ?E a \<noteq> None" by (simp_all add: is_best_def)
  obtain r where r: "apply_walk ?d (u_val p) (prefixlen p) ?E p am (pl_trie pl) None = Some r"
      "is_best ?E (matches ?E p am) ({} \<union> (\<Union>s \<in> ?V. set (L s))) r"
    using apply_walk_spec[OF wf d(3) L(2) b0] by blast
  have sub: "(\<Union>s \<in> ?V. set (L s)) \<subseteq> X" using lists_of_set[OF L(1)] by blast
  have "x \<in> (\<Union>s \<in> ?V. set (L s))" if x: "x \<in> X" "matches ?E p am x" for x
  proof -
    obtain e where e: "?E x = Some e" "entry_ok e" using i x(1) by (auto simp: indexed_def)
    show ?thesis using matches_visited[OF d(1,2) p e x(2)] lists_of_set[OF L(1)] x(1) by blast
  qed
  then have "is_best ?E (matches ?E p am) X r" using is_best_mono[OF r(2)] sub by simp
  then show ?thesis using r(1) by blast
qed

text \<open>In a list sorted by number, the best match is the first match.\<close>

lemma is_best_find:
  assumes "sorted_wrt (\<lambda>x y. seq_of E x < seq_of E y) xs" "is_best E P (set xs) r"
  shows "r = find P xs"
  using assms
proof (induction xs arbitrary: r)
  case (Cons x xs)
  show ?case
  proof (cases "P x")
    case True
    then have "r \<noteq> None" using Cons.prems(2) by (auto simp: is_best_def split: option.splits)
    then obtain b where "r = Some b" "b \<in> set (x # xs)" "seq_of E b \<le> seq_of E x" using Cons.prems(2) True by (auto simp: is_best_def)
    then show ?thesis using Cons.prems(1) True by force
  next
    case False
    then have "is_best E P (set xs) r" using Cons.prems(2) by (auto simp: is_best_def split: option.splits)
    then show ?thesis using Cons.IH Cons.prems(1) False by simp
  qed
qed (auto simp: is_best_def split: option.splits)

text \<open>The chain that \<^verbatim>\<open>prefix_list_entry_is_duplicated\<close> and \<^verbatim>\<open>prefix_entry_dup_check\<close> search.\<close>

lemma trie_chain_spec:
  assumes "trie_wf d t" "d \<le> length bs"
  shows "\<exists>s. trie_chain d bs v t = Some (slotval t s) \<and> (slots_ok d bs v \<longrightarrow> s \<in> set (entry_slots d bs v))"
  using assms
proof (induction d arbitrary: bs v t)
  case (Suc d)
  obtain b cs where bs: "bs = b # cs" using Suc.prems(2) by (cases bs) auto
  have l: "unat b < 256" "unat b < length t" using trie_wf_length[OF Suc.prems(1)] unat_u8_less[of b] by simp_all
  obtain link up where b: "t ! unat b = (link, up)" by (cases "t ! unat b")
  have k: "link_ok (Suc d) link" using trie_wf_nth[OF Suc.prems(1) l(1)] b by simp
  consider "v \<le> 8" | "8 < v" "d = 0" | "8 < v" "0 < d" by linarith
  then show ?case
  proof cases
    case 1
    then show ?thesis using l b by (intro exI[of _ "([], unat b, False)"]) (auto simp: bs)
  next
    case 2
    then show ?thesis using l b k by (intro exI[of _ "([], unat b, True)"]; cases link) (auto simp: bs)
  next
    case 3
    show ?thesis
    proof (cases link)
      case Null
      obtain s where s: "slots_ok d cs (v - 8) \<longrightarrow> s \<in> set (entry_slots d cs (v - 8))"
        using entry_slots_nonempty by (metis last_in_set)
      have "slotval t (below (unat b) s) = None" using l b by (simp add: slotval_below Null)
      then show ?thesis using s l b 3 by (intro exI[of _ "below (unat b) s"]) (auto simp: bs Null)
    next
      case (Next_table t1)
      then have "trie_wf d t1" using k by simp
      then obtain s where s: "trie_chain d cs (v - 8) t1 = Some (slotval t1 s)" "slots_ok d cs (v - 8) \<longrightarrow> s \<in> set (entry_slots d cs (v - 8))"
        using Suc.IH[of t1 cs "v - 8"] Suc.prems(2) by (auto simp: bs)
      have "slotval t (below (unat b) s) = slotval t1 s" using l b by (simp add: slotval_below Next_table)
      then show ?thesis using s l b 3 by (intro exI[of _ "below (unat b) s"]) (auto simp: bs Next_table)
    qed (use k 3 in simp)
  qed
qed simp

lemma best_find_spec:
  "chain E q ys \<Longrightarrow> best_find E P q = Some (find (\<lambda>y. case E y of Some e \<Rightarrow> P y e | None \<Rightarrow> False) ys)"
proof (induction ys arbitrary: q)
  case Nil
  then show ?case by (subst best_find.simps) simp
next
  case (Cons y ys)
  then obtain e where e: "E y = Some e" "q = Some y" "chain E (next_best e) ys" by auto
  show ?case unfolding e(2) by (subst best_find.simps) (simp add: e(1) Cons.IH[OF e(3)])
qed

text \<open>Entries with the same prefix cover the same slots.\<close>

lemma entry_slots_take: "d \<le> n \<Longrightarrow> 0 < d \<Longrightarrow> entry_slots d (take n bs) v = entry_slots d bs v"
proof (induction d bs v arbitrary: n rule: entry_slots.induct)
  case (2 d b bs v)
  then obtain m where m: "n = Suc m" by (cases n) auto
  show ?case using 2 by (auto simp: m)
qed simp

lemma prefix_same_slots:
  assumes "prefix_same (Some p) (Some q)" "0 < d" "d \<le> 4"
  shows "entry_slots d (u_val p) (prefixlen p) = entry_slots d (u_val q) (prefixlen q)"
proof -
  have t4: "take 4 xs = take 4 ys" if "take n xs = take n ys" "4 \<le> n" for n and xs ys :: "u8 list"
    using arg_cong[OF that(1), of "take 4"] that(2) by (simp add: min_def)
  have "take 4 (u_val p) = take 4 (u_val q) \<and> prefixlen p = prefixlen q"
    using assms(1) by (cases "family p") (auto simp: prefix_same_def intro: t4[of 16] t4[of 6])
  then have "entry_slots d (take 4 (u_val p)) (prefixlen p) = entry_slots d (take 4 (u_val q)) (prefixlen q)" by simp
  then show ?thesis using entry_slots_take[of d 4] assms(2,3) by simp
qed

subsection \<open>The invariant\<close>

text \<open>An entry without its links, what a user configured.\<close>

definition pe_conf :: "prefix_list_entry \<Rightarrow> prefix_list_entry" where
  "pe_conf e = e\<lparr>pe_next := None, pe_prev := None, next_best := None\<rparr>"

definition conf_of :: "prefix_list \<Rightarrow> entries" where
  "conf_of pl x = map_option pe_conf (pl_mem pl x)"

lemma pe_conf_sel [simp]:
  "pe_seq (pe_conf e) = pe_seq e" "pe_le (pe_conf e) = pe_le e" "pe_ge (pe_conf e) = pe_ge e" "pe_type (pe_conf e) = pe_type e"
  "pe_any (pe_conf e) = pe_any e" "pe_prefix (pe_conf e) = pe_prefix e" "pe_hitcnt (pe_conf e) = pe_hitcnt e"
  "installed (pe_conf e) = installed e"
  by (simp_all add: pe_conf_def)

lemma pe_conf_upd [simp]:
  "pe_conf (e\<lparr>pe_next := n\<rparr>) = pe_conf e" "pe_conf (e\<lparr>pe_prev := n\<rparr>) = pe_conf e" "pe_conf (e\<lparr>next_best := n\<rparr>) = pe_conf e"
  by (simp_all add: pe_conf_def)

text \<open>Entries outside the list are in no chain; addresses from \<open>pl_brk\<close> on are unused.\<close>

definition idle :: "prefix_list \<Rightarrow> eaddr set \<Rightarrow> bool" where
  "idle pl X \<longleftrightarrow> (\<forall>y e. y \<notin> X \<longrightarrow> pl_mem pl y = Some e \<longrightarrow> next_best e = None) \<and> (\<forall>y \<ge> pl_brk pl. pl_mem pl y = None)"

definition plist_inv :: "prefix_list \<Rightarrow> eaddr list \<Rightarrow> bool" where
  "plist_inv pl xs \<longleftrightarrow> linked pl xs \<and> indexed pl (set xs) \<and> idle pl (set xs) \<and>
     sorted_wrt (\<lambda>x y. seq_of (pl_mem pl) x < seq_of (pl_mem pl) y) xs \<and> pl_count pl = int (length xs) \<and> length xs < 2 ^ 31"

definition pl_misc :: "prefix_list \<Rightarrow> string option \<times> nat \<times> int \<times> eaddr \<times> plist_call list" where
  "pl_misc pl = (pl_desc pl, trie_depth pl, pl_count pl, pl_brk pl, pl_calls pl)"

lemma seq_of_conf: "conf_of pl x = conf_of pl' x \<Longrightarrow> seq_of (pl_mem pl) x = seq_of (pl_mem pl') x"
  by (cases "pl_mem pl x"; cases "pl_mem pl' x") (auto simp: conf_of_def seq_of_def dest: arg_cong[of _ _ pe_seq])

lemma chain_cong: "chain E p ys \<Longrightarrow> (\<And>y. y \<in> set ys \<Longrightarrow> map_option next_best (E y) = map_option next_best (E' y)) \<Longrightarrow> chain E' p ys"
proof (induction ys arbitrary: p)
  case (Cons y ys)
  obtain e where e: "E y = Some e" "chain E (next_best e) ys" "p = Some y" using Cons.prems(1) by auto
  have "map_option next_best (E y) = map_option next_best (E' y)" by (rule Cons.prems(2)) simp
  then obtain e' where "E' y = Some e'" "next_best e' = next_best e" using e(1) by (cases "E' y") auto
  then show ?case using Cons.IH[OF e(2)] Cons.prems(2) e(3) by auto
qed simp

lemma chains_cong:
  assumes "chains E H S X" "\<And>x. x \<in> X \<Longrightarrow> map_option next_best (E x) = map_option next_best (E' x)"
    "\<And>x. x \<in> X \<Longrightarrow> rank E x = rank E' x" "\<And>x. x \<in> X \<Longrightarrow> S x = S' x"
  shows "chains E' H S' X"
proof -
  obtain L where L: "lists_of S (rank E) X L" "\<And>t. chain E (H t) (L t)" using assms(1) unfolding chains_def by blast
  have sub: "set (L t) \<subseteq> X" for t using lists_of_set[OF L(1)] by blast
  have "sorted_wrt (\<lambda>x y. rank E' x < rank E' y) (L t)" for t
    by (rule sorted_wrt_mono_rel[of _ "\<lambda>x y. rank E x < rank E y"]) (use L(1) sub[of t] assms(3) in \<open>auto simp: lists_of_def\<close>)
  moreover have "set (L t) = {x \<in> X. t \<in> S' x}" for t using lists_of_set[OF L(1), of t] assms(4) by auto
  ultimately have "lists_of S' (rank E') X L" by (simp add: lists_of_def)
  moreover have "chain E' (H t) (L t)" for t by (rule chain_cong[OF L(2)]) (use sub[of t] assms(2) in blast)
  ultimately show ?thesis unfolding chains_def by blast
qed

lemma indexed_entry: "indexed pl X \<Longrightarrow> x \<in> X \<Longrightarrow> \<exists>e. pl_mem pl x = Some e \<and> entry_ok e"
  by (simp add: indexed_def)

lemma indexed_cong:
  assumes "indexed pl X" "trie_depth pl' = trie_depth pl" "pl_trie pl' = pl_trie pl"
    "\<And>x. x \<in> X \<Longrightarrow> map_option (\<lambda>e. (pe_seq e, pe_prefix e, next_best e)) (pl_mem pl x) =
      map_option (\<lambda>e. (pe_seq e, pe_prefix e, next_best e)) (pl_mem pl' x)"
  shows "indexed pl' X"
proof -
  have h: "\<exists>e e'. pl_mem pl x = Some e \<and> pl_mem pl' x = Some e' \<and> pe_seq e' = pe_seq e \<and> pe_prefix e' = pe_prefix e \<and>
      next_best e' = next_best e \<and> entry_ok e" if x: "x \<in> X" for x
  proof -
    obtain e where "pl_mem pl x = Some e" "entry_ok e" using indexed_entry[OF assms(1) x] by blast
    then show ?thesis using assms(4)[OF x] by (cases "pl_mem pl' x") auto
  qed
  have v: "map_option next_best (pl_mem pl x) = map_option next_best (pl_mem pl' x)" "rank (pl_mem pl) x = rank (pl_mem pl') x"
    "slots_of (trie_depth pl) (pl_mem pl) x = slots_of (trie_depth pl) (pl_mem pl') x" "seq_of (pl_mem pl) x = seq_of (pl_mem pl') x"
    "\<exists>e. pl_mem pl' x = Some e \<and> entry_ok e" if x: "x \<in> X" for x
    using h[OF x] by (auto simp: rank_def slots_of_def seq_of_def entry_ok_def)
  have "chains (pl_mem pl') (slotval (pl_trie pl)) (slots_of (trie_depth pl) (pl_mem pl')) X"
    by (rule chains_cong[of "pl_mem pl" _ "slots_of (trie_depth pl) (pl_mem pl)"]) (use assms(1) v in \<open>auto simp: indexed_def\<close>)
  moreover have "inj_on (seq_of (pl_mem pl')) X" using assms(1) v(4) inj_on_cong[of X "seq_of (pl_mem pl)" "seq_of (pl_mem pl')"] by (auto simp: indexed_def)
  ultimately show ?thesis using assms(1-3) v(5) by (auto simp: indexed_def)
qed

lemma linked_cong:
  assumes "linked pl xs" "pl_head pl' = pl_head pl" "pl_tail pl' = pl_tail pl"
    "\<And>x. x \<in> set xs \<Longrightarrow> map_option (\<lambda>e. (pe_prev e, pe_next e)) (pl_mem pl x) = map_option (\<lambda>e. (pe_prev e, pe_next e)) (pl_mem pl' x)"
  shows "linked pl' xs"
  using assms dseg_cong[of xs "pl_mem pl" "pl_mem pl'"] by (simp add: linked_def)

lemma sorted_seq_cong:
  assumes "sorted_wrt (\<lambda>x y. seq_of E x < seq_of E y) xs" "\<And>x. x \<in> set xs \<Longrightarrow> seq_of E' x = seq_of E x"
  shows "sorted_wrt (\<lambda>x y. seq_of E' x < seq_of E' y) xs"
  by (rule sorted_wrt_mono_rel[OF _ assms(1)]) (simp add: assms(2))

lemma relinks_view:
  assumes "relinks A pl pl'"
  shows "indexed pl X \<Longrightarrow> indexed pl' X" "conf_of pl' = conf_of pl" "pl_misc pl' = pl_misc pl"
    "idle pl X \<Longrightarrow> idle pl' X" "pl_trie pl' = pl_trie pl"
proof -
  have s: "same_but_links (pl_mem pl) (pl_mem pl')" and r: "pl_rest pl' = pl_rest pl" using assms by (auto simp: relinks_def)
  show r': "pl_trie pl' = pl_trie pl" "pl_misc pl' = pl_misc pl" using r by (auto simp: pl_rest_def pl_misc_def)
  have h0: "pl_mem pl x = None \<and> pl_mem pl' x = None \<or> (\<exists>e e'. pl_mem pl x = Some e \<and> pl_mem pl' x = Some e' \<and> unlinked e' = unlinked e)" for x
    using s by (cases "pl_mem pl x"; cases "pl_mem pl' x") (auto simp: same_but_links_def dest: spec[of _ x])
  have u: "pe_conf e = pe_conf (unlinked e)" for e by (simp add: pe_conf_def unlinked_def)
  have h: "pl_mem pl x = None \<and> pl_mem pl' x = None \<or> (\<exists>e e'. pl_mem pl x = Some e \<and> pl_mem pl' x = Some e' \<and>
      pe_conf e' = pe_conf e \<and> pe_seq e' = pe_seq e \<and> pe_prefix e' = pe_prefix e \<and> next_best e' = next_best e)" for x
    using h0[of x] u unlinked_sel(1,6,8) by metis
  have "conf_of pl' x = conf_of pl x" for x using h[of x] by (auto simp: conf_of_def)
  then show "conf_of pl' = conf_of pl" by (rule ext)
  show "indexed pl' X" if i: "indexed pl X"
  proof (rule indexed_cong[OF i])
    show "map_option (\<lambda>e. (pe_seq e, pe_prefix e, next_best e)) (pl_mem pl x) = map_option (\<lambda>e. (pe_seq e, pe_prefix e, next_best e)) (pl_mem pl' x)" for x
      using h[of x] by auto
  qed (use r in \<open>simp_all add: pl_rest_def\<close>)
  show "idle pl' X" if "idle pl X"
    unfolding idle_def
  proof (intro conjI allI impI)
    fix y e assume "y \<notin> X" "pl_mem pl' y = Some e"
    then show "next_best e = None" using that h[of y] by (auto simp: idle_def)
  next
    fix y assume "pl_brk pl' \<le> y"
    then show "pl_mem pl' y = None" using that h[of y] r by (auto simp: idle_def pl_rest_def)
  qed
qed

lemma best_only_conf: "best_only A (pl_mem pl) E \<Longrightarrow> conf_of (pl\<lparr>pl_mem := E, pl_trie := t\<rparr>) = conf_of pl"
proof
  fix x
  assume "best_only A (pl_mem pl) E"
  then have s: "same_but_best (pl_mem pl) E" by (rule best_only_same)
  show "conf_of (pl\<lparr>pl_mem := E, pl_trie := t\<rparr>) x = conf_of pl x"
  proof (cases "pl_mem pl x")
    case None
    then show ?thesis using same_but_best_dom[OF s, of x] by (simp add: conf_of_def)
  next
    case (Some e)
    then obtain v where "E x = Some (e\<lparr>next_best := v\<rparr>)" by (rule same_but_best_D[OF s])
    then show ?thesis using Some by (simp add: conf_of_def)
  qed
qed

lemma best_only_idle: "best_only A (pl_mem pl) E \<Longrightarrow> idle pl A \<Longrightarrow> idle (pl\<lparr>pl_mem := E, pl_trie := t\<rparr>) A"
  unfolding idle_def best_only_def using same_but_best_dom by fastforce

subsection \<open>Taking an entry out\<close>

lemma conf_of_Some: "conf_of pl x = Some c \<Longrightarrow> \<exists>e. pl_mem pl x = Some e \<and> pe_conf e = c"
  by (auto simp: conf_of_def)

definition duplicated :: "prefix_list \<Rightarrow> eaddr list \<Rightarrow> eaddr \<Rightarrow> bool" where
  "duplicated pl xs x \<longleftrightarrow> (\<exists>y \<in> set xs. y \<noteq> x \<and> (\<exists>e f. pl_mem pl x = Some e \<and> pl_mem pl y = Some f \<and>
     prefix_same (Some (pe_prefix f)) (Some (pe_prefix e))))"

lemma find_not_None: "find P xs \<noteq> None \<longleftrightarrow> (\<exists>x \<in> set xs. P x)"
  by (metis find_None_iff)

lemma case_Some_iff: "(case x of Some e \<Rightarrow> Q e | None \<Rightarrow> False) \<longleftrightarrow> (\<exists>e. x = Some e \<and> Q e)"
  by (cases x) auto

lemma is_duplicated_spec:
  assumes i: "indexed pl (set xs)" and e: "pl_mem pl x = Some e" "entry_ok e"
  shows "prefix_list_entry_is_duplicated pl x = Some (duplicated pl xs x)"
proof -
  let ?E = "pl_mem pl" and ?d = "trie_depth pl" and ?bs = "u_val (pe_prefix e)" and ?v = "prefixlen (pe_prefix e)"
  have wf: "trie_wf ?d (pl_trie pl)" and d: "0 < ?d" "?d \<le> 4" using i by (auto simp: indexed_def)
  obtain L where L: "lists_of (slots_of ?d ?E) (rank ?E) (set xs) L" "\<And>s. chain ?E (slotval (pl_trie pl) s) (L s)"
    using i unfolding indexed_def chains_def by blast
  have "?d \<le> length ?bs" using e(2) d by (simp add: entry_ok_def prefix_ok_def)
  then obtain s where s: "trie_chain ?d ?bs ?v (pl_trie pl) = Some (slotval (pl_trie pl) s)" "s \<in> set (entry_slots ?d ?bs ?v)"
    using trie_chain_spec[OF wf] entry_ok_slots[OF e(2)] by blast
  let ?P = "\<lambda>b y. b \<noteq> x \<and> prefix_same (Some (pe_prefix y)) (Some (pe_prefix e))"
  have "prefix_list_entry_is_duplicated pl x = Some (find (\<lambda>y. case ?E y of Some e \<Rightarrow> ?P y e | None \<Rightarrow> False) (L s) \<noteq> None)"
    using best_find_spec[OF L(2), of ?P s] e(1) s(1) by (simp add: prefix_list_entry_is_duplicated_def)
  moreover have "find (\<lambda>y. case ?E y of Some e \<Rightarrow> ?P y e | None \<Rightarrow> False) (L s) \<noteq> None \<longleftrightarrow> duplicated pl xs x"
  proof -
    have "y \<in> set (L s)" if "y \<in> set xs" "?E y = Some f" "prefix_same (Some (pe_prefix f)) (Some (pe_prefix e))" for y f
      using prefix_same_slots[OF that(3) d] s(2) lists_of_set[OF L(1)] that(1,2) by (simp add: slots_of_def)
    moreover have "set (L s) \<subseteq> set xs" using lists_of_set[OF L(1)] by blast
    moreover have "find (\<lambda>y. case ?E y of Some e \<Rightarrow> ?P y e | None \<Rightarrow> False) (L s) \<noteq> None \<longleftrightarrow>
        (\<exists>y \<in> set (L s). \<exists>f. ?E y = Some f \<and> ?P y f)"
      unfolding find_not_None case_Some_iff ..
    moreover have "duplicated pl xs x \<longleftrightarrow> (\<exists>y \<in> set xs. \<exists>f. ?E y = Some f \<and> ?P y f)" using e(1) by (auto simp: duplicated_def)
    ultimately show ?thesis by blast
  qed
  ultimately show ?thesis by simp
qed

lemma idle_mono: "idle pl A \<Longrightarrow> A \<subseteq> B \<Longrightarrow> idle pl B"
  unfolding idle_def by blast

lemma plist_inv_entry:
  assumes "plist_inv pl xs" "x \<in> set xs"
  shows "\<exists>e. pl_mem pl x = Some e \<and> entry_ok e"
  using assms by (auto simp: plist_inv_def indexed_def)

lemma unhook_spec:
  assumes inv: "plist_inv pl (as @ x # bs)"
  shows "\<exists>pl1 pl2. prefix_list_entry_is_duplicated pl x = Some (duplicated pl (as @ x # bs) x) \<and> prefix_list_trie_del pl x = Some pl1 \<and>
    list_unlink pl1 x = Some pl2 \<and> linked pl2 (as @ bs) \<and> indexed pl2 (set (as @ bs)) \<and> idle pl2 (set (as @ x # bs)) \<and>
    conf_of pl2 = conf_of pl \<and> pl_misc pl2 = pl_misc pl"
proof -
  let ?xs = "as @ x # bs"
  have l: "linked pl ?xs" and i: "indexed pl (set ?xs)" and id: "idle pl (set ?xs)" using inv by (auto simp: plist_inv_def)
  have rm: "set ?xs - {x} = set (as @ bs)" using l by (auto simp: linked_def)
  obtain e where e: "pl_mem pl x = Some e" "entry_ok e" using plist_inv_entry[OF inv, of x] by auto
  obtain E t where d: "prefix_list_trie_del pl x = Some (pl\<lparr>pl_mem := E, pl_trie := t\<rparr>)" "best_only (set ?xs) (pl_mem pl) E"
      "indexed (pl\<lparr>pl_mem := E, pl_trie := t\<rparr>) (set (as @ bs))"
    using prefix_list_trie_del_spec[OF i, of x] unfolding rm by auto
  let ?pl1 = "pl\<lparr>pl_mem := E, pl_trie := t\<rparr>"
  have "linked ?pl1 ?xs" using l linked_best[OF d(2)] by simp
  then obtain pl2 where p2: "list_unlink ?pl1 x = Some pl2" "linked pl2 (as @ bs)" "relinks (set (as @ bs)) ?pl1 pl2"
    using list_unlink_spec by blast
  note v = relinks_view[OF p2(3)]
  have "conf_of pl2 = conf_of pl" using v(2) best_only_conf[OF d(2)] by simp
  moreover have "pl_misc pl2 = pl_misc pl" using v(3) by (simp add: pl_misc_def)
  moreover have "idle pl2 (set ?xs)" by (rule v(4)[OF best_only_idle[OF d(2) id]])
  ultimately show ?thesis using is_duplicated_spec[OF i e] d(1) p2(1,2) v(1)[OF d(3)] by blast
qed

lemma hook_spec:
  assumes l: "linked pl (as @ bs)" and i: "indexed pl (set (as @ bs))" and id: "idle pl (set (as @ bs))"
    and x: "x \<notin> set (as @ bs)" "pl_mem pl x = Some e" "entry_ok e" "pe_seq e \<notin> seq_of (pl_mem pl) ` set (as @ bs)"
  shows "\<exists>pl1 pl2. list_link pl x (hdo bs) = Some pl1 \<and> prefix_list_trie_add pl1 x = Some pl2 \<and> linked pl2 (as @ x # bs) \<and>
    indexed pl2 (set (as @ x # bs)) \<and> idle pl2 (set (as @ x # bs)) \<and> conf_of pl2 = conf_of pl \<and> pl_misc pl2 = pl_misc pl"
proof -
  let ?xs = "as @ x # bs"
  have ins: "set ?xs = insert x (set (as @ bs))" by auto
  obtain pl1 where p1: "list_link pl x (hdo bs) = Some pl1" "linked pl1 ?xs" "relinks (set ?xs) pl pl1"
    using list_link_spec[OF l x(1,2)] by blast
  note v = relinks_view[OF p1(3)]
  have "conf_of pl1 x = Some (pe_conf e)" using v(2) x(2) by (simp add: conf_of_def)
  then obtain e1 where e1: "pl_mem pl1 x = Some e1" "pe_conf e1 = pe_conf e" using conf_of_Some by blast
  have ok: "entry_ok e1" "pe_seq e1 = pe_seq e" using e1(2) x(3) pe_conf_sel unfolding entry_ok_def by metis+
  have s: "pe_seq e1 \<notin> seq_of (pl_mem pl1) ` set (as @ bs)"
    using seq_of_conf[of pl1 _ pl] v(2) x(4) ok(2) by (auto simp: image_iff)
  have nb: "next_best e1 = None" using v(4)[OF id] x(1) e1(1) by (auto simp: idle_def)
  obtain E t where t: "prefix_list_trie_add pl1 x = Some (pl1\<lparr>pl_mem := E, pl_trie := t\<rparr>)" "best_only (set ?xs) (pl_mem pl1) E"
      "indexed (pl1\<lparr>pl_mem := E, pl_trie := t\<rparr>) (set ?xs)"
    using prefix_list_trie_add_spec[OF v(1)[OF i] x(1) e1(1) nb ok(1) s] unfolding ins by blast
  let ?pl2 = "pl1\<lparr>pl_mem := E, pl_trie := t\<rparr>"
  have "linked ?pl2 ?xs" using p1(2) linked_best[OF t(2)] by simp
  moreover have "conf_of ?pl2 = conf_of pl" using v(2) best_only_conf[OF t(2)] by simp
  moreover have "pl_misc ?pl2 = pl_misc pl" using v(3) by (simp add: pl_misc_def)
  moreover have "idle ?pl2 (set ?xs)" by (rule best_only_idle[OF t(2) idle_mono[OF v(4)[OF id]]]) auto
  ultimately show ?thesis using p1(1) t(1,3) by blast
qed

subsection \<open>Operations on a list\<close>

text \<open>Counters, calls, flags and entries outside the list do not matter to the links and the trie.\<close>

lemma linked_misc [simp]:
  "linked (pl\<lparr>pl_count := c\<rparr>) xs = linked pl xs" "linked (pl\<lparr>pl_calls := q\<rparr>) xs = linked pl xs"
  "indexed (pl\<lparr>pl_count := c\<rparr>) X = indexed pl X" "indexed (pl\<lparr>pl_calls := q\<rparr>) X = indexed pl X"
  "idle (pl\<lparr>pl_count := c\<rparr>) X = idle pl X" "idle (pl\<lparr>pl_calls := q\<rparr>) X = idle pl X"
  by (simp_all add: linked_def indexed_def idle_def)

lemma linked_other: "x \<notin> set xs \<Longrightarrow> linked (pl\<lparr>pl_mem := (pl_mem pl)(x := v)\<rparr>) xs = linked pl xs"
  by (simp add: linked_def dseg_frame)

lemma indexed_other: "x \<notin> X \<Longrightarrow> indexed pl X \<Longrightarrow> indexed (pl\<lparr>pl_mem := (pl_mem pl)(x := v)\<rparr>) X"
  by (rule indexed_cong) auto

lemma sorted_wrt_remove: "sorted_wrt P (as @ x # bs) \<Longrightarrow> sorted_wrt P (as @ bs)"
  by (auto simp: sorted_wrt_append)

lemma prefix_list_entry_delete0_spec:
  assumes inv: "plist_inv pl (as @ x # bs)"
  shows "\<exists>pl'. prefix_list_entry_delete0 pl x = Some pl' \<and> plist_inv pl' (as @ bs) \<and> conf_of pl' = (conf_of pl)(x := None) \<and>
    trie_depth pl' = trie_depth pl \<and> pl_desc pl' = pl_desc pl \<and> pl_brk pl' = pl_brk pl \<and>
    (\<forall>e. pl_mem pl x = Some e \<longrightarrow> pl_calls pl' = pl_calls pl @
      (if duplicated pl (as @ x # bs) x then [] else [Notify_pentry (pe_prefix e) RMAP_EVENT_PLIST_DELETED]))"
proof -
  let ?xs = "as @ x # bs"
  obtain e where e: "pl_mem pl x = Some e" using plist_inv_entry[OF inv, of x] by auto
  have x: "x \<notin> set (as @ bs)" using inv by (auto simp: plist_inv_def linked_def)
  obtain pl1 pl2 where p: "prefix_list_entry_is_duplicated pl x = Some (duplicated pl ?xs x)" "prefix_list_trie_del pl x = Some pl1"
      "list_unlink pl1 x = Some pl2" "linked pl2 (as @ bs)" "indexed pl2 (set (as @ bs))" "idle pl2 (set ?xs)"
      "conf_of pl2 = conf_of pl" "pl_misc pl2 = pl_misc pl"
    using unhook_spec[OF inv] by blast
  obtain e2 where e2: "pl_mem pl2 x = Some e2" "pe_conf e2 = pe_conf e" using conf_of_Some[of pl2 x "pe_conf e"] p(7) e by (auto simp: conf_of_def)
  have pe: "pe_prefix e2 = pe_prefix e" using e2(2) pe_conf_sel(6) by metis
  define cs where "cs = (if duplicated pl ?xs x then [] else [Notify_pentry (pe_prefix e) RMAP_EVENT_PLIST_DELETED])"
  let ?E = "(pl_mem pl2)(x := None)"
  let ?pl = "pl2\<lparr>pl_mem := ?E, pl_calls := pl_calls pl2 @ cs, pl_count := pl_count pl2 - 1\<rparr>"
  have c: "pl_count pl2 = int (length ?xs)" "length ?xs < 2 ^ 31" using inv p(8) by (auto simp: plist_inv_def pl_misc_def)
  have "prefix_list_entry_delete0 pl x = Some ?pl"
    using p(1-3) e2(1) pe c by (simp add: prefix_list_entry_delete0_def prefix_list_entry_free_def pl_call_def count_add_def cs_def)
  moreover have "plist_inv ?pl (as @ bs)"
  proof -
    have s: "sorted_wrt (\<lambda>x y. seq_of (pl_mem pl) x < seq_of (pl_mem pl) y) (as @ bs)"
      using inv sorted_wrt_remove by (auto simp: plist_inv_def)
    have "seq_of ?E y = seq_of (pl_mem pl) y" if "y \<in> set (as @ bs)" for y
      using seq_of_conf[of pl2 y pl] p(7) that x by (auto simp: seq_of_def)
    then have "sorted_wrt (\<lambda>x y. seq_of ?E x < seq_of ?E y) (as @ bs)" by (rule sorted_seq_cong[OF s])
    moreover have "idle (pl2\<lparr>pl_mem := ?E\<rparr>) (set (as @ bs))" using p(6) by (auto simp: idle_def)
    ultimately show ?thesis
      using p(4,5) c indexed_other[OF x, of pl2 None] linked_other[OF x, of pl2 None] by (simp add: plist_inv_def)
  qed
  moreover have "conf_of ?pl = (conf_of pl)(x := None)" using p(7) by (auto simp: conf_of_def fun_eq_iff)
  ultimately show ?thesis using p(8) e by (auto simp: pl_misc_def cs_def)
qed

text \<open>The place of a number in the list.\<close>

lemma split_at_seq:
  fixes f :: "'a \<Rightarrow> 'b :: linorder"
  assumes "sorted_wrt (\<lambda>x y. f x < f y) xs"
  shows "xs = filter (\<lambda>y. f y < q) xs @ filter (\<lambda>y. f y = q) xs @ filter (\<lambda>y. q < f y) xs"
  using assms
proof (induction xs)
  case (Cons x xs)
  have IH: "xs = filter (\<lambda>y. f y < q) xs @ filter (\<lambda>y. f y = q) xs @ filter (\<lambda>y. q < f y) xs" using Cons by simp
  have gt: "\<forall>y \<in> set xs. f x < f y" using Cons.prems by simp
  consider "f x < q" | "q \<le> f x" by fastforce
  then show ?case
  proof cases
    case 1
    then have "\<not> q < f x" "f x \<noteq> q" by auto
    then show ?thesis using IH 1 by simp
  next
    case 2
    then have "filter (\<lambda>y. f y < q) xs = []" "filter (\<lambda>y. f y = q) xs = []" using gt by (fastforce simp: filter_empty_conv)+
    then show ?thesis using IH 2 by auto
  qed
qed simp

lemma seq_unique:
  fixes f :: "'a \<Rightarrow> 'b :: linorder"
  assumes "sorted_wrt (\<lambda>x y. f x < f y) xs"
  shows "filter (\<lambda>y. f y = q) xs = [] \<or> (\<exists>r. filter (\<lambda>y. f y = q) xs = [r] \<and> f r = q)"
  using assms
proof (induction xs)
  case (Cons x xs)
  have "\<forall>y \<in> set xs. f x < f y" using Cons.prems by simp
  then have "f x = q \<Longrightarrow> filter (\<lambda>y. f y = q) xs = []" by (auto simp: filter_empty_conv)
  then show ?case using Cons by auto
qed simp

lemma find_place:
  fixes f :: "'a \<Rightarrow> 'b :: linorder"
  shows "find (\<lambda>y. q \<le> f y) (filter (\<lambda>y. f y < q) xs @ filter (\<lambda>y. q < f y) xs) = hdo (filter (\<lambda>y. q < f y) xs)"
proof -
  have 1: "find P (as @ bs) = find P bs" if "\<forall>a \<in> set as. \<not> P a" for P and as bs :: "'a list" using that by (induction as) auto
  have 2: "find P bs = hdo bs" if "\<forall>a \<in> set bs. P a" for P and bs :: "'a list" using that by (cases bs) auto
  show ?thesis by (subst 1) (auto intro!: 2)
qed

lemma find_seq: "find P xs = hdo (filter P xs)"
  by (induction xs) auto

definition new_seq :: "int list \<Rightarrow> int" where
  "new_seq qs = min UINT_MAX (Max (set (0 # qs)) div 5 * 5 + 5)"

lemma fold_max: "fold (\<lambda>x m. max m (f x)) xs m = Max (set (m # map f xs))" for m :: int
proof (induction xs arbitrary: m)
  case (Cons x xs)
  show ?case
  proof (cases xs)
    case (Cons y ys)
    then have "Max (insert (max m (f x)) (f ` set xs)) = max (max m (f x)) (Max (f ` set xs))" by simp
    moreover have "Max (insert m (insert (f x) (f ` set xs))) = max m (max (f x) (Max (f ` set xs)))" using Cons by simp
    ultimately show ?thesis using Cons.IH[of "max m (f x)"] by (simp add: max.assoc)
  qed (simp add: Cons.IH max.commute)
qed simp

lemma prefix_new_seq_get_spec:
  assumes "linked pl xs"
  shows "prefix_new_seq_get pl = Some (new_seq (map (seq_of (pl_mem pl)) xs))"
  using assms max_seq_spec[of "pl_mem pl" None xs 0]
  by (auto simp: prefix_new_seq_get_def linked_def fold_max new_seq_def min_def)

lemma insert_spec:
  assumes l: "linked pl (as @ bs)" and i: "indexed pl (set (as @ bs))" and id: "idle pl (set (as @ bs))"
    and x: "x \<notin> set (as @ bs)" "pl_mem pl x = Some e" "entry_ok e" "pe_seq e \<notin> seq_of (pl_mem pl) ` set (as @ bs)"
    and s: "sorted_wrt (\<lambda>x y. seq_of (pl_mem pl) x < seq_of (pl_mem pl) y) (as @ x # bs)"
    and c: "pl_count pl = int (length (as @ bs))" "length (as @ bs) < 2 ^ 31 - 1"
  shows "\<exists>pl1 pl2. list_link pl x (hdo bs) = Some pl1 \<and> entry_enter pl1 x = Some pl2 \<and> plist_inv pl2 (as @ x # bs) \<and>
    conf_of pl2 = conf_of pl \<and> trie_depth pl2 = trie_depth pl \<and> pl_desc pl2 = pl_desc pl \<and> pl_brk pl2 = pl_brk pl \<and>
    pl_calls pl2 = pl_calls pl @ [Notify_pentry (pe_prefix e) RMAP_EVENT_PLIST_ADDED, Add_hook, Notify RMAP_EVENT_PLIST_ADDED]"
proof -
  let ?xs = "as @ x # bs"
  obtain pl1 pl2 where p: "list_link pl x (hdo bs) = Some pl1" "prefix_list_trie_add pl1 x = Some pl2" "linked pl2 ?xs"
      "indexed pl2 (set ?xs)" "idle pl2 (set ?xs)" "conf_of pl2 = conf_of pl" "pl_misc pl2 = pl_misc pl"
    using hook_spec[OF l i id x] by blast
  obtain e2 where e2: "pl_mem pl2 x = Some e2" "pe_conf e2 = pe_conf e" using conf_of_Some[of pl2 x "pe_conf e"] p(6) x(2) by (auto simp: conf_of_def)
  have pe: "pe_prefix e2 = pe_prefix e" using e2(2) pe_conf_sel(6) by metis
  have cnt: "pl_count pl2 = int (length (as @ bs))" using p(7) c by (simp add: pl_misc_def)
  let ?pl = "pl_call (pl2\<lparr>pl_count := pl_count pl2 + 1\<rparr>) [Notify_pentry (pe_prefix e) RMAP_EVENT_PLIST_ADDED, Add_hook, Notify RMAP_EVENT_PLIST_ADDED]"
  have "entry_enter pl1 x = Some ?pl" using p(2) cnt c(2) e2(1) pe by (simp add: entry_enter_def count_add_def)
  moreover have "plist_inv ?pl ?xs"
    using p(3-5) cnt c(2) sorted_seq_cong[OF s, of "pl_mem pl2"] seq_of_conf[of pl2 _ pl] p(6) by (auto simp: plist_inv_def pl_call_def)
  moreover have "conf_of ?pl = conf_of pl" using p(6) by (simp add: conf_of_def pl_call_def fun_eq_iff)
  ultimately show ?thesis using p(1,7) by (simp add: pl_misc_def pl_call_def)
qed

lemma plist_inv_other:
  assumes inv: "plist_inv pl xs" and x: "x \<notin> set xs" "pl_mem pl x = Some e" "next_best e' = None"
  shows "plist_inv (pl\<lparr>pl_mem := (pl_mem pl)(x \<mapsto> e')\<rparr>) xs"
proof -
  have "idle (pl\<lparr>pl_mem := (pl_mem pl)(x \<mapsto> e')\<rparr>) (set xs)"
    using inv x by (auto simp: plist_inv_def idle_def)
  moreover have "sorted_wrt (\<lambda>y z. seq_of ((pl_mem pl)(x \<mapsto> e')) y < seq_of ((pl_mem pl)(x \<mapsto> e')) z) xs"
    by (rule sorted_seq_cong[of "pl_mem pl"]) (use inv x(1) in \<open>auto simp: plist_inv_def seq_of_def\<close>)
  ultimately show ?thesis
    using inv linked_other[OF x(1)] indexed_other[OF x(1)] by (simp add: plist_inv_def)
qed

lemma beyond_tail_spec:
  assumes "linked pl xs"
  shows "beyond_tail pl q = Some (\<exists>t. lasto xs = Some t \<and> seq_of (pl_mem pl) t < q)"
proof (cases xs rule: rev_cases)
  case (snoc ys y)
  then obtain e where "pl_mem pl y = Some e" using linked_mem[OF assms, of y] by auto
  then show ?thesis using assms by (simp add: linked_def snoc seq_of_def beyond_tail_def)
qed (use assms in \<open>simp add: linked_def beyond_tail_def\<close>)

lemma entry_find_seq:
  assumes "linked pl xs"
  shows "entry_find (pl_mem pl) (\<lambda>e. P (pe_seq e)) (pl_head pl) = Some (find (\<lambda>x. P (seq_of (pl_mem pl) x)) xs)"
proof -
  have "find (\<lambda>x. case pl_mem pl x of Some e \<Rightarrow> P (pe_seq e) | None \<Rightarrow> False) xs = find (\<lambda>x. P (seq_of (pl_mem pl) x)) xs"
  proof (rule find_cong)
    fix x assume "x \<in> set xs"
    then obtain e where "pl_mem pl x = Some e" using linked_mem[OF assms] by blast
    then show "(case pl_mem pl x of Some e \<Rightarrow> P (pe_seq e) | None \<Rightarrow> False) = P (seq_of (pl_mem pl) x)" by (simp add: seq_of_def)
  qed simp
  then show ?thesis using entry_find_spec[of "pl_mem pl" None xs "\<lambda>e. P (pe_seq e)"] assms by (simp add: linked_def)
qed

text \<open>When the number is beyond the last one, no entry follows it and none has it.\<close>

lemma beyond_last:
  fixes f :: "'a \<Rightarrow> 'b :: linorder"
  assumes "sorted_wrt (\<lambda>x y. f x < f y) xs" "lasto xs = Some t" "f t < q"
  shows "filter (\<lambda>y. f y = q) xs = []" "filter (\<lambda>y. q < f y) xs = []" "filter (\<lambda>y. f y < q) xs = xs"
proof -
  obtain ys where xs: "xs = ys @ [t]" using assms(2) by (cases xs rule: rev_cases) auto
  have "f y < q" if "y \<in> set xs" for y using that assms(1,3) by (auto simp: xs sorted_wrt_append dest: less_trans)
  then have "\<forall>y \<in> set xs. f y < q \<and> f y \<noteq> q \<and> \<not> q < f y" by fastforce
  then show "filter (\<lambda>y. f y = q) xs = []" "filter (\<lambda>y. q < f y) xs = []" "filter (\<lambda>y. f y < q) xs = xs"
    by (auto simp: filter_empty_conv filter_id_conv)
qed

text \<open>The list after an entry with number \<open>q\<close> was added: an entry with that number is replaced.\<close>

definition place :: "(eaddr \<Rightarrow> int) \<Rightarrow> int \<Rightarrow> eaddr \<Rightarrow> eaddr list \<Rightarrow> eaddr list" where
  "place f q x xs = filter (\<lambda>y. f y < q) xs @ x # filter (\<lambda>y. q < f y) xs"

lemma place_cong: "(\<And>y. y \<in> set xs \<Longrightarrow> f y = g y) \<Longrightarrow> place f q x xs = place g q x xs"
  by (simp add: place_def cong: filter_cong)

lemma place_sorted:
  fixes f g :: "eaddr \<Rightarrow> int"
  assumes s: "sorted_wrt (\<lambda>x y. f x < f y) xs" and x: "g x = q" and g: "\<And>y. y \<in> set xs \<Longrightarrow> f y \<noteq> q \<Longrightarrow> g y = f y"
  shows "sorted_wrt (\<lambda>x y. g x < g y) (place f q x xs)"
proof -
  have h: "sorted_wrt (\<lambda>x y. g x < g y) (filter P xs)" if "\<And>y. P y \<Longrightarrow> f y \<noteq> q" for P
    by (rule sorted_wrt_mono_rel[OF _ sorted_wrt_filter[OF s]]) (use g that in auto)
  have "sorted_wrt (\<lambda>x y. g x < g y) (filter (\<lambda>y. f y < q) xs)" by (rule h) simp
  moreover have "sorted_wrt (\<lambda>x y. g x < g y) (filter (\<lambda>y. q < f y) xs)" by (rule h) simp
  moreover have lt: "g y < q" if "y \<in> set (filter (\<lambda>y. f y < q) xs)" for y using that g[of y] by auto
  moreover have gt: "q < g y" if "y \<in> set (filter (\<lambda>y. q < f y) xs)" for y using that g[of y] by auto
  moreover have "g y < g z" if "y \<in> set (filter (\<lambda>y. f y < q) xs)" "z \<in> set (filter (\<lambda>y. q < f y) xs)" for y z
    using lt[OF that(1)] gt[OF that(2)] by simp
  ultimately show ?thesis unfolding place_def sorted_wrt_append by (simp add: x)
qed

text \<open>The part of \<^verbatim>\<open>prefix_list_entry_add\<close> that makes room for the number \<open>sq\<close>.\<close>

lemma make_room:
  assumes inv: "plist_inv pl xs"
  defines "f \<equiv> seq_of (pl_mem pl)"
  shows "\<exists>pl'. do { replace \<leftarrow> prefix_seq_check pl sq;
       pl \<leftarrow> (case replace of Some r \<Rightarrow> prefix_list_entry_delete0 pl r | None \<Rightarrow> Some pl);
       point \<leftarrow> entry_find (pl_mem pl) (\<lambda>x. pe_seq x \<ge> sq) (pl_head pl);
       Some (point, pl) } = Some (hdo (filter (\<lambda>y. sq < f y) xs), pl') \<and>
    plist_inv pl' (filter (\<lambda>y. f y < sq) xs @ filter (\<lambda>y. sq < f y) xs) \<and>
    conf_of pl' = (\<lambda>y. if y \<in> set xs \<and> f y = sq then None else conf_of pl y) \<and>
    trie_depth pl' = trie_depth pl \<and> pl_desc pl' = pl_desc pl \<and> pl_brk pl' = pl_brk pl"
proof -
  let ?as = "filter (\<lambda>y. f y < sq) xs" and ?bs = "filter (\<lambda>y. sq < f y) xs" and ?rs = "filter (\<lambda>y. f y = sq) xs"
  have l: "linked pl xs" and s: "sorted_wrt (\<lambda>x y. f x < f y) xs" using inv by (auto simp: plist_inv_def f_def)
  have xs: "xs = ?as @ ?rs @ ?bs" by (rule split_at_seq[OF s])
  have chk: "prefix_seq_check pl sq = Some (hdo ?rs)"
    using entry_find_seq[OF l, of "\<lambda>q. q = sq"] by (simp add: prefix_seq_check_def find_seq f_def)
  have "\<exists>pl'. (case hdo ?rs of Some r \<Rightarrow> prefix_list_entry_delete0 pl r | None \<Rightarrow> Some pl) = Some pl' \<and> plist_inv pl' (?as @ ?bs) \<and>
      conf_of pl' = (\<lambda>y. if y \<in> set xs \<and> f y = sq then None else conf_of pl y) \<and> trie_depth pl' = trie_depth pl \<and>
      pl_desc pl' = pl_desc pl \<and> pl_brk pl' = pl_brk pl"
  proof (cases "?rs = []")
    case True
    moreover have "plist_inv pl (?as @ ?bs)" using inv xs True by simp
    moreover have "conf_of pl = (\<lambda>y. if y \<in> set xs \<and> f y = sq then None else conf_of pl y)"
      by (rule ext) (use True in \<open>auto simp: filter_empty_conv\<close>)
    ultimately show ?thesis by simp
  next
    case False
    then obtain r where r: "?rs = [r]" using seq_unique[OF s] by blast
    have mem: "y \<in> set xs \<and> f y = sq \<longleftrightarrow> y = r" for y using arg_cong[OF r, of set] by auto
    have "plist_inv pl (?as @ r # ?bs)" using inv xs r by simp
    from prefix_list_entry_delete0_spec[OF this] show ?thesis by (auto simp: r mem fun_eq_iff)
  qed
  then obtain pl' where p: "(case hdo ?rs of Some r \<Rightarrow> prefix_list_entry_delete0 pl r | None \<Rightarrow> Some pl) = Some pl'" "plist_inv pl' (?as @ ?bs)"
      "conf_of pl' = (\<lambda>y. if y \<in> set xs \<and> f y = sq then None else conf_of pl y)" "trie_depth pl' = trie_depth pl"
      "pl_desc pl' = pl_desc pl" "pl_brk pl' = pl_brk pl" by blast
  have "seq_of (pl_mem pl') y = f y" if "y \<in> set (?as @ ?bs)" for y
    using seq_of_conf[of pl' y pl] p(3) that by (auto simp: f_def)
  then have "find (\<lambda>y. sq \<le> seq_of (pl_mem pl') y) (?as @ ?bs) = find (\<lambda>y. sq \<le> f y) (?as @ ?bs)" by (intro find_cong) auto
  then have "entry_find (pl_mem pl') (\<lambda>x. pe_seq x \<ge> sq) (pl_head pl') = Some (hdo ?bs)"
    using entry_find_seq[of pl' "?as @ ?bs" "\<lambda>q. sq \<le> q"] p(2) find_place[of sq f xs] by (simp add: plist_inv_def)
  then show ?thesis using chk p by auto
qed

lemma length_filter_sum:
  "length (filter (\<lambda>y. f y < (q :: int)) xs) + length (filter (\<lambda>y. q < f y) xs) = length (filter (\<lambda>y. f y \<noteq> q) xs)"
  by (induction xs) auto

text \<open>What \<^verbatim>\<open>prefix_list_entry_add\<close> does with an entry that is not in the list.\<close>

definition add_seq :: "prefix_list \<Rightarrow> eaddr list \<Rightarrow> prefix_list_entry \<Rightarrow> int" where
  "add_seq pl xs e = (if pe_seq e = -1 then new_seq (map (seq_of (pl_mem pl)) xs) else pe_seq e)"

lemma entry_room_spec:
  assumes inv: "plist_inv pl xs" and f: "\<And>y. y \<in> set xs \<Longrightarrow> seq_of (pl_mem pl) y = f y"
  shows "\<exists>pl1. entry_room pl q = Some (hdo (filter (\<lambda>y. q < f y) xs), pl1) \<and>
    plist_inv pl1 (filter (\<lambda>y. f y < q) xs @ filter (\<lambda>y. q < f y) xs) \<and>
    conf_of pl1 = (\<lambda>y. if y \<in> set xs \<and> f y = q then None else conf_of pl y) \<and>
    trie_depth pl1 = trie_depth pl \<and> pl_desc pl1 = pl_desc pl \<and> pl_brk pl1 = pl_brk pl"
proof -
  let ?f = "seq_of (pl_mem pl)"
  have c: "filter (\<lambda>y. f y < q) xs = filter (\<lambda>y. ?f y < q) xs" "filter (\<lambda>y. q < f y) xs = filter (\<lambda>y. q < ?f y) xs"
    using f by (auto intro: filter_cong)
  have d: "(\<lambda>y. if y \<in> set xs \<and> f y = q then None else conf_of pl y) = (\<lambda>y. if y \<in> set xs \<and> ?f y = q then None else conf_of pl y)"
    by (rule ext) (use f in auto)
  have l: "linked pl xs" and s: "sorted_wrt (\<lambda>x y. ?f x < ?f y) xs" using inv by (auto simp: plist_inv_def)
  show ?thesis
  proof (cases "\<exists>t. lasto xs = Some t \<and> ?f t < q")
    case True
    then obtain t where t: "lasto xs = Some t" "?f t < q" by blast
    note b = beyond_last[OF s t]
    have "conf_of pl = (\<lambda>y. if y \<in> set xs \<and> ?f y = q then None else conf_of pl y)"
      by (rule ext) (use b(1) in \<open>auto simp: filter_empty_conv\<close>)
    moreover have "entry_room pl q = Some (None, pl)" using beyond_tail_spec[OF l, of q] True by (simp add: entry_room_def)
    ultimately show ?thesis unfolding c d b using inv by simp
  next
    case False
    then have "beyond_tail pl q = Some False" using beyond_tail_spec[OF l, of q] by simp
    then show ?thesis unfolding c d entry_room_def by (simp only: Option.bind.simps if_False) (rule make_room[OF inv])
  qed
qed

lemma prefix_list_entry_add_spec:
  assumes inv: "plist_inv pl xs" and x: "x \<notin> set xs" "pl_mem pl x = Some e" "entry_ok e" and len: "length xs < 2 ^ 31 - 1"
  defines "q \<equiv> add_seq pl xs e" and "f \<equiv> seq_of (pl_mem pl)"
  shows "\<exists>pl'. prefix_list_entry_add pl x = Some pl' \<and> plist_inv pl' (place f q x xs) \<and>
    conf_of pl' = (\<lambda>y. if y \<in> set xs \<and> f y = q then None else conf_of pl y)(x \<mapsto> pe_conf (e\<lparr>pe_seq := q\<rparr>)) \<and>
    trie_depth pl' = trie_depth pl \<and> pl_desc pl' = pl_desc pl \<and> pl_brk pl' = pl_brk pl"
proof -
  let ?as = "filter (\<lambda>y. f y < q) xs" and ?bs = "filter (\<lambda>y. q < f y) xs"
  let ?e = "e\<lparr>pe_seq := q\<rparr>"
  let ?pl = "pl\<lparr>pl_mem := (pl_mem pl)(x \<mapsto> ?e)\<rparr>"
  have nb: "next_best ?e = None" using inv x(1,2) by (auto simp: plist_inv_def idle_def)
  have inv0: "plist_inv ?pl xs" by (rule plist_inv_other[OF inv x(1,2) nb])
  have f0: "seq_of (pl_mem ?pl) y = f y" if "y \<in> set xs" for y using that x(1) by (auto simp: f_def seq_of_def)
  have s: "sorted_wrt (\<lambda>x y. f x < f y) xs" using inv by (simp add: plist_inv_def f_def)
  have sq: "(if pe_seq e = -1 then prefix_new_seq_get pl else Some (pe_seq e)) = Some q"
    using inv prefix_new_seq_get_spec by (simp add: q_def add_seq_def plist_inv_def)
  obtain pl1 where p1: "entry_room ?pl q = Some (hdo ?bs, pl1)" "plist_inv pl1 (?as @ ?bs)"
      "conf_of pl1 = (\<lambda>y. if y \<in> set xs \<and> f y = q then None else conf_of ?pl y)"
      "trie_depth pl1 = trie_depth ?pl" "pl_desc pl1 = pl_desc ?pl" "pl_brk pl1 = pl_brk ?pl"
    using entry_room_spec[OF inv0 f0] by blast
  have x1: "x \<notin> set (?as @ ?bs)" using x(1) by simp
  have "conf_of pl1 x = Some (pe_conf ?e)" using p1(3) x(1) by (simp add: conf_of_def)
  then obtain e1 where e1: "pl_mem pl1 x = Some e1" "pe_conf e1 = pe_conf ?e" using conf_of_Some by blast
  have e1': "entry_ok e1" "pe_seq e1 = q" using x(3) arg_cong[OF e1(2), of pe_prefix] arg_cong[OF e1(2), of pe_seq] by (simp_all add: entry_ok_def)
  have f1: "seq_of (pl_mem pl1) y = f y" if "y \<in> set xs" "f y \<noteq> q" for y
    using seq_of_conf[of pl1 y ?pl] p1(3) f0 that by auto
  have s1: "sorted_wrt (\<lambda>y z. seq_of (pl_mem pl1) y < seq_of (pl_mem pl1) z) (?as @ x # ?bs)"
  proof -
    have g: "seq_of (pl_mem pl1) x = q" using e1 e1' by (simp add: seq_of_def)
    show ?thesis using place_sorted[of f xs "seq_of (pl_mem pl1)" x q, OF s g f1] unfolding place_def .
  qed
  have nq: "pe_seq e1 \<notin> seq_of (pl_mem pl1) ` set (?as @ ?bs)"
  proof
    assume "pe_seq e1 \<in> seq_of (pl_mem pl1) ` set (?as @ ?bs)"
    then obtain y where "pe_seq e1 = seq_of (pl_mem pl1) y" "y \<in> set (?as @ ?bs)" by (rule imageE)
    then show False using f1[of y] e1'(2) by auto
  qed
  have "length (?as @ ?bs) \<le> length xs" using length_filter_le[of "\<lambda>y. f y \<noteq> q" xs] by (simp add: length_filter_sum)
  then have cnt: "length (?as @ ?bs) < 2 ^ 31 - 1" using len by linarith
  have i1: "linked pl1 (?as @ ?bs)" "indexed pl1 (set (?as @ ?bs))" "idle pl1 (set (?as @ ?bs))" "pl_count pl1 = int (length (?as @ ?bs))"
    using p1(2) by (simp_all only: plist_inv_def)
  obtain pl2 pl3 where p3: "list_link pl1 x (hdo ?bs) = Some pl2" "entry_enter pl2 x = Some pl3" "plist_inv pl3 (?as @ x # ?bs)"
      "conf_of pl3 = conf_of pl1" "trie_depth pl3 = trie_depth pl1" "pl_desc pl3 = pl_desc pl1" "pl_brk pl3 = pl_brk pl1"
    using insert_spec[OF i1(1-3) x1 e1(1) e1'(1) nq s1 i1(4) cnt] by blast
  have "prefix_list_entry_add pl x = Some pl3" unfolding prefix_list_entry_add_def x(2) Option.bind.simps sq Let_def p1(1) using p3(1,2) by simp
  moreover have "conf_of pl3 = (\<lambda>y. if y \<in> set xs \<and> f y = q then None else conf_of pl y)(x \<mapsto> pe_conf ?e)"
    unfolding p3(4) p1(3) by (rule ext) (use x(1) in \<open>auto simp: conf_of_def\<close>)
  ultimately show ?thesis using p3(3,5-7) p1(4-6) unfolding place_def by auto
qed

subsection \<open>Updates through the northbound\<close>

text \<open>Fields that neither the links nor the trie depend on.\<close>

lemma plist_inv_same:
  assumes inv: "plist_inv pl xs" and e: "pl_mem pl x = Some e"
    and e': "pe_seq e' = pe_seq e" "pe_prefix e' = pe_prefix e" "next_best e' = next_best e" "pe_prev e' = pe_prev e" "pe_next e' = pe_next e"
  shows "plist_inv (pl\<lparr>pl_mem := (pl_mem pl)(x \<mapsto> e')\<rparr>) xs"
proof -
  let ?pl = "pl\<lparr>pl_mem := (pl_mem pl)(x \<mapsto> e')\<rparr>"
  have "linked ?pl xs" by (rule linked_cong[of pl]) (use inv e e' in \<open>auto simp: plist_inv_def\<close>)
  moreover have "indexed ?pl (set xs)" by (rule indexed_cong[of pl]) (use inv e e' in \<open>auto simp: plist_inv_def\<close>)
  moreover have "idle ?pl (set xs)" using inv e e' by (auto simp: plist_inv_def idle_def)
  moreover have "seq_of ((pl_mem pl)(x \<mapsto> e')) = seq_of (pl_mem pl)" using e e' by (auto simp: seq_of_def fun_eq_iff)
  ultimately show ?thesis using inv by (simp add: plist_inv_def)
qed

lemma plist_inv_flag:
  "plist_inv pl xs \<Longrightarrow> pl_mem pl x = Some e \<Longrightarrow> plist_inv (pl\<lparr>pl_mem := (pl_mem pl)(x \<mapsto> e\<lparr>installed := b\<rparr>)\<rparr>) xs"
  by (rule plist_inv_same) simp_all

lemma prefix_list_entry_update_start_spec:
  assumes inv: "plist_inv pl (as @ x # bs)" and e: "pl_mem pl x = Some e" "installed e"
  shows "\<exists>pl'. prefix_list_entry_update_start pl x = Some pl' \<and> plist_inv pl' (as @ bs) \<and>
    conf_of pl' = (conf_of pl)(x \<mapsto> pe_conf (e\<lparr>installed := False\<rparr>)) \<and>
    trie_depth pl' = trie_depth pl \<and> pl_desc pl' = pl_desc pl \<and> pl_brk pl' = pl_brk pl"
proof -
  let ?xs = "as @ x # bs"
  have x: "x \<notin> set (as @ bs)" using inv by (auto simp: plist_inv_def linked_def)
  obtain pl1 pl2 where p: "prefix_list_entry_is_duplicated pl x = Some (duplicated pl ?xs x)" "prefix_list_trie_del pl x = Some pl1"
      "list_unlink pl1 x = Some pl2" "linked pl2 (as @ bs)" "indexed pl2 (set (as @ bs))" "idle pl2 (set ?xs)"
      "conf_of pl2 = conf_of pl" "pl_misc pl2 = pl_misc pl"
    using unhook_spec[OF inv] by blast
  obtain e2 where e2: "pl_mem pl2 x = Some e2" "pe_conf e2 = pe_conf e" using conf_of_Some[of pl2 x "pe_conf e"] p(7) e by (auto simp: conf_of_def)
  define cs where "cs = (if duplicated pl ?xs x then [] else [Notify_pentry (pe_prefix e) RMAP_EVENT_PLIST_DELETED])"
  let ?E = "(pl_mem pl2)(x \<mapsto> e2\<lparr>next_best := None, installed := False\<rparr>)"
  let ?pl = "pl2\<lparr>pl_mem := ?E, pl_calls := pl_calls pl2 @ cs @ [Notify RMAP_EVENT_PLIST_DELETED, Delete_hook], pl_count := pl_count pl2 - 1\<rparr>"
  have c: "pl_count pl2 = int (length ?xs)" "length ?xs < 2 ^ 31" using inv p(8) by (auto simp: plist_inv_def pl_misc_def)
  have "prefix_list_entry_update_start pl x = Some ?pl"
    using p(1-3) e e2(1) c by (simp add: prefix_list_entry_update_start_def pe_upd_def pl_call_def count_add_def cs_def)
  moreover have "plist_inv ?pl (as @ bs)"
  proof -
    have s: "sorted_wrt (\<lambda>x y. seq_of (pl_mem pl) x < seq_of (pl_mem pl) y) (as @ bs)"
      using inv sorted_wrt_remove by (auto simp: plist_inv_def)
    have "seq_of ?E y = seq_of (pl_mem pl) y" if "y \<in> set (as @ bs)" for y
      using seq_of_conf[of pl2 y pl] p(7) that x by (auto simp: seq_of_def)
    then have "sorted_wrt (\<lambda>x y. seq_of ?E x < seq_of ?E y) (as @ bs)" by (rule sorted_seq_cong[OF s])
    moreover have "idle (pl2\<lparr>pl_mem := ?E\<rparr>) (set (as @ bs))" using p(6) e2(1) by (auto simp: idle_def)
    ultimately show ?thesis
      using p(4,5) c indexed_other[OF x, of pl2] linked_other[OF x, of pl2] by (simp add: plist_inv_def)
  qed
  moreover have "pe_conf (e2\<lparr>next_best := None, installed := False\<rparr>) = pe_conf (e\<lparr>installed := False\<rparr>)"
    using e2(2) by (cases e; cases e2) (simp add: pe_conf_def)
  then have "conf_of ?pl = (conf_of pl)(x \<mapsto> pe_conf (e\<lparr>installed := False\<rparr>))" using p(7) by (auto simp: conf_of_def fun_eq_iff)
  ultimately show ?thesis using p(8) by (auto simp: pl_misc_def)
qed

text \<open>An installed entry may be in the list already with that number; the northbound identifies entries by number.\<close>

lemma prefix_list_entry_update_finish_spec:
  assumes inv: "plist_inv pl xs" and x: "x \<notin> set xs" "pl_mem pl x = Some e" "entry_ok e" "\<not> installed e"
    and fam: "family (pe_prefix e) = AF_INET \<or> family (pe_prefix e) = AF_INET6"
    and q: "pe_seq e \<notin> seq_of (pl_mem pl) ` set xs" and len: "length xs < 2 ^ 31 - 1"
  shows "\<exists>pl'. prefix_list_entry_update_finish pl x = Some pl' \<and> plist_inv pl' (place (seq_of (pl_mem pl)) (pe_seq e) x xs) \<and>
    conf_of pl' = (conf_of pl)(x \<mapsto> pe_conf (e\<lparr>installed := True\<rparr>)) \<and>
    trie_depth pl' = trie_depth pl \<and> pl_desc pl' = pl_desc pl \<and> pl_brk pl' = pl_brk pl"
proof -
  let ?f = "seq_of (pl_mem pl)" and ?q = "pe_seq e"
  let ?as = "filter (\<lambda>y. ?f y < ?q) xs" and ?bs = "filter (\<lambda>y. ?q < ?f y) xs"
  have l: "linked pl xs" and s: "sorted_wrt (\<lambda>x y. ?f x < ?f y) xs" using inv by (auto simp: plist_inv_def)
  have "filter (\<lambda>y. ?f y = ?q) xs = []" unfolding filter_empty_conv using q by (metis imageI)
  then have xs: "xs = ?as @ ?bs" using split_at_seq[OF s, of ?q] by simp
  have pt: "(if \<exists>t. lasto xs = Some t \<and> ?f t < ?q then Some None else entry_find (pl_mem pl) (\<lambda>x. pe_seq x \<ge> ?q) (pl_head pl)) = Some (hdo ?bs)"
  proof (cases "\<exists>t. lasto xs = Some t \<and> ?f t < ?q")
    case True
    then show ?thesis using beyond_last(2)[OF s] by auto
  next
    case False
    show ?thesis
      unfolding if_not_P[OF False] using entry_find_seq[OF l, of "\<lambda>q. ?q \<le> q"] find_place[of ?q ?f xs, folded xs] by simp
  qed
  have i: "linked pl (?as @ ?bs)" "indexed pl (set (?as @ ?bs))" "idle pl (set (?as @ ?bs))" "x \<notin> set (?as @ ?bs)"
    "?q \<notin> ?f ` set (?as @ ?bs)" "pl_count pl = int (length (?as @ ?bs))" "length (?as @ ?bs) < 2 ^ 31 - 1"
    using inv x(1) q len unfolding xs[symmetric] by (auto simp: plist_inv_def)
  have s1: "sorted_wrt (\<lambda>x y. ?f x < ?f y) (?as @ x # ?bs)"
    using place_sorted[of ?f xs ?f x ?q, OF s] x(2) unfolding place_def by (simp add: seq_of_def)
  obtain pl1 pl2 where p: "list_link pl x (hdo ?bs) = Some pl1" "entry_enter pl1 x = Some pl2" "plist_inv pl2 (?as @ x # ?bs)"
      "conf_of pl2 = conf_of pl" "trie_depth pl2 = trie_depth pl" "pl_desc pl2 = pl_desc pl" "pl_brk pl2 = pl_brk pl"
    using insert_spec[OF i(1-4) x(2,3) i(5) s1 i(6,7)] by blast
  obtain e2 where e2: "pl_mem pl2 x = Some e2" "pe_conf e2 = pe_conf e" using conf_of_Some[of pl2 x "pe_conf e"] p(4) x(2) by (auto simp: conf_of_def)
  let ?pl = "pl2\<lparr>pl_mem := (pl_mem pl2)(x \<mapsto> e2\<lparr>installed := True\<rparr>)\<rparr>"
  have "prefix_list_entry_update_finish pl x = Some ?pl"
  proof -
    have nf: "\<not> (family (pe_prefix e) \<noteq> AF_INET \<and> family (pe_prefix e) \<noteq> AF_INET6)" using fam by blast
    show ?thesis
      unfolding prefix_list_entry_update_finish_def x(2) Option.bind.simps if_not_P[OF x(4)] if_not_P[OF nf] beyond_tail_spec[OF l]
        pt p(1,2) pe_upd_def e2(1) ..
  qed
  moreover have "plist_inv ?pl (?as @ x # ?bs)" by (rule plist_inv_flag[OF p(3) e2(1)])
  moreover have "pe_conf (e2\<lparr>installed := True\<rparr>) = pe_conf (e\<lparr>installed := True\<rparr>)"
    using e2(2) by (cases e; cases e2) (simp add: pe_conf_def)
  then have "conf_of ?pl = (conf_of pl)(x \<mapsto> pe_conf (e\<lparr>installed := True\<rparr>))" using p(4) by (auto simp: conf_of_def fun_eq_iff)
  ultimately show ?thesis using p(5-7) unfolding place_def by auto
qed

end
