(* ===== verification/Prefix_List_Config.thy ===== *)
theory Prefix_List_Config
  imports Prefix_List_Inv
begin

text \<open>
  The users of prefix lists: the named lists of lib/plist.c with the operations that BGP's outbound
  route filters call, and the northbound callbacks of lib/filter_nb.c that configure the entries
  of a list. \<^verbatim>\<open>recent\<close>, the list changed last, which only a show command prints, is not modelled.
\<close>

subsection \<open>Named lists\<close>

datatype afi = AFI_UNSPEC | AFI_IP | AFI_IP6 | AFI_L2VPN | AFI_LINKSTATE

datatype master_id = Ipv4 | Ipv6 | Orf_v4 | Orf_v6

text \<open>\<^verbatim>\<open>struct prefix_master\<close>: the lists by name. \<open>pm_calls\<close> keeps the calls made for lists that were deleted.\<close>

record prefix_master =
  pm_depth :: nat
  pm_str :: "string \<rightharpoonup> prefix_list"
  pm_calls :: "(string \<times> plist_call) list"

definition prefix_master_get :: "afi \<Rightarrow> bool \<Rightarrow> master_id option" where
  "prefix_master_get a orf =
     (if a = AFI_IP then Some (if orf then Orf_v4 else Ipv4)
      else if a = AFI_IP6 then Some (if orf then Orf_v6 else Ipv6)
      else None)"

definition prefix_list_init :: "master_id \<Rightarrow> prefix_master" where
  "prefix_list_init i =
     \<lparr>pm_depth = (if i = Ipv4 \<or> i = Orf_v4 then PLC_MAXLEVELV4 else PLC_MAXLEVELV6), pm_str = Map.empty, pm_calls = []\<rparr>"

type_synonym masters = "master_id \<Rightarrow> prefix_master"

definition prefix_list_lookup_do :: "masters \<Rightarrow> afi \<Rightarrow> bool \<Rightarrow> string option \<Rightarrow> prefix_list option" where
  "prefix_list_lookup_do ms a orf name =
     (case name of
        None \<Rightarrow> None
      | Some nm \<Rightarrow> (case prefix_master_get a orf of None \<Rightarrow> None | Some i \<Rightarrow> pm_str (ms i) nm))"

definition put_list :: "masters \<Rightarrow> master_id \<Rightarrow> string \<Rightarrow> prefix_list \<Rightarrow> masters" where
  "put_list ms i nm pl = ms(i := (ms i)\<lparr>pm_str := (pm_str (ms i))(nm \<mapsto> pl)\<rparr>)"

text \<open>\<^verbatim>\<open>prefix_list_insert\<close> and \<^verbatim>\<open>prefix_list_get\<close>; \<open>None\<close> in the result is the null list.\<close>

definition prefix_list_insert :: "masters \<Rightarrow> afi \<Rightarrow> bool \<Rightarrow> string \<Rightarrow> prefix_list option \<times> masters" where
  "prefix_list_insert ms a orf nm =
     (case prefix_master_get a orf of
        None \<Rightarrow> (None, ms)
      | Some i \<Rightarrow> (let pl = prefix_list_new (pm_depth (ms i)) in (Some pl, put_list ms i nm pl)))"

definition prefix_list_get :: "masters \<Rightarrow> afi \<Rightarrow> bool \<Rightarrow> string \<Rightarrow> prefix_list option \<times> masters" where
  "prefix_list_get ms a orf nm =
     (case prefix_list_lookup_do ms a orf (Some nm) of
        Some pl \<Rightarrow> (Some pl, ms)
      | None \<Rightarrow> prefix_list_insert ms a orf nm)"

definition prefix_list_delete :: "masters \<Rightarrow> master_id \<Rightarrow> string \<Rightarrow> masters option" where
  "prefix_list_delete ms i nm =
     do { pl \<leftarrow> pm_str (ms i) nm;
          pl \<leftarrow> delete_entries pl (pl_head pl);
          let pl = pl_call pl [Notify RMAP_EVENT_PLIST_DELETED, Delete_hook];
          Some (ms(i := (ms i)\<lparr>pm_str := (pm_str (ms i))(nm := None),
            pm_calls := pm_calls (ms i) @ map (Pair nm) (pl_calls pl)\<rparr>)) }"

definition prefix_list_entry_delete :: "masters \<Rightarrow> master_id \<Rightarrow> string \<Rightarrow> eaddr \<Rightarrow> bool \<Rightarrow> masters option" where
  "prefix_list_entry_delete ms i nm a update_list =
     do { pl \<leftarrow> pm_str (ms i) nm;
          pl \<leftarrow> prefix_list_entry_delete0 pl a;
          if update_list then
            (let pl = pl_call pl [Notify RMAP_EVENT_PLIST_DELETED, Delete_hook]; ms = put_list ms i nm pl
             in if pl_head pl = None \<and> pl_tail pl = None \<and> pl_desc pl = None then prefix_list_delete ms i nm else Some ms)
          else Some (put_list ms i nm pl) }"

subsection \<open>Outbound route filters\<close>

record orf_prefix =
  orf_seq :: u32
  orf_ge :: u8
  orf_le :: u8
  orf_p :: prefix

datatype cmd_result = CMD_SUCCESS | CMD_WARNING_CONFIG_FAILED

text \<open>The checks of \<^verbatim>\<open>prefix_bgp_orf_set\<close> on \<^verbatim>\<open>ge\<close> and \<^verbatim>\<open>le\<close>.\<close>

definition orf_range_ok :: "orf_prefix \<Rightarrow> bool" where
  "orf_range_ok orfp \<longleftrightarrow>
     \<not> (orf_ge orfp \<noteq> 0 \<and> unat (orf_ge orfp) < prefixlen (orf_p orfp)) \<and>
     \<not> (orf_le orfp \<noteq> 0 \<and> unat (orf_le orfp) < prefixlen (orf_p orfp)) \<and>
     \<not> (orf_le orfp \<noteq> 0 \<and> orf_ge orfp > orf_le orfp)"

definition orf_adjust :: "afi \<Rightarrow> orf_prefix \<Rightarrow> orf_prefix" where
  "orf_adjust a orfp =
     (if orf_ge orfp \<noteq> 0 \<and> orf_le orfp = (if a = AFI_IP then 32 else 128) then orfp\<lparr>orf_le := 0\<rparr> else orfp)"

definition prefix_bgp_orf_set ::
  "masters \<Rightarrow> string \<Rightarrow> afi \<Rightarrow> orf_prefix \<Rightarrow> bool \<Rightarrow> bool \<Rightarrow> (cmd_result \<times> masters) option" where
  "prefix_bgp_orf_set ms nm a orfp permit add =
     (if \<not> orf_range_ok orfp then Some (CMD_WARNING_CONFIG_FAILED, ms)
      else (let orfp = orf_adjust a orfp;
                ty = (if permit then PREFIX_PERMIT else PREFIX_DENY);
                sq = uint (orf_seq orfp); l = uint (orf_le orfp); g = uint (orf_ge orfp)
            in case prefix_list_get ms a True nm of
                 (None, ms) \<Rightarrow> Some (CMD_WARNING_CONFIG_FAILED, ms)
               | (Some pl, ms) \<Rightarrow>
                   do { i \<leftarrow> prefix_master_get a True;
                        p \<leftarrow> apply_mask (orf_p orfp);
                        if add then
                          (let (new, pl) = prefix_list_entry_make pl p ty sq l g False
                           in do { dup \<leftarrow> prefix_entry_dup_check pl new;
                                   if dup \<noteq> None then
                                     do { pl \<leftarrow> prefix_list_entry_free pl new; Some (CMD_WARNING_CONFIG_FAILED, put_list ms i nm pl) }
                                   else
                                     do { pl \<leftarrow> prefix_list_entry_add pl new; Some (CMD_SUCCESS, put_list ms i nm pl) } })
                        else
                          do { pentry \<leftarrow> prefix_list_entry_lookup pl p ty sq l g;
                               (case pentry of
                                  None \<Rightarrow> Some (CMD_WARNING_CONFIG_FAILED, ms)
                                | Some x \<Rightarrow> do { ms \<leftarrow> prefix_list_entry_delete ms i nm x True; Some (CMD_SUCCESS, ms) }) } }))"

definition prefix_bgp_orf_remove_all :: "masters \<Rightarrow> afi \<Rightarrow> string \<Rightarrow> masters option" where
  "prefix_bgp_orf_remove_all ms a nm =
     (case prefix_list_lookup_do ms a True (Some nm) of
        None \<Rightarrow> Some ms
      | Some pl \<Rightarrow> do { i \<leftarrow> prefix_master_get a True; prefix_list_delete ms i nm })"

subsection \<open>Northbound callbacks for entries\<close>

text \<open>A list under configuration: \<open>nb_running\<close> is the table of \<^verbatim>\<open>nb_running_set_entry\<close>, from the sequence number
  that identifies an entry in the data tree to the entry. The values of the tree are arguments.\<close>

record nb_plist =
  nb_pl :: prefix_list
  nb_running :: "int \<rightharpoonup> eaddr"

datatype yang_prefix_list_type = YPLT_IPV4 | YPLT_IPV6

definition nb_upd :: "nb_plist \<Rightarrow> eaddr \<Rightarrow> (prefix_list_entry \<Rightarrow> prefix_list_entry) \<Rightarrow> nb_plist option" where
  "nb_upd s a f = do { E \<leftarrow> pe_upd (pl_mem (nb_pl s)) a f; Some (s\<lparr>nb_pl := (nb_pl s)\<lparr>pl_mem := E\<rparr>\<rparr>) }"

text \<open>Every callback on a leaf of an entry starts with \<^verbatim>\<open>nb_running_get_entry\<close>, which aborts when there is
  none, and \<^verbatim>\<open>prefix_list_entry_update_start\<close>.\<close>

definition nb_start :: "nb_plist \<Rightarrow> int \<Rightarrow> (eaddr \<times> nb_plist) option" where
  "nb_start s sq =
     do { a \<leftarrow> nb_running s sq;
          pl \<leftarrow> prefix_list_entry_update_start (nb_pl s) a;
          Some (a, s\<lparr>nb_pl := pl\<rparr>) }"

definition prefix_list_entry_set_empty :: "prefix_list_entry \<Rightarrow> prefix_list_entry" where
  "prefix_list_entry_set_empty e = e\<lparr>pe_any := False, pe_prefix := prefix_zero, pe_ge := 0, pe_le := 0\<rparr>"

definition lib_prefix_list_entry_create :: "nb_plist \<Rightarrow> u32 \<Rightarrow> nb_plist option" where
  "lib_prefix_list_entry_create s sequence =
     (let (a, pl) = prefix_list_entry_new (nb_pl s)
      in do { s \<leftarrow> nb_upd (s\<lparr>nb_pl := pl\<rparr>) a (\<lambda>e. prefix_list_entry_set_empty (e\<lparr>pe_seq := uint sequence\<rparr>));
              Some (s\<lparr>nb_running := (nb_running s)(uint sequence \<mapsto> a)\<rparr>) })"

definition lib_prefix_list_entry_destroy :: "nb_plist \<Rightarrow> int \<Rightarrow> nb_plist option" where
  "lib_prefix_list_entry_destroy s sq =
     do { a \<leftarrow> nb_running s sq;
          let s = s\<lparr>nb_running := (nb_running s)(sq := None)\<rparr>;
          e \<leftarrow> pl_mem (nb_pl s) a;
          pl \<leftarrow> (if installed e then prefix_list_entry_delete2 (nb_pl s) a else prefix_list_entry_free (nb_pl s) a);
          Some (s\<lparr>nb_pl := pl\<rparr>) }"

definition lib_prefix_list_entry_apply_finish :: "nb_plist \<Rightarrow> int \<Rightarrow> nb_plist option" where
  "lib_prefix_list_entry_apply_finish s sq =
     do { a \<leftarrow> nb_running s sq;
          pl \<leftarrow> prefix_list_entry_update_finish (nb_pl s) a;
          Some (s\<lparr>nb_pl := pl\<rparr>) }"

definition lib_prefix_list_entry_action_modify :: "nb_plist \<Rightarrow> int \<Rightarrow> bool \<Rightarrow> nb_plist option" where
  "lib_prefix_list_entry_action_modify s sq permit =
     do { (a, s) \<leftarrow> nb_start s sq;
          nb_upd s a (\<lambda>e. e\<lparr>pe_type := (if permit then PREFIX_PERMIT else PREFIX_DENY)\<rparr>) }"

text \<open>\<open>uninit\<close> is the uninitialised local \<^verbatim>\<open>struct prefix p\<close>.\<close>

definition lib_prefix_list_entry_prefix_modify :: "prefix \<Rightarrow> nb_plist \<Rightarrow> int \<Rightarrow> prefix \<Rightarrow> nb_plist option" where
  "lib_prefix_list_entry_prefix_modify uninit s sq pfx =
     do { (a, s) \<leftarrow> nb_start s sq;
          p \<leftarrow> apply_mask (prefix_copy uninit pfx);
          nb_upd s a (\<lambda>e. e\<lparr>pe_prefix := (if prefix_same (Some pfx) (Some p) then pfx else prefix_copy pfx p)\<rparr>) }"

definition lib_prefix_list_entry_prefix_destroy :: "nb_plist \<Rightarrow> int \<Rightarrow> nb_plist option" where
  "lib_prefix_list_entry_prefix_destroy s sq =
     do { (a, s) \<leftarrow> nb_start s sq; nb_upd s a (\<lambda>e. e\<lparr>pe_prefix := prefix_zero\<rparr>) }"

definition lib_prefix_list_entry_prefix_length_greater_or_equal_modify :: "nb_plist \<Rightarrow> int \<Rightarrow> u8 \<Rightarrow> nb_plist option" where
  "lib_prefix_list_entry_prefix_length_greater_or_equal_modify s sq v =
     do { (a, s) \<leftarrow> nb_start s sq; nb_upd s a (\<lambda>e. e\<lparr>pe_ge := uint v\<rparr>) }"

definition lib_prefix_list_entry_prefix_length_greater_or_equal_destroy :: "nb_plist \<Rightarrow> int \<Rightarrow> nb_plist option" where
  "lib_prefix_list_entry_prefix_length_greater_or_equal_destroy s sq =
     do { (a, s) \<leftarrow> nb_start s sq; nb_upd s a (\<lambda>e. e\<lparr>pe_ge := 0\<rparr>) }"

definition lib_prefix_list_entry_prefix_length_lesser_or_equal_modify :: "nb_plist \<Rightarrow> int \<Rightarrow> u8 \<Rightarrow> nb_plist option" where
  "lib_prefix_list_entry_prefix_length_lesser_or_equal_modify s sq v =
     do { (a, s) \<leftarrow> nb_start s sq; nb_upd s a (\<lambda>e. e\<lparr>pe_le := uint v\<rparr>) }"

definition lib_prefix_list_entry_prefix_length_lesser_or_equal_destroy :: "nb_plist \<Rightarrow> int \<Rightarrow> nb_plist option" where
  "lib_prefix_list_entry_prefix_length_lesser_or_equal_destroy s sq =
     do { (a, s) \<leftarrow> nb_start s sq; nb_upd s a (\<lambda>e. e\<lparr>pe_le := 0\<rparr>) }"

definition any_entry :: "yang_prefix_list_type \<Rightarrow> prefix_list_entry \<Rightarrow> prefix_list_entry" where
  "any_entry ty e =
     (case ty of
        YPLT_IPV4 \<Rightarrow> e\<lparr>pe_any := True, pe_prefix := prefix_zero\<lparr>family := AF_INET\<rparr>, pe_ge := 0, pe_le := 32\<rparr>
      | YPLT_IPV6 \<Rightarrow> e\<lparr>pe_any := True, pe_prefix := prefix_zero\<lparr>family := AF_INET6\<rparr>, pe_ge := 0, pe_le := 128\<rparr>)"

definition lib_prefix_list_entry_any_create :: "nb_plist \<Rightarrow> int \<Rightarrow> yang_prefix_list_type \<Rightarrow> nb_plist option" where
  "lib_prefix_list_entry_any_create s sq ty =
     do { (a, s) \<leftarrow> nb_start s sq; nb_upd s a (any_entry ty) }"

definition lib_prefix_list_entry_any_destroy :: "nb_plist \<Rightarrow> int \<Rightarrow> nb_plist option" where
  "lib_prefix_list_entry_any_destroy s sq =
     do { (a, s) \<leftarrow> nb_start s sq; nb_upd s a (\<lambda>e. e\<lparr>pe_any := False\<rparr>) }"

subsection \<open>First match\<close>

text \<open>What a prefix list decides: the type of its first entry that matches; an empty list permits.\<close>

definition first_match :: "prefix_list_entry list \<Rightarrow> prefix \<Rightarrow> bool \<Rightarrow> prefix_list_type" where
  "first_match es p address_mode =
     (if es = [] then PREFIX_PERMIT
      else case find (\<lambda>e. prefix_list_entry_match e p address_mode) es of None \<Rightarrow> PREFIX_DENY | Some e \<Rightarrow> pe_type e)"

definition rules :: "prefix_list \<Rightarrow> eaddr list \<Rightarrow> prefix_list_entry list" where
  "rules pl xs = map (\<lambda>x. the (conf_of pl x)) xs"

lemma entry_match_conf [simp]: "prefix_list_entry_match (pe_conf e) p am = prefix_list_entry_match e p am"
  by (cases e) (simp add: prefix_list_entry_match_def pe_conf_def)

lemma find_map_conf:
  assumes "\<And>x. x \<in> set xs \<Longrightarrow> \<exists>e. pl_mem pl x = Some e"
  shows "find (\<lambda>e. prefix_list_entry_match e p am) (rules pl xs) =
    map_option (\<lambda>x. the (conf_of pl x)) (find (matches (pl_mem pl) p am) xs)"
  using assms
proof (induction xs)
  case (Cons x xs)
  obtain e where "pl_mem pl x = Some e" using Cons.prems[of x] by auto
  then show ?case using Cons by (simp add: rules_def conf_of_def matches_def)
qed (simp add: rules_def)

lemma prefix_list_apply_ext_spec:
  assumes inv: "plist_inv pl xs" and p: "prefix_ok p"
  shows "\<exists>pl'. prefix_list_apply_ext (Some pl) p am =
      Some (first_match (rules pl xs) p am, if xs = [] then None else find (matches (pl_mem pl) p am) xs, Some pl') \<and>
    plist_inv pl' xs \<and> trie_depth pl' = trie_depth pl \<and> pl_desc pl' = pl_desc pl \<and> dom (pl_mem pl') = dom (pl_mem pl) \<and>
    (\<forall>y. conf_of pl' y = map_option (\<lambda>e. if xs \<noteq> [] \<and> find (matches (pl_mem pl) p am) xs = Some y
      then e\<lparr>pe_hitcnt := pe_hitcnt e + 1\<rparr> else e) (conf_of pl y))"
proof (cases "xs = []")
  case True
  then have "prefix_list_apply_ext (Some pl) p am = Some (PREFIX_PERMIT, None, Some pl)"
    using inv by (simp add: prefix_list_apply_ext_def plist_inv_def)
  then show ?thesis using inv True by (simp add: first_match_def rules_def option.map_ident)
next
  case False
  let ?E = "pl_mem pl"
  have i: "indexed pl (set xs)" and s: "sorted_wrt (\<lambda>x y. seq_of ?E x < seq_of ?E y) xs" and c: "pl_count pl \<noteq> 0"
    using inv False by (auto simp: plist_inv_def)
  obtain r where r: "apply_walk (trie_depth pl) (u_val p) (prefixlen p) ?E p am (pl_trie pl) None = Some r"
      "is_best ?E (matches ?E p am) (set xs) r"
    using indexed_apply[OF i p] by blast
  have rf: "r = find (matches ?E p am) xs" by (rule is_best_find[OF s r(2)])
  have mem: "\<And>x. x \<in> set xs \<Longrightarrow> \<exists>e. ?E x = Some e" using plist_inv_entry[OF inv] by blast
  have fm: "first_match (rules pl xs) p am = (case r of None \<Rightarrow> PREFIX_DENY | Some x \<Rightarrow> pe_type (the (conf_of pl x)))"
    using False find_map_conf[of xs pl p am, OF mem] by (auto simp: first_match_def rf rules_def split: option.split)
  show ?thesis
  proof (cases r)
    case None
    then have "prefix_list_apply_ext (Some pl) p am = Some (PREFIX_DENY, None, Some pl)" using r(1) c by (simp add: prefix_list_apply_ext_def)
    then show ?thesis using inv None rf fm False by (simp add: option.map_ident)
  next
    case (Some a)
    then have "a \<in> set xs" using r(2) by (simp add: is_best_def)
    then obtain e where e: "?E a = Some e" using mem by blast
    let ?pl = "pl\<lparr>pl_mem := ?E(a \<mapsto> e\<lparr>pe_hitcnt := pe_hitcnt e + 1\<rparr>)\<rparr>"
    have "prefix_list_apply_ext (Some pl) p am = Some (pe_type e, Some a, Some ?pl)" using r(1) c e Some by (simp add: prefix_list_apply_ext_def)
    moreover have "plist_inv ?pl xs" by (rule plist_inv_same[OF inv e]) simp_all
    moreover have "conf_of ?pl y = map_option (\<lambda>e. if a = y then e\<lparr>pe_hitcnt := pe_hitcnt e + 1\<rparr> else e) (conf_of pl y)" for y
      using e by (cases "pl_mem pl y") (auto simp: conf_of_def pe_conf_def)
    moreover have "first_match (rules pl xs) p am = pe_type e" using fm Some e by (simp add: conf_of_def)
    moreover have "dom (pl_mem ?pl) = dom (pl_mem pl)" using e by auto
    ultimately show ?thesis using Some rf False by auto
  qed
qed

subsection \<open>Deleting a list\<close>

lemma indexed_empty_trie:
  assumes "indexed pl {}"
  shows "trie_table_empty (pl_trie pl)"
proof -
  obtain L where L: "lists_of (slots_of (trie_depth pl) (pl_mem pl)) (rank (pl_mem pl)) {} L" "\<And>s. chain (pl_mem pl) (slotval (pl_trie pl) s) (L s)"
    using assms unfolding indexed_def chains_def by blast
  have "slotval (pl_trie pl) s = None" for s using L(2)[of s] lists_of_set[OF L(1), of s] by simp
  then show ?thesis using trie_empty_iff assms unfolding indexed_def by blast
qed

lemma delete_entries_spec:
  assumes "dseg (pl_mem pl) q xs None" "distinct xs" "indexed pl (set xs)" "pl_count pl = int (length xs)" "length xs < 2 ^ 31"
  shows "\<exists>pl'. delete_entries pl (hdo xs) = Some pl' \<and> indexed pl' {} \<and> pl_count pl' = 0 \<and>
    conf_of pl' = (\<lambda>y. if y \<in> set xs then None else conf_of pl y) \<and>
    pl_calls pl' = pl_calls pl @ map (\<lambda>x. Notify_pentry (pe_prefix (the (conf_of pl x))) RMAP_EVENT_PLIST_DELETED) xs"
  using assms
proof (induction xs arbitrary: pl q)
  case Nil
  then show ?case by (subst delete_entries.simps) (simp add: fun_eq_iff)
next
  case (Cons x xs)
  obtain e where e: "pl_mem pl x = Some e" "dseg (pl_mem pl) (Some x) xs None" using Cons.prems(1) by auto
  have nx: "pe_next e = hdo xs" by (rule linked_tail_head[OF Cons.prems(1) e(1)])
  let ?pl0 = "pl_call pl [Notify_pentry (pe_prefix e) RMAP_EVENT_PLIST_DELETED]"
  have i0: "indexed ?pl0 (set (x # xs))" using Cons.prems(3) by (simp add: pl_call_def)
  obtain E t where d: "prefix_list_trie_del ?pl0 x = Some (?pl0\<lparr>pl_mem := E, pl_trie := t\<rparr>)" "best_only (set (x # xs)) (pl_mem ?pl0) E"
      "indexed (?pl0\<lparr>pl_mem := E, pl_trie := t\<rparr>) (set (x # xs) - {x})"
    using prefix_list_trie_del_spec[OF i0, of x] by auto
  have xs: "set (x # xs) - {x} = set xs" "x \<notin> set xs" using Cons.prems(2) by auto
  obtain e1 where e1: "E x = Some e1" using same_but_best_D[OF best_only_same[OF d(2)], of x e] e(1) by (auto simp: pl_call_def)
  let ?pl1 = "?pl0\<lparr>pl_mem := E, pl_trie := t\<rparr>"
  let ?pl2 = "?pl1\<lparr>pl_mem := (pl_mem ?pl1)(x := None)\<rparr>"
  define pl3 where "pl3 = ?pl2\<lparr>pl_count := pl_count pl - 1\<rparr>"
  have st: "delete_entries pl (hdo (x # xs)) = delete_entries pl3 (hdo xs)"
    using e(1) e1 d(1) nx Cons.prems(4,5)
    by (subst delete_entries.simps) (simp add: prefix_list_entry_free_def count_add_def pl_call_def pl3_def)
  have i3: "indexed pl3 (set xs)" using indexed_other[OF xs(2) d(3)[unfolded xs(1)], of None] by (simp add: pl3_def)
  have d3: "dseg (pl_mem pl3) (Some x) xs None"
    using e(2) xs(2) same_but_best_view(4)[OF best_only_same[OF d(2)]] by (simp add: dseg_frame pl_call_def pl3_def)
  have n3: "pl_count pl3 = int (length xs)" "length xs < 2 ^ 31" "distinct xs" using Cons.prems(2,4,5) by (auto simp: pl3_def)
  obtain pl' where pl': "delete_entries pl3 (hdo xs) = Some pl'" "indexed pl' {}" "pl_count pl' = 0"
      "conf_of pl' = (\<lambda>y. if y \<in> set xs then None else conf_of pl3 y)"
      "pl_calls pl' = pl_calls pl3 @ map (\<lambda>x. Notify_pentry (pe_prefix (the (conf_of pl3 x))) RMAP_EVENT_PLIST_DELETED) xs"
    using Cons.IH[OF d3 n3(3) i3 n3(1,2)] by blast
  have c3: "conf_of pl3 y = (if y = x then None else conf_of pl y)" for y
    using fun_cong[OF best_only_conf[OF d(2), of t], of y] by (simp add: conf_of_def pl_call_def pl3_def)
  have "conf_of pl' = (\<lambda>y. if y \<in> set (x # xs) then None else conf_of pl y)" unfolding pl'(4) c3 by auto
  moreover have "map (\<lambda>x. Notify_pentry (pe_prefix (the (conf_of pl3 x))) RMAP_EVENT_PLIST_DELETED) xs =
      map (\<lambda>x. Notify_pentry (pe_prefix (the (conf_of pl x))) RMAP_EVENT_PLIST_DELETED) xs"
    using xs(2) c3 by auto
  then have "pl_calls pl' = pl_calls pl @ map (\<lambda>x. Notify_pentry (pe_prefix (the (conf_of pl x))) RMAP_EVENT_PLIST_DELETED) (x # xs)"
    unfolding pl'(5) using e(1) by (simp add: pl_call_def conf_of_def pl3_def)
  ultimately show ?case using pl'(1-3) unfolding st by blast
qed

end
