(* ===== verification/Spec2Isabelle.thy ===== *)
theory Spec2Isabelle
  imports Frr_Prelude Jhash Prefix Thash Radix_Tree Route_Table Route_Inv Route_Insert Route_Delete Route_Iter Route_Sets Route_Contract
    Packet_Stream Stream_Fifo Checksum Spf_Backoff Frr_Vector Rip_Interface Prefix_List Prefix_List_Chain Prefix_List_Trie Prefix_List_Inv Prefix_List_Config
begin

text \<open>
  A verification development for FRRouting (src/), a suite of routing protocol daemons in C.
  The daemons (\<^verbatim>\<open>bgpd\<close>, \<^verbatim>\<open>ospfd\<close>, \<^verbatim>\<open>isisd\<close>, \<^verbatim>\<open>ripd\<close>, \<dots>) are processes that share the
  code of \<^verbatim>\<open>src/lib\<close>: prefixes, routing tables, packet buffers, vectors, checksums, timers.
  This development models that shared code bottom up, and the interface configuration of
  \<^verbatim>\<open>ripd\<close> as a client of it.

  \<^bold>\<open>Conventions.\<close> A C function that can fail an assertion, follow a null or dangling pointer or
  leave the bounds of an object returns an option: \<open>None\<close> is the crash, so a theorem that a
  call returns \<open>Some\<close> also shows that it does not crash. Pointers are addresses (\<open>nat\<close>) in an
  explicit store from which freed objects are removed. Integers are words of their C width, or
  natural numbers with the reduction written out. Loops whose end depends on pointers are
  \<open>partial_function (option)\<close>, for which divergence is \<open>None\<close>; the theorems show \<open>Some\<close>.
  Memory exhaustion aborts the process and is no outcome of the model.

  \<^bold>\<open>Theories.\<close>
  \<^item> \<open>Frr_Prelude\<close>: integer types, assertions, bytes as bit strings, big-endian numbers,
    \<^verbatim>\<open>numcmp\<close> of lib/compiler.h, generic facts on lists.
  \<^item> \<open>Jhash\<close> (lib/jhash.c): the hash functions; the word variant computes the byte variant.
  \<^item> \<open>Prefix\<close> (lib/prefix.c): matching, comparison, masks, common bits, classful masks.
    \<open>key p\<close> is the bit string a prefix denotes; every operation is related to it.
  \<^item> \<open>Thash\<close> (lib/typesafe.c, the hash part of lib/typesafe.h): buckets sorted by hash value,
    growing and shrinking; \<open>thash_ok\<close> is its invariant. The locale \<open>hash_keys\<close> holds the laws
    of a comparison and hash function, and is interpreted on \<^verbatim>\<open>prefix_cmp\<close>.
  \<^item> \<open>Radix_Tree\<close>: the abstract binary tree of bit strings that routing tables implement.
  \<^item> \<open>Route_Table\<close> (lib/table.c): the node store, insertion, removal, matching, iteration.
    \<open>Route_Inv\<close> states the invariant \<open>rt_inv\<close> (store, tree, hash table and counters agree);
    \<open>Route_Insert\<close>, \<open>Route_Delete\<close>, \<open>Route_Iter\<close> show what the operations do to it,
    \<open>Route_Sets\<close> the tables as sets of prefixes, \<open>Route_Contract\<close> the promises to users:
    longest match, exact lookup, insertion, reference counts, traversal order, resumable
    iterators, complete deallocation.
  \<^item> \<open>Packet_Stream\<close> (lib/stream.c): bounds, reading back what was written, error returns.
    The locale \<open>stream_reader\<close> is the contract of a fixed-width reader.
    \<open>Stream_Fifo\<close>: the linked queue of streams as the locale \<open>queue\<close>.
  \<^item> \<open>Checksum\<close> (lib/checksum.c): the Internet and Fletcher checksums against their definitions
    as sums; validation of what was generated.
  \<^item> \<open>Spf_Backoff\<close> (lib/spf_backoff.c, timers of lib/event.c): the SPF delay state machine as
    a step relation, its invariant and its return to the quiet state.
  \<^item> \<open>Frr_Vector\<close> (lib/vector.c): the dynamic array; the locale \<open>slot_store\<close> is what its
    clients rely on.
  \<^item> \<open>Rip_Interface\<close> (ripd/rip_interface.c): networks, neighbours, interface names and passive
    interfaces of a RIP instance, on top of routing tables and vectors; the locale
    \<open>config_set\<close> is a configured set with its add and delete commands.

  \<^bold>\<open>Bounds.\<close> The typesafe hash table stops growing at \<open>2 ^ 31\<close> buckets and its count is a
  32-bit word, hence theorems on insertion assume fewer than \<open>2 ^ 30\<close> nodes. Vectors count in
  32 bits and double, hence fewer than \<open>2 ^ 28\<close> slots. Lock counters are 32-bit words, hence
  the bound on references to one node.

  \<^bold>\<open>Not modelled.\<close> EVPN, flowspec and link-state prefixes (payload behind a pointer), text
  conversion of addresses, the other containers of lib/typesafe.h, sockets and the event loop
  (system interfaces), the command parser and northbound (generated grammars, libyang), and
  the daemons beyond what is listed above.
\<close>

end
